(* ===== verification/Prelude.thy ===== *)
theory Prelude
  imports Main "HOL-Library.Word"
begin

text \<open>
  What the component theories share: the exceptions of the Python sources as values
  of a result type, sequencing of fallible steps, Python's slices and slice
  assignment on lists, and the collections of rewrite rules that carry the component
  proofs.  Python integers are \<^typ>\<open>int\<close>, or \<^typ>\<open>nat\<close> where the source only ever
  holds a length, an index or another value that cannot be negative.
\<close>

section \<open>Exceptions as values\<close>

text \<open>
  The exceptions the modelled code raises, explicitly or through the operations it
  uses.  \<open>SystemExit\<close> is \<^verbatim>\<open>sys.exit(message)\<close>; the messages are kept where the source
  distinguishes failures by them only.
\<close>

datatype py_error =
    IndexError
  | KeyError
  | ValueError
  | TypeError
  | ZeroDivisionError
  | OverflowError
  | StructError
  | AssertionError string
  | SystemExit string
  | CycleError
  | AddressValueError
  | NetmaskValueError
  | RuntimeError

type_synonym 'a result = "py_error + 'a"

definition bindE :: "'e + 'a \<Rightarrow> ('a \<Rightarrow> 'e + 'b) \<Rightarrow> 'e + 'b" where
  "bindE r f = (case r of Inl e \<Rightarrow> Inl e | Inr x \<Rightarrow> f x)"

definition assertE :: "bool \<Rightarrow> string \<Rightarrow> unit result" where
  "assertE b msg = (if b then Inr () else Inl (AssertionError msg))"

definition guardE :: "bool \<Rightarrow> 'e \<Rightarrow> 'e + unit" where
  "guardE b e = (if b then Inr () else Inl e)"

fun foldE :: "('s \<Rightarrow> 'a \<Rightarrow> 'e + 's) \<Rightarrow> 's \<Rightarrow> 'a list \<Rightarrow> 'e + 's" where
  "foldE f s [] = Inr s"
| "foldE f s (x # xs) = bindE (f s x) (\<lambda>s'. foldE f s' xs)"

fun mapE :: "('a \<Rightarrow> 'e + 'b) \<Rightarrow> 'a list \<Rightarrow> 'e + 'b list" where
  "mapE f [] = Inr []"
| "mapE f (x # xs) = bindE (f x) (\<lambda>y. bindE (mapE f xs) (\<lambda>ys. Inr (y # ys)))"

lemma bindE_Inr [simp]: "bindE (Inr x) f = f x"
  by (simp add: bindE_def)

lemma bindE_Inl [simp]: "bindE (Inl e) f = Inl e"
  by (simp add: bindE_def)

lemma bindE_eq_Inr_iff: "bindE r f = Inr y \<longleftrightarrow> (\<exists>x. r = Inr x \<and> f x = Inr y)"
  by (cases r) auto

lemma bindE_eq_Inl_iff:
  "bindE r f = Inl e \<longleftrightarrow> r = Inl e \<or> (\<exists>x. r = Inr x \<and> f x = Inl e)"
  by (cases r) auto

lemma bindE_InrE [elim]:
  assumes "bindE r f = Inr y"
  obtains x where "r = Inr x" and "f x = Inr y"
  using assms by (auto simp: bindE_eq_Inr_iff)

lemma bindE_assoc: "bindE (bindE r f) g = bindE r (\<lambda>x. bindE (f x) g)"
  by (cases r) auto

lemma bindE_cong [fundef_cong]:
  assumes "r = r'" and "\<And>x. r' = Inr x \<Longrightarrow> f x = g x"
  shows "bindE r f = bindE r' g"
  using assms by (cases r') auto

lemma assertE_True [simp]: "assertE True msg = Inr ()"
  by (simp add: assertE_def)

lemma assertE_eq_Inr_iff [simp]: "assertE b msg = Inr u \<longleftrightarrow> b"
  by (simp add: assertE_def)

lemma assertE_eq_Inl_iff [simp]: "assertE b msg = Inl e \<longleftrightarrow> \<not> b \<and> e = AssertionError msg"
  by (auto simp: assertE_def)

lemma guardE_True [simp]: "guardE True e = Inr ()"
  by (simp add: guardE_def)

lemma guardE_eq_Inr_iff [simp]: "guardE b e = Inr u \<longleftrightarrow> b"
  by (simp add: guardE_def)

lemma guardE_eq_Inl_iff [simp]: "guardE b e = Inl e' \<longleftrightarrow> \<not> b \<and> e' = e"
  by (auto simp: guardE_def)

lemma foldE_append: "foldE f s (xs @ ys) = bindE (foldE f s xs) (\<lambda>s'. foldE f s' ys)"
  by (induction xs arbitrary: s) (auto simp: bindE_assoc)

lemma foldE_invariant:
  assumes "foldE f s xs = Inr t" and "P s"
    and "\<And>s x t. P s \<Longrightarrow> x \<in> set xs \<Longrightarrow> f s x = Inr t \<Longrightarrow> P t"
  shows "P t"
  using assms
proof (induction xs arbitrary: s)
  case Nil
  then show ?case by simp
next
  case (Cons x xs)
  from Cons.prems(1) obtain u where u: "f s x = Inr u" and rest: "foldE f u xs = Inr t"
    by (auto simp: bindE_eq_Inr_iff)
  have "P u" by (rule Cons.prems(3)[OF Cons.prems(2) _ u]) simp
  then show ?case
    by (rule Cons.IH[OF rest]) (rule Cons.prems(3), auto)
qed

lemma foldE_both:
  assumes "P s"
    and "\<And>s x t. P s \<Longrightarrow> f s x = Inr t \<Longrightarrow> P t"
    and "\<And>s x e. P s \<Longrightarrow> f s x = Inl e \<Longrightarrow> Q e"
  shows "case foldE f s xs of Inl e \<Rightarrow> Q e | Inr t \<Rightarrow> P t"
  using assms(1)
proof (induction xs arbitrary: s)
  case Nil
  then show ?case by simp
next
  case (Cons x xs)
  show ?case
  proof (cases "f s x")
    case (Inl e)
    with assms(3)[OF Cons.prems] show ?thesis by simp
  next
    case (Inr t)
    from Cons.IH[OF assms(2)[OF Cons.prems Inr]] Inr show ?thesis by simp
  qed
qed

lemma foldE_Inl: "foldE f s xs = Inl e \<Longrightarrow> \<exists>t. \<exists>x\<in>set xs. f t x = Inl e"
  by (induction xs arbitrary: s) (auto simp: bindE_eq_Inl_iff, blast)

lemma mapE_Inl: "mapE f xs = Inl e \<Longrightarrow> \<exists>x\<in>set xs. f x = Inl e"
  by (induction xs) (auto simp: bindE_eq_Inl_iff)

lemma mapE_Inr_nth: "mapE f xs = Inr ys \<Longrightarrow> i < length xs \<Longrightarrow> f (xs ! i) = Inr (ys ! i)"
proof (induction xs arbitrary: ys i)
  case (Cons x xs)
  then show ?case by (cases i) (auto simp: bindE_eq_Inr_iff)
qed simp

lemma mapE_compose:
  "mapE f xs = Inr ys \<Longrightarrow> mapE (\<lambda>x. bindE (f x) (\<lambda>y. Inr (g y))) xs = Inr (map g ys)"
  by (induction xs arbitrary: ys) (auto simp: bindE_eq_Inr_iff)

lemma foldE_idle: "(\<And>x. x \<in> set xs \<Longrightarrow> f s x = Inr s) \<Longrightarrow> foldE f s xs = Inr s"
  by (induction xs) auto

lemma mapE_cong [fundef_cong]: "xs = ys \<Longrightarrow> (\<And>x. x \<in> set ys \<Longrightarrow> f x = g x) \<Longrightarrow> mapE f xs = mapE g ys"
  by (induction xs arbitrary: ys) auto

lemma mapE_map: "mapE f (map g xs) = mapE (\<lambda>x. f (g x)) xs"
  by (induction xs) auto

lemma mapE_length: "mapE f xs = Inr ys \<Longrightarrow> length ys = length xs"
  by (induction xs arbitrary: ys) (auto simp: bindE_eq_Inr_iff)

lemma mapE_Inr_iff_map:
  "(\<And>x. x \<in> set xs \<Longrightarrow> f x = Inr (g x)) \<Longrightarrow> mapE f xs = Inr (map g xs)"
  by (induction xs) auto

section \<open>Slices\<close>

text \<open>
  \<open>py_slice xs i j\<close> is Python's \<^verbatim>\<open>xs[i:j]\<close> and \<open>set_slice xs i j vs\<close> the list after
  \<^verbatim>\<open>xs[i:j] = vs\<close>, for bounds that are not negative: both clamp to the list, so an
  assignment past the end appends.
\<close>

definition py_slice :: "'a list \<Rightarrow> nat \<Rightarrow> nat \<Rightarrow> 'a list" where
  "py_slice xs i j = take (j - i) (drop i xs)"

definition set_slice :: "'a list \<Rightarrow> nat \<Rightarrow> nat \<Rightarrow> 'a list \<Rightarrow> 'a list" where
  "set_slice xs i j vs = take i xs @ vs @ drop (max i j) xs"

text \<open>Python's \<^verbatim>\<open>xs[i]\<close> with a non-negative index.\<close>

definition py_nth :: "'a list \<Rightarrow> nat \<Rightarrow> 'a result" where
  "py_nth xs i = (if i < length xs then Inr (xs ! i) else Inl IndexError)"

named_theorems slice_simps \<open>lengths and elements of slices\<close>

lemma py_nth_Inr_iff [simp]: "py_nth xs i = Inr x \<longleftrightarrow> i < length xs \<and> x = xs ! i"
  by (auto simp: py_nth_def)

lemma py_nth_ok: "i < length xs \<Longrightarrow> py_nth xs i = Inr (xs ! i)"
  by simp

lemma length_py_slice [slice_simps]: "length (py_slice xs i j) = min (length xs) j - i"
  by (auto simp: py_slice_def)

lemma nth_py_slice [slice_simps]:
  "k < min (length xs) j - i \<Longrightarrow> py_slice xs i j ! k = xs ! (i + k)"
  by (simp add: py_slice_def)

lemma length_set_slice [slice_simps]:
  "i \<le> j \<Longrightarrow> j \<le> length xs \<Longrightarrow> length (set_slice xs i j vs) = length xs - (j - i) + length vs"
  by (auto simp: set_slice_def)

lemma length_set_slice_eq [simp]:
  "j = i + length vs \<Longrightarrow> j \<le> length xs \<Longrightarrow> length (set_slice xs i j vs) = length xs"
  by (simp add: set_slice_def)

lemma nth_set_slice [slice_simps]:
  assumes "j = i + length vs" and "j \<le> length xs" and "k < length xs"
  shows "set_slice xs i j vs ! k = (if i \<le> k \<and> k < j then vs ! (k - i) else xs ! k)"
  using assms by (auto simp: set_slice_def nth_append min_def)

lemma py_slice_set_slice_same:
  assumes "j = i + length vs" and "j \<le> length xs"
  shows "py_slice (set_slice xs i j vs) i j = vs"
  using assms by (simp add: set_slice_def py_slice_def)

lemma py_slice_set_slice_disjoint:
  assumes "j = i + length vs" and "j \<le> length xs" and "b \<le> i \<or> j \<le> a"
  shows "py_slice (set_slice xs i j vs) a b = py_slice xs a b"
proof (rule nth_equalityI)
  show len: "length (py_slice (set_slice xs i j vs) a b) = length (py_slice xs a b)"
    using assms by (simp add: length_py_slice)
  fix k assume "k < length (py_slice (set_slice xs i j vs) a b)"
  then have "k < min (length xs) b - a" using assms by (simp add: length_py_slice)
  then show "py_slice (set_slice xs i j vs) a b ! k = py_slice xs a b ! k"
    using assms by (auto simp: nth_py_slice nth_set_slice)
qed

lemma py_slice_within:
  assumes "b \<le> j - i"
  shows "py_slice (py_slice xs i j) a b = py_slice xs (i + a) (i + b)"
  using assms by (intro nth_equalityI) (auto simp: slice_simps add.assoc)

lemma py_slice_all [simp]: "length xs \<le> j \<Longrightarrow> py_slice xs 0 j = xs"
  by (simp add: py_slice_def)

lemma py_slice_append:
  assumes "i \<le> j" and "j \<le> k"
  shows "py_slice xs i j @ py_slice xs j k = py_slice xs i k"
proof -
  obtain d e where "j = i + d" and "k = i + d + e"
    using assms that[of "j - i" "k - j"] by simp
  then show ?thesis by (simp add: py_slice_def take_add add.commute)
qed

lemma set_slice_set_slice_same:
  assumes "j = i + length vs" and "j \<le> length xs" and "length ws = length vs"
  shows "set_slice (set_slice xs i j vs) i j ws = set_slice xs i j ws"
  using assms by (intro nth_equalityI) (auto simp: slice_simps)

lemma set_slice_py_slice_id:
  "i \<le> j \<Longrightarrow> j \<le> length xs \<Longrightarrow> set_slice xs i j (py_slice xs i j) = xs"
  by (rule nth_equalityI) (auto simp: nth_set_slice slice_simps)

lemma set_slice_restore:
  assumes "j = i + length vs" and "j \<le> n" and "n \<le> length xs" and "ws = py_slice xs i j"
  shows "set_slice (py_slice (set_slice xs i j vs) 0 n) i j ws = py_slice xs 0 n"
proof -
  have "length ws = length vs" using assms by (simp add: length_py_slice)
  then show ?thesis
    using assms by (intro nth_equalityI) (auto simp: nth_set_slice slice_simps)
qed

section \<open>Numerals and positional arithmetic\<close>

named_theorems ceil_simps \<open>Python's ceiling division \<open>-(-a // b)\<close>\<close>

text \<open>Python's \<^verbatim>\<open>-(-a // b)\<close>, the ceiling of a division.\<close>

definition ceil_div :: "int \<Rightarrow> int \<Rightarrow> int" where
  "ceil_div a b = - ((- a) div b)"

lemma ceil_div_bounds:
  assumes "0 < b"
  shows "a \<le> b * ceil_div a b" and "b * ceil_div a b < a + b"
proof -
  have "b * ((- a) div b) + (- a) mod b = - a" by (rule mult_div_mod_eq)
  moreover have "0 \<le> (- a) mod b" and "(- a) mod b < b" using assms by simp_all
  ultimately show "a \<le> b * ceil_div a b" and "b * ceil_div a b < a + b"
    unfolding ceil_div_def mult_minus_right by linarith+
qed

lemma ceil_div_nonneg [ceil_simps]:
  assumes "0 < b" and "0 \<le> a"
  shows "0 \<le> ceil_div a b"
proof (rule ccontr)
  assume "\<not> 0 \<le> ceil_div a b"
  with assms(1) have "b * ceil_div a b < 0" by (simp add: mult_pos_neg)
  with ceil_div_bounds(1)[OF assms(1), of a] assms(2) show False by linarith
qed

end
