(* ===== verification/PyStruct.thy ===== *)
theory PyStruct
  imports Prelude
begin

text \<open>
  The parts of Python's standard library that the disk, package, archive and image
  tools are written with: \<^verbatim>\<open>bytes\<close> and \<^verbatim>\<open>bytearray\<close> as lists of 8-bit words, the integer
  formats of \<^verbatim>\<open>struct\<close> in both byte orders, \<^verbatim>\<open>int.from_bytes\<close>, and \<^verbatim>\<open>zlib.crc32\<close>.
\<close>

unbundle bit_operations_syntax

type_synonym byte = "8 word"
type_synonym bytes = "byte list"

section \<open>Integers as bytes\<close>

primrec le_bytes :: "nat \<Rightarrow> nat \<Rightarrow> bytes" where
  "le_bytes 0 v = []"
| "le_bytes (Suc n) v = of_nat (v mod 256) # le_bytes n (v div 256)"

fun le_val :: "bytes \<Rightarrow> nat" where
  "le_val [] = 0"
| "le_val (b # bs) = unat b + 256 * le_val bs"

definition be_bytes :: "nat \<Rightarrow> nat \<Rightarrow> bytes" where
  "be_bytes n v = rev (le_bytes n v)"

definition be_val :: "bytes \<Rightarrow> nat" where
  "be_val bs = le_val (rev bs)"

lemma length_le_bytes [simp]: "length (le_bytes n v) = n"
  by (induction n arbitrary: v) auto

lemma length_be_bytes [simp]: "length (be_bytes n v) = n"
  by (simp add: be_bytes_def)

lemma unat_byte_less [simp]: "unat (b :: byte) < 256"
  using unsigned_less[of b, where ?'a = nat] by simp

lemma unat_of_nat_byte [simp]: "unat (of_nat (v mod 256) :: byte) = v mod 256"
  by (simp add: unat_of_nat)

lemma le_val_le_bytes_mod: "le_val (le_bytes n v) = v mod 256 ^ n"
proof (induction n arbitrary: v)
  case 0
  then show ?case by simp
next
  case (Suc n)
  then show ?case by (simp add: mod_mult2_eq)
qed

lemma le_val_le_bytes [simp]: "v < 256 ^ n \<Longrightarrow> le_val (le_bytes n v) = v"
  by (simp add: le_val_le_bytes_mod)

lemma be_val_be_bytes [simp]: "v < 256 ^ n \<Longrightarrow> be_val (be_bytes n v) = v"
  by (simp add: be_bytes_def be_val_def)

lemma le_val_bound: "le_val bs < 256 ^ length bs"
proof (induction bs)
  case Nil
  then show ?case by simp
next
  case (Cons b bs)
  have "unat b < 256" by (rule unat_byte_less)
  with Cons have "unat b + 256 * le_val bs < 256 * 256 ^ length bs" by linarith
  then show ?case by simp
qed

lemma le_bytes_le_val: "le_bytes (length bs) (le_val bs) = bs"
proof (induction bs)
  case Nil
  then show ?case by simp
next
  case (Cons b bs)
  have b: "unat b < 256" by (rule unat_byte_less)
  then have "(unat b + 256 * le_val bs) mod 256 = unat b"
    and "(unat b + 256 * le_val bs) div 256 = le_val bs" by simp_all
  with Cons show ?case by simp
qed

lemma be_bytesI: "n = length bs \<Longrightarrow> v = be_val bs \<Longrightarrow> be_bytes n v = bs"
  using le_bytes_le_val[of "rev bs"] by (simp add: be_bytes_def be_val_def)

lemma le_bytes_inj: "u < 256 ^ n \<Longrightarrow> v < 256 ^ n \<Longrightarrow> le_bytes n u = le_bytes n v \<Longrightarrow> u = v"
  by (metis le_val_le_bytes)

lemma le_bytes_0: "le_bytes n 0 = replicate n 0"
  by (induction n) auto

lemma le_bytes_add: "le_bytes (m + n) v = le_bytes m v @ le_bytes n (v div 256 ^ m)"
  by (induction m arbitrary: v) (auto simp: div_mult2_eq)

section \<open>struct.pack and struct.unpack\<close>

text \<open>
  One integer field of \<open>n\<close> bytes.  \<^verbatim>\<open>struct.pack\<close> raises \<^verbatim>\<open>struct.error\<close> when the value
  does not fit the unsigned format; \<^verbatim>\<open>pack_into\<close> and \<^verbatim>\<open>unpack_from\<close> raise it as well when
  the buffer ends before the field does.  A format of several fields is a sequence of
  such steps.
\<close>

definition pack_le :: "nat \<Rightarrow> int \<Rightarrow> bytes result" where
  "pack_le n v = (if 0 \<le> v \<and> v < 256 ^ n then Inr (le_bytes n (nat v)) else Inl StructError)"

definition pack_be :: "nat \<Rightarrow> int \<Rightarrow> bytes result" where
  "pack_be n v = (if 0 \<le> v \<and> v < 256 ^ n then Inr (be_bytes n (nat v)) else Inl StructError)"

definition pack_into :: "nat \<Rightarrow> bytes \<Rightarrow> nat \<Rightarrow> int \<Rightarrow> bytes result" where
  "pack_into n buf off v =
     bindE (pack_le n v) (\<lambda>bs.
       if off + n \<le> length buf then Inr (set_slice buf off (off + n) bs) else Inl StructError)"

definition unpack_from :: "nat \<Rightarrow> bytes \<Rightarrow> nat \<Rightarrow> nat result" where
  "unpack_from n buf off =
     (if off + n \<le> length buf then Inr (le_val (py_slice buf off (off + n))) else Inl StructError)"

named_theorems struct_simps \<open>struct.pack and struct.unpack on values in range\<close>

lemma pack_le_ok [struct_simps]: "0 \<le> v \<Longrightarrow> v < 256 ^ n \<Longrightarrow> pack_le n v = Inr (le_bytes n (nat v))"
  by (simp add: pack_le_def)

lemma pack_be_ok [struct_simps]: "0 \<le> v \<Longrightarrow> v < 256 ^ n \<Longrightarrow> pack_be n v = Inr (be_bytes n (nat v))"
  by (simp add: pack_be_def)

lemma pack_into_ok [struct_simps]:
  "0 \<le> v \<Longrightarrow> v < 256 ^ n \<Longrightarrow> off + n \<le> length buf \<Longrightarrow>
     pack_into n buf off v = Inr (set_slice buf off (off + n) (le_bytes n (nat v)))"
  by (simp add: pack_into_def pack_le_def)

lemma pack_into_length: "pack_into n buf off v = Inr buf' \<Longrightarrow> length buf' = length buf"
  by (auto simp: pack_into_def pack_le_def bindE_eq_Inr_iff split: if_splits)

lemma unpack_from_ok [struct_simps]:
  "off + n \<le> length buf \<Longrightarrow> unpack_from n buf off = Inr (le_val (py_slice buf off (off + n)))"
  by (simp add: unpack_from_def)

lemma unpack_pack_into:
  assumes "pack_into n buf off v = Inr buf'"
  shows "unpack_from n buf' off = Inr (nat v)"
proof -
  from assms have v: "0 \<le> v" "v < 256 ^ n" and off: "off + n \<le> length buf"
    and buf': "buf' = set_slice buf off (off + n) (le_bytes n (nat v))"
    by (auto simp: pack_into_def pack_le_def bindE_eq_Inr_iff split: if_splits)
  from v have "nat v < 256 ^ n" by (simp add: nat_less_iff)
  with off show ?thesis by (simp add: buf' unpack_from_def py_slice_set_slice_same)
qed

lemma unpack_pack_into_other:
  assumes "pack_into n buf off v = Inr buf'" and "p + m \<le> off \<or> off + n \<le> p"
  shows "unpack_from m buf' p = unpack_from m buf p"
  using assms
  by (auto simp: pack_into_def pack_le_def bindE_eq_Inr_iff unpack_from_def
      py_slice_set_slice_disjoint split: if_splits)

section \<open>Buffers filled field by field\<close>

text \<open>
  A buffer after a sequence of writes, each the bytes put at an offset.  When every
  write fits, the length is kept; a field is read back as written when no later write
  overlaps it, and a region no write touches keeps its bytes.
\<close>

definition put_all :: "'a list \<Rightarrow> (nat \<times> 'a list) list \<Rightarrow> 'a list" where
  "put_all z ws = foldl (\<lambda>buf (off, bs). set_slice buf off (off + length bs) bs) z ws"

definition fits :: "nat \<Rightarrow> (nat \<times> 'a list) list \<Rightarrow> bool" where
  "fits n ws \<longleftrightarrow> list_all (\<lambda>(off, bs). off + length bs \<le> n) ws"

definition apart :: "nat \<Rightarrow> nat \<Rightarrow> (nat \<times> 'a list) list \<Rightarrow> bool" where
  "apart a b ws \<longleftrightarrow> list_all (\<lambda>(off, bs). b \<le> off \<or> off + length bs \<le> a) ws"

named_theorems put_simps \<open>buffers filled field by field\<close>

lemma fits_simps [put_simps]:
  "fits n []" "fits n ((off, bs) # ws) \<longleftrightarrow> off + length bs \<le> n \<and> fits n ws"
  "fits n (us @ vs) \<longleftrightarrow> fits n us \<and> fits n vs"
  by (simp_all add: fits_def)

lemma apart_simps [put_simps]:
  "apart a b []"
  "apart a b ((off, bs) # ws) \<longleftrightarrow> (b \<le> off \<or> off + length bs \<le> a) \<and> apart a b ws"
  "apart a b (us @ vs) \<longleftrightarrow> apart a b us \<and> apart a b vs"
  by (simp_all add: apart_def)

lemma put_all_Nil: "put_all z [] = z"
  by (simp add: put_all_def)

lemma put_all_snoc: "put_all z (ws @ [(off, bs)]) = set_slice (put_all z ws) off (off + length bs) bs"
  by (simp add: put_all_def)

lemma length_put_all: "fits (length z) ws \<Longrightarrow> length (put_all z ws) = length z"
  by (induction ws rule: rev_induct) (auto simp: put_all_Nil put_all_snoc put_simps)

lemma put_all_apart: "fits (length z) ws \<Longrightarrow> apart a b ws \<Longrightarrow> py_slice (put_all z ws) a b = py_slice z a b"
proof (induction ws rule: rev_induct)
  case Nil
  then show ?case by (simp add: put_all_Nil)
next
  case (snoc w ws)
  obtain off bs where w: "w = (off, bs)" by (cases w)
  from snoc w show ?case
    by (simp add: put_all_snoc put_simps length_put_all py_slice_set_slice_disjoint)
qed

lemma put_all_append: "put_all z (us @ vs) = put_all (put_all z us) vs"
  by (simp add: put_all_def)

lemma put_all_field:
  assumes "fits (length z) (us @ (off, bs) # vs)" and "apart off (off + length bs) vs"
  shows "py_slice (put_all z (us @ (off, bs) # vs)) off (off + length bs) = bs"
proof -
  let ?z = "put_all z (us @ [(off, bs)])"
  have len: "length ?z = length z" and "length (put_all z us) = length z"
    using assms(1) by (auto intro!: length_put_all simp: put_simps)
  then have "py_slice ?z off (off + length bs) = bs"
    using assms(1) by (simp add: put_all_snoc py_slice_set_slice_same put_simps)
  moreover have "put_all z (us @ (off, bs) # vs) = put_all ?z vs"
    by (simp flip: put_all_append)
  moreover have "fits (length ?z) vs" using assms(1) len by (simp add: put_simps)
  ultimately show ?thesis using assms(2) by (simp add: put_all_apart)
qed

lemma put_all_lookup:
  assumes "fits (length z) ws" and "k < length ws" and "ws ! k = (off, bs)"
    and "j = off + length bs" and "apart off j (drop (Suc k) ws)"
  shows "py_slice (put_all z ws) off j = bs"
proof -
  have eq: "take k ws @ (off, bs) # drop (Suc k) ws = ws"
    using id_take_nth_drop[OF assms(2)] assms(3) by simp
  show ?thesis
    using put_all_field[of z "take k ws" off bs "drop (Suc k) ws"] assms(1,4,5) unfolding eq by simp
qed

lemma pack_into_put_all:
  assumes "fits (length z) ws" and "0 \<le> v" and "v < 256 ^ n" and "off + n \<le> length z"
  shows "pack_into n (put_all z ws) off v = Inr (put_all z (ws @ [(off, le_bytes n (nat v))]))"
  using assms by (simp add: pack_into_ok length_put_all put_all_snoc)

lemma set_slice_put_all:
  "j = off + length bs \<Longrightarrow> set_slice (put_all z ws) off j bs = put_all z (ws @ [(off, bs)])"
  by (simp add: put_all_snoc)

section \<open>zlib.crc32\<close>

text \<open>
  CRC-32 as zlib documents it: the reflected polynomial \<open>0xEDB88320\<close>, register and
  result complemented, one bit at a time.
\<close>

definition crc_bit :: "32 word \<Rightarrow> 32 word" where
  "crc_bit c = (if bit c 0 then (drop_bit 1 c) XOR 0xEDB88320 else drop_bit 1 c)"

definition crc_feed :: "32 word \<Rightarrow> byte \<Rightarrow> 32 word" where
  "crc_feed c b = (crc_bit ^^ 8) (c XOR ucast b)"

definition crc32 :: "bytes \<Rightarrow> 32 word" where
  "crc32 bs = NOT (foldl crc_feed (NOT 0) bs)"

lemma crc32_append: "crc32 (xs @ ys) = NOT (foldl crc_feed (NOT (crc32 xs)) ys)"
  by (simp add: crc32_def)

end
