(* ===== verification/PyText.thy ===== *)
theory PyText
  imports PyStruct
begin

text \<open>
  Python text as \<^typ>\<open>string\<close>, one \<^typ>\<open>char\<close> per code point below 256: numbers printed and
  read in a base, \<^verbatim>\<open>str.split\<close> and \<^verbatim>\<open>str.join\<close> on a one-character separator, padding and
  the conversion of ASCII text to bytes.
\<close>

section \<open>Digits\<close>

definition digit_char :: "nat \<Rightarrow> char" where
  "digit_char d = char_of (if d < 10 then 48 + d else 87 + d)"

definition digit_char_upper :: "nat \<Rightarrow> char" where
  "digit_char_upper d = char_of (if d < 10 then 48 + d else 55 + d)"

definition digit_val :: "char \<Rightarrow> nat option" where
  "digit_val c = (let k = of_char c :: nat in
     if 48 \<le> k \<and> k \<le> 57 then Some (k - 48)
     else if 97 \<le> k \<and> k \<le> 122 then Some (k - 87)
     else if 65 \<le> k \<and> k \<le> 90 then Some (k - 55)
     else None)"

text \<open>The digits of a number, most significant first, at least one of them.\<close>

function to_base :: "nat \<Rightarrow> nat \<Rightarrow> nat list" where
  "to_base b n = (if n < b \<or> b < 2 then [n] else to_base b (n div b) @ [n mod b])"
  by pat_completeness auto
termination
proof (relation "measure snd", goal_cases)
  case 1
  then show ?case by simp
next
  case (2 b n)
  then have "n div b < n" by (intro div_less_dividend) auto
  then show ?case by simp
qed

declare to_base.simps [simp del]

definition of_base :: "nat \<Rightarrow> nat list \<Rightarrow> nat" where
  "of_base b ds = foldl (\<lambda>a d. a * b + d) 0 ds"

lemma of_base_snoc [simp]: "of_base b (ds @ [d]) = of_base b ds * b + d"
  by (simp add: of_base_def)

lemma of_base_Nil [simp]: "of_base b [] = 0"
  by (simp add: of_base_def)

lemma to_base_nonempty [simp]: "to_base b n \<noteq> []"
  by (subst to_base.simps) simp

lemma of_base_to_base: "2 \<le> b \<Longrightarrow> of_base b (to_base b n) = n"
proof (induction b n rule: to_base.induct)
  case (1 b n)
  show ?case
  proof (cases "n < b \<or> b < 2")
    case True
    then show ?thesis by (simp add: to_base.simps[of b n] of_base_def)
  next
    case False
    with 1 show ?thesis by (simp add: to_base.simps[of b n])
  qed
qed

lemma to_base_digits: "2 \<le> b \<Longrightarrow> d \<in> set (to_base b n) \<Longrightarrow> d < b"
proof (induction b n rule: to_base.induct)
  case (1 b n)
  show ?case
  proof (cases "n < b \<or> b < 2")
    case True
    with 1 show ?thesis by (simp add: to_base.simps[of b n])
  next
    case False
    with 1 show ?thesis by (auto simp: to_base.simps[of b n])
  qed
qed

lemma to_base_length_le: "2 \<le> b \<Longrightarrow> n < b ^ k \<Longrightarrow> 0 < k \<Longrightarrow> length (to_base b n) \<le> k"
proof (induction b n arbitrary: k rule: to_base.induct)
  case (1 b n)
  show ?case
  proof (cases "n < b \<or> b < 2")
    case True
    with 1 show ?thesis by (simp add: to_base.simps[of b n])
  next
    case False
    then obtain k' where k: "k = Suc k'" and "0 < k'"
      using 1 by (cases k; cases "k - 1") auto
    have "n div b < b ^ k'" using 1 k False by (simp add: less_mult_imp_div_less mult.commute)
    with 1 False k \<open>0 < k'\<close> have "length (to_base b (n div b)) \<le> k'" by blast
    with False k show ?thesis by (simp add: to_base.simps[of b n])
  qed
qed

lemma to_base_leading:
  "2 \<le> b \<Longrightarrow> 0 < n \<Longrightarrow> hd (to_base b n) \<noteq> 0"
proof (induction b n rule: to_base.induct)
  case (1 b n)
  show ?case
  proof (cases "n < b \<or> b < 2")
    case True
    with 1 show ?thesis by (simp add: to_base.simps[of b n])
  next
    case False
    with 1 have "0 < n div b" by (auto simp: div_greater_zero_iff)
    with 1 False show ?thesis by (simp add: to_base.simps[of b n] hd_append)
  qed
qed

lemma digit_val_digit_char: "d < 36 \<Longrightarrow> digit_val (digit_char d) = Some d"
  by (auto simp: digit_val_def digit_char_def Let_def)

lemma digit_val_digit_char_upper: "d < 36 \<Longrightarrow> digit_val (digit_char_upper d) = Some d"
  by (auto simp: digit_val_def digit_char_upper_def Let_def)

section \<open>Printing and reading numbers\<close>

definition show_base :: "nat \<Rightarrow> nat \<Rightarrow> string" where
  "show_base b n = map digit_char (to_base b n)"

definition show_base_upper :: "nat \<Rightarrow> nat \<Rightarrow> string" where
  "show_base_upper b n = map digit_char_upper (to_base b n)"

text \<open>\<^verbatim>\<open>str(n)\<close> for an integer.\<close>

definition str_int :: "int \<Rightarrow> string" where
  "str_int n = (if n < 0 then ''-'' @ show_base 10 (nat (- n)) else show_base 10 (nat n))"

text \<open>Zero padding to a minimum width, as in the formats \<^verbatim>\<open>%032x\<close> and \<^verbatim>\<open>:08X\<close>.\<close>

definition zpad :: "nat \<Rightarrow> string \<Rightarrow> string" where
  "zpad w s = replicate (w - length s) CHR ''0'' @ s"

text \<open>The digits of a text in a base; \<open>None\<close> if it is empty or holds another character.\<close>

definition digits_of :: "nat \<Rightarrow> string \<Rightarrow> nat list option" where
  "digits_of b s = those (map (\<lambda>c. case digit_val c of Some d \<Rightarrow> if d < b then Some d else None | None \<Rightarrow> None) s)"

definition parse_base :: "nat \<Rightarrow> string \<Rightarrow> nat option" where
  "parse_base b s = (if s = [] then None else map_option (of_base b) (digits_of b s))"

lemma those_map_Some: "(\<And>x. x \<in> set xs \<Longrightarrow> f x = Some (g x)) \<Longrightarrow> those (map f xs) = Some (map g xs)"
  by (induction xs) auto

lemma those_Some_length: "those xs = Some ys \<Longrightarrow> length ys = length xs"
  by (induction xs arbitrary: ys) (auto split: option.splits)

lemma digits_of_show: "2 \<le> b \<Longrightarrow> b \<le> 36 \<Longrightarrow> digits_of b (show_base b n) = Some (to_base b n)"
  unfolding digits_of_def show_base_def map_map
  by (subst those_map_Some[where g = id])
     (auto simp: digit_val_digit_char dest: to_base_digits[of b _ n])

lemma digits_of_show_upper:
  "2 \<le> b \<Longrightarrow> b \<le> 36 \<Longrightarrow> digits_of b (show_base_upper b n) = Some (to_base b n)"
  unfolding digits_of_def show_base_upper_def map_map
  by (subst those_map_Some[where g = id])
     (auto simp: digit_val_digit_char_upper dest: to_base_digits[of b _ n])

lemma show_base_nonempty [simp]: "show_base b n \<noteq> []" "show_base_upper b n \<noteq> []"
  by (simp_all add: show_base_def show_base_upper_def)

lemma parse_show_base: "2 \<le> b \<Longrightarrow> b \<le> 36 \<Longrightarrow> parse_base b (show_base b n) = Some n"
  by (simp add: parse_base_def digits_of_show of_base_to_base)

lemma parse_show_base_upper: "2 \<le> b \<Longrightarrow> b \<le> 36 \<Longrightarrow> parse_base b (show_base_upper b n) = Some n"
  by (simp add: parse_base_def digits_of_show_upper of_base_to_base)

lemma those_append:
  "those (xs @ ys) = (case those xs of None \<Rightarrow> None | Some as \<Rightarrow> map_option ((@) as) (those ys))"
proof (induction xs)
  case Nil
  then show ?case by (cases "those ys") auto
next
  case (Cons x xs)
  then show ?case by (cases "those ys") (auto split: option.splits)
qed

lemma digits_of_append:
  "digits_of b (s @ t) = (case digits_of b s of None \<Rightarrow> None | Some as \<Rightarrow> map_option ((@) as) (digits_of b t))"
  unfolding digits_of_def map_append by (rule those_append)

lemma digits_of_zeros: "0 < b \<Longrightarrow> digits_of b (replicate k CHR ''0'') = Some (replicate k 0)"
  by (simp add: digits_of_def map_replicate_const those_map_Some digit_val_def)
     (induction k, auto)

lemma of_base_zeros: "of_base b (replicate k 0 @ ds) = of_base b ds"
  by (induction k) (auto simp: of_base_def)

lemma parse_zpad: "0 < b \<Longrightarrow> s \<noteq> [] \<Longrightarrow> parse_base b (zpad w s) = parse_base b s"
  by (auto simp: parse_base_def zpad_def digits_of_append digits_of_zeros of_base_zeros
      option.map_comp comp_def)

lemma length_zpad: "length (zpad w s) = max w (length s)"
  by (simp add: zpad_def)

lemma length_show_base_le:
  "2 \<le> b \<Longrightarrow> n < b ^ k \<Longrightarrow> 0 < k \<Longrightarrow> length (show_base b n) \<le> k"
  "2 \<le> b \<Longrightarrow> n < b ^ k \<Longrightarrow> 0 < k \<Longrightarrow> length (show_base_upper b n) \<le> k"
  by (simp_all add: show_base_def show_base_upper_def to_base_length_le)

lemma digit_char_lits:
  "digit_char 0 = CHR ''0''" "digit_char 1 = CHR ''1''" "digit_char (Suc 0) = CHR ''1''" "digit_char 2 = CHR ''2''" "digit_char 3 = CHR ''3''"
  "digit_char 4 = CHR ''4''" "digit_char 5 = CHR ''5''" "digit_char 6 = CHR ''6''" "digit_char 7 = CHR ''7''"
  "digit_char 8 = CHR ''8''" "digit_char 9 = CHR ''9''" "digit_char 10 = CHR ''a''" "digit_char 11 = CHR ''b''"
  "digit_char 12 = CHR ''c''" "digit_char 13 = CHR ''d''" "digit_char 14 = CHR ''e''" "digit_char 15 = CHR ''f''"
  by code_simp+

text \<open>Printing a numeral, by rewriting.\<close>

lemmas show_base_lits = show_base_def to_base.simps digit_char_lits

text \<open>Reading a numeral, by rewriting.\<close>

lemmas parse_base_lits = parse_base_def digits_of_def digit_val_def of_base_def

section \<open>split and join\<close>

fun py_split :: "'a \<Rightarrow> 'a list \<Rightarrow> 'a list list" where
  "py_split c [] = [[]]"
| "py_split c (x # xs) =
     (if x = c then [] # py_split c xs
      else case py_split c xs of [] \<Rightarrow> [[x]] | p # ps \<Rightarrow> (x # p) # ps)"

fun py_join :: "'a list \<Rightarrow> 'a list list \<Rightarrow> 'a list" where
  "py_join sep [] = []"
| "py_join sep [p] = p"
| "py_join sep (p # q # ps) = p @ sep @ py_join sep (q # ps)"

lemma py_split_nonempty [simp]: "py_split c xs \<noteq> []"
  by (cases xs) (auto split: list.splits)

lemma py_split_no_sep: "c \<notin> set p \<Longrightarrow> py_split c p = [p]"
  by (induction p) auto

lemma py_split_append_sep: "c \<notin> set p \<Longrightarrow> py_split c (p @ c # xs) = p # py_split c xs"
  by (induction p) auto

lemma py_split_join:
  "ps \<noteq> [] \<Longrightarrow> (\<And>p. p \<in> set ps \<Longrightarrow> c \<notin> set p) \<Longrightarrow> py_split c (py_join [c] ps) = ps"
proof (induction "[c]" ps rule: py_join.induct)
  case (3 p q ps)
  then show ?case by (simp add: py_split_append_sep)
qed (auto simp: py_split_no_sep)

lemma py_join_split: "py_join [c] (py_split c xs) = xs"
proof (induction xs)
  case Nil
  then show ?case by simp
next
  case (Cons x xs)
  obtain p ps where "py_split c xs = p # ps" by (cases "py_split c xs") auto
  with Cons show ?case by (cases ps) auto
qed

lemma py_split_parts: "p \<in> set (py_split c xs) \<Longrightarrow> c \<notin> set p"
proof (induction xs arbitrary: p)
  case Nil
  then show ?case by simp
next
  case (Cons x xs)
  obtain q qs where q: "py_split c xs = q # qs" by (cases "py_split c xs") auto
  have "c \<notin> set q" and "r \<in> set qs \<Longrightarrow> c \<notin> set r" for r
    using Cons.IH q by auto
  with Cons.prems q show ?case by (auto split: if_splits)
qed

lemma length_py_split: "length (py_split c xs) = Suc (count_list xs c)"
proof (induction xs)
  case Nil
  then show ?case by simp
next
  case (Cons x xs)
  then show ?case by (cases "py_split c xs") auto
qed

section \<open>ASCII text as bytes\<close>

definition ascii :: "string \<Rightarrow> bytes" where
  "ascii s = map (\<lambda>c. of_nat (of_char c)) s"

definition unascii :: "bytes \<Rightarrow> string" where
  "unascii bs = map (\<lambda>b. char_of (unat b)) bs"

lemma unascii_ascii [simp]: "unascii (ascii s) = s"
  by (induction s) (auto simp: ascii_def unascii_def unat_of_nat)

lemma ascii_unascii [simp]: "ascii (unascii bs) = bs"
  by (induction bs) (auto simp: ascii_def unascii_def)

lemma length_ascii [simp]: "length (ascii s) = length s"
  by (simp add: ascii_def)

lemma ascii_append [simp]: "ascii (s @ t) = ascii s @ ascii t"
  by (simp add: ascii_def)

lemma ascii_inject [simp]: "ascii s = ascii t \<longleftrightarrow> s = t"
  by (metis unascii_ascii)

end
