(* ===== verification/Uuid.thy ===== *)
theory Uuid
  imports PyText
begin

text \<open>
  The class \<^verbatim>\<open>UUID\<close> of the shipped \<^verbatim>\<open>uuid.py\<close>: its constructor from the five kinds of
  argument, the variant and version bits it sets, and the properties that read the
  128-bit value back as bytes, little-endian bytes, fields and text.  A \<^verbatim>\<open>UUID\<close> object
  is its \<^verbatim>\<open>int\<close> attribute; \<^verbatim>\<open>is_safe\<close> takes no part in any of them.
\<close>

section \<open>The constructor\<close>

text \<open>Exactly one of the arguments is given; the model's argument is that one.\<close>

datatype uuid_arg =
    UHex string
  | UBytes bytes
  | UBytesLe bytes
  | UFields int int int int int int
  | UInt int

text \<open>
  \<^verbatim>\<open>str.replace(old, '')\<close>: occurrences are removed from left to right without overlap.
\<close>

function str_remove :: "string \<Rightarrow> string \<Rightarrow> string" where
  "str_remove pat s =
     (if pat = [] \<or> s = [] then s
      else if take (length pat) s = pat then str_remove pat (drop (length pat) s)
      else hd s # str_remove pat (tl s))"
  by pat_completeness auto
termination
  by (relation "measure (\<lambda>(pat, s). length s)") (auto simp: neq_Nil_conv)

declare str_remove.simps [simp del]

text \<open>\<^verbatim>\<open>str.strip(chars)\<close>.\<close>

definition strip_chars :: "char set \<Rightarrow> string \<Rightarrow> string" where
  "strip_chars cs s = rev (dropWhile (\<lambda>c. c \<in> cs) (rev (dropWhile (\<lambda>c. c \<in> cs) s)))"

text \<open>
  \<^verbatim>\<open>int(text, 16)\<close>: surrounding white space (here of code points below 256), a sign, the prefix \<^verbatim>\<open>0x\<close> and single
  underscores between digits are all accepted.
\<close>

definition is_space :: "char \<Rightarrow> bool" where
  "is_space c = (let k = of_char c :: nat in (9 \<le> k \<and> k \<le> 13) \<or> k = 32 \<or> k = 133 \<or> k = 160)"

fun drop_underscores :: "bool \<Rightarrow> string \<Rightarrow> string option" where
  "drop_underscores prev [] = (if prev then Some [] else None)"
| "drop_underscores prev (c # cs) =
     (if c = CHR ''_'' then (if prev then drop_underscores False cs else None)
      else map_option ((#) c) (drop_underscores True cs))"

definition py_int16 :: "string \<Rightarrow> int result" where
  "py_int16 s =
     (let t = rev (dropWhile is_space (rev (dropWhile is_space s)));
          neg = (take 1 t = ''-'');
          u = (if neg \<or> take 1 t = ''+'' then drop 1 t else t);
          pre = (take 2 u = ''0x'' \<or> take 2 u = ''0X'');
          v = (if pre then drop 2 u else u);
          w = (if pre \<and> take 1 v = ''_'' then drop 1 v else v)
      in case Option.bind (drop_underscores False w) (parse_base 16) of
           None \<Rightarrow> Inl ValueError
         | Some n \<Rightarrow> Inr (if neg then - int n else int n))"

text \<open>\<^verbatim>\<open>bytes[4-1::-1] + bytes[6-1:4-1:-1] + bytes[8-1:6-1:-1] + bytes[8:]\<close>\<close>

definition swap_le :: "bytes \<Rightarrow> bytes" where
  "swap_le bs = rev (py_slice bs 0 4) @ rev (py_slice bs 4 6) @ rev (py_slice bs 6 8) @ drop 8 bs"

definition uuid_hex_int :: "string \<Rightarrow> int result" where
  "uuid_hex_int s0 =
     (let s1 = str_remove ''uuid:'' (str_remove ''urn:'' s0);
          h = str_remove ''-'' (strip_chars {CHR ''{'', CHR ''}''} s1)
      in if length h \<noteq> 32 then Inl ValueError else py_int16 h)"

definition uuid_bytes_int :: "bytes \<Rightarrow> int result" where
  "uuid_bytes_int bs = (if length bs \<noteq> 16 then Inl ValueError else Inr (int (be_val bs)))"

definition in_width :: "nat \<Rightarrow> int \<Rightarrow> bool" where
  "in_width w v \<longleftrightarrow> 0 \<le> v \<and> v < 2 ^ w"

definition uuid_fields_int :: "int \<Rightarrow> int \<Rightarrow> int \<Rightarrow> int \<Rightarrow> int \<Rightarrow> int \<Rightarrow> int result" where
  "uuid_fields_int time_low time_mid time_hi_version clock_seq_hi_variant clock_seq_low node =
     (if \<not> in_width 32 time_low then Inl ValueError
      else if \<not> in_width 16 time_mid then Inl ValueError
      else if \<not> in_width 16 time_hi_version then Inl ValueError
      else if \<not> in_width 8 clock_seq_hi_variant then Inl ValueError
      else if \<not> in_width 8 clock_seq_low then Inl ValueError
      else if \<not> in_width 48 node then Inl ValueError
      else (let clock_seq = (push_bit 8 clock_seq_hi_variant) OR clock_seq_low
            in Inr ((push_bit 96 time_low) OR (push_bit 80 time_mid) OR
                    (push_bit 64 time_hi_version) OR (push_bit 48 clock_seq) OR node)))"

text \<open>The variant is set to RFC 4122 and the version number stored in its four bits.\<close>

definition set_version :: "int \<Rightarrow> int \<Rightarrow> int" where
  "set_version n version =
     (let n1 = n AND NOT (push_bit 48 0xc000);
          n2 = n1 OR (push_bit 48 0x8000);
          n3 = n2 AND NOT (push_bit 64 0xf000)
      in n3 OR (push_bit 76 version))"

definition uuid_new :: "uuid_arg \<Rightarrow> int option \<Rightarrow> int result" where
  "uuid_new arg version =
     bindE (case arg of
              UHex s \<Rightarrow> uuid_hex_int s
            | UBytesLe bs \<Rightarrow> (if length bs \<noteq> 16 then Inl ValueError else uuid_bytes_int (swap_le bs))
            | UBytes bs \<Rightarrow> uuid_bytes_int bs
            | UFields a b c d e f \<Rightarrow> uuid_fields_int a b c d e f
            | UInt n \<Rightarrow> Inr n)
       (\<lambda>n. if \<not> (0 \<le> n \<and> n < 2 ^ 128) then Inl ValueError
             else case version of
               None \<Rightarrow> Inr n
             | Some v \<Rightarrow> if \<not> (1 \<le> v \<and> v \<le> 5) then Inl ValueError else Inr (set_version n v))"

section \<open>The properties\<close>

definition uuid_bytes :: "int \<Rightarrow> bytes" where
  "uuid_bytes n = be_bytes 16 (nat n)"

definition uuid_bytes_le :: "int \<Rightarrow> bytes" where
  "uuid_bytes_le n = swap_le (uuid_bytes n)"

definition time_low :: "int \<Rightarrow> int" where
  "time_low n = drop_bit 96 n"

definition time_mid :: "int \<Rightarrow> int" where
  "time_mid n = drop_bit 80 n AND 0xffff"

definition time_hi_version :: "int \<Rightarrow> int" where
  "time_hi_version n = drop_bit 64 n AND 0xffff"

definition clock_seq_hi_variant :: "int \<Rightarrow> int" where
  "clock_seq_hi_variant n = drop_bit 56 n AND 0xff"

definition clock_seq_low :: "int \<Rightarrow> int" where
  "clock_seq_low n = drop_bit 48 n AND 0xff"

definition uuid_time :: "int \<Rightarrow> int" where
  "uuid_time n = (push_bit 48 (time_hi_version n AND 0x0fff)) OR (push_bit 32 (time_mid n)) OR time_low n"

definition clock_seq :: "int \<Rightarrow> int" where
  "clock_seq n = (push_bit 8 (clock_seq_hi_variant n AND 0x3f)) OR clock_seq_low n"

definition uuid_node :: "int \<Rightarrow> int" where
  "uuid_node n = n AND 0xffffffffffff"

definition uuid_hex :: "int \<Rightarrow> string" where
  "uuid_hex n = zpad 32 (show_base 16 (nat n))"

definition uuid_str :: "int \<Rightarrow> string" where
  "uuid_str n = (let h = uuid_hex n in
     py_slice h 0 8 @ ''-'' @ py_slice h 8 12 @ ''-'' @ py_slice h 12 16 @ ''-'' @
     py_slice h 16 20 @ ''-'' @ drop 20 h)"

definition uuid_urn :: "int \<Rightarrow> string" where
  "uuid_urn n = ''urn:uuid:'' @ uuid_str n"

datatype uuid_variant = RESERVED_NCS | RFC_4122 | RESERVED_MICROSOFT | RESERVED_FUTURE

definition variant :: "int \<Rightarrow> uuid_variant" where
  "variant n =
     (if n AND (push_bit 48 0x8000) = 0 then RESERVED_NCS
      else if n AND (push_bit 48 0x4000) = 0 then RFC_4122
      else if n AND (push_bit 48 0x2000) = 0 then RESERVED_MICROSOFT
      else RESERVED_FUTURE)"

definition uuid_version :: "int \<Rightarrow> int option" where
  "uuid_version n = (if variant n = RFC_4122 then Some (drop_bit 76 n AND 0xf) else None)"


section \<open>Round trips\<close>

lemma swap_le_involution: "length bs = 16 \<Longrightarrow> swap_le (swap_le bs) = bs"
  by (auto simp: swap_le_def py_slice_def eval_nat_numeral length_Suc_conv)

lemma length_swap_le: "length bs = 16 \<Longrightarrow> length (swap_le bs) = 16"
  by (simp add: swap_le_def py_slice_def)

lemma uuid_new_bytes: "0 \<le> n \<Longrightarrow> n < 2 ^ 128 \<Longrightarrow> uuid_new (UBytes (uuid_bytes n)) None = Inr n"
  by (simp add: uuid_new_def uuid_bytes_int_def uuid_bytes_def nat_less_iff)

lemma uuid_new_bytes_le: "0 \<le> n \<Longrightarrow> n < 2 ^ 128 \<Longrightarrow> uuid_new (UBytesLe (uuid_bytes_le n)) None = Inr n"
  using uuid_new_bytes[of n]
  by (simp add: uuid_new_def uuid_bytes_le_def swap_le_involution length_swap_le uuid_bytes_def)

lemma masks: "(0xffff :: int) = mask 16" "(0xff :: int) = mask 8" "(0xffffffffffff :: int) = mask 48"
   "(0xf :: int) = mask 4"
  by (simp_all add: mask_eq_exp_minus_1)

lemma int_bit_bound: "0 \<le> n \<Longrightarrow> n < 2 ^ w \<Longrightarrow> w \<le> j \<Longrightarrow> \<not> bit (n :: int) j"
  by (metis bit_take_bit_iff linorder_not_le take_bit_int_eq_self)

lemma in_width_take_bit: "in_width w (take_bit w x)"
  by (simp add: in_width_def)

lemma in_width_drop_bit: "0 \<le> n \<Longrightarrow> n < 2 ^ (k + w) \<Longrightarrow> in_width w (drop_bit k n)"
  using in_width_take_bit[of w "drop_bit k n"]
  by (metis drop_bit_take_bit add_diff_cancel_left' take_bit_int_eq_self)

lemmas field_defs = time_low_def time_mid_def time_hi_version_def
  clock_seq_hi_variant_def clock_seq_low_def uuid_node_def

lemma fields_widths:
  assumes "0 \<le> n" and "n < 2 ^ 128"
  shows "in_width 32 (time_low n)" "in_width 16 (time_mid n)" "in_width 16 (time_hi_version n)"
    "in_width 8 (clock_seq_hi_variant n)" "in_width 8 (clock_seq_low n)" "in_width 48 (uuid_node n)"
  using assms in_width_drop_bit[of n 96 32]
  by (simp_all add: field_defs masks in_width_take_bit flip: take_bit_eq_mask)

lemma fields_or:
  assumes "0 \<le> n" and "n < 2 ^ 128"
  shows "push_bit 96 (time_low n) OR push_bit 80 (time_mid n) OR push_bit 64 (time_hi_version n) OR
      push_bit 48 (push_bit 8 (clock_seq_hi_variant n) OR clock_seq_low n) OR uuid_node n = n"
    (is "?v = n")
proof (rule bit_eqI)
  fix j :: nat
  consider "j < 48" | "48 \<le> j" "j < 56" | "56 \<le> j" "j < 64" | "64 \<le> j" "j < 80"
    | "80 \<le> j" "j < 96" | "96 \<le> j" by linarith
  then show "bit ?v j = bit n j"
    by cases (auto simp: field_defs masks bit_or_iff bit_push_bit_iff bit_drop_bit_eq
        bit_take_bit_iff push_bit_or simp flip: take_bit_eq_mask)
qed

lemma uuid_fields_int_fields:
  assumes "0 \<le> n" and "n < 2 ^ 128"
  shows "uuid_fields_int (time_low n) (time_mid n) (time_hi_version n)
           (clock_seq_hi_variant n) (clock_seq_low n) (uuid_node n) = Inr n"
  using fields_widths[OF assms] fields_or[OF assms] by (simp add: uuid_fields_int_def)


text \<open>Text: every character of \<^verbatim>\<open>'%032x' % int\<close> is a hexadecimal digit.\<close>

definition hex_char :: "char \<Rightarrow> bool" where
  "hex_char c \<longleftrightarrow> (\<exists>d < 16. digit_val c = Some d)"

lemma hex_char_uuid_hex: "c \<in> set (uuid_hex n) \<Longrightarrow> hex_char c"
  by (auto simp: uuid_hex_def zpad_def show_base_def hex_char_def digit_val_def
      dest!: to_base_digits[of 16, simplified]) (auto simp: digit_char_def Let_def)

lemma not_hex_char: "\<not> hex_char CHR ''-''" "\<not> hex_char CHR ''u''" "\<not> hex_char CHR ''{''"
  "\<not> hex_char CHR ''}''" "\<not> hex_char CHR ''_''" "\<not> hex_char CHR ''x''" "\<not> hex_char CHR ''X''"
  "\<not> hex_char CHR ''+''" "is_space c \<Longrightarrow> \<not> hex_char c"
  by (auto simp: hex_char_def digit_val_def is_space_def Let_def)

lemma length_uuid_hex: "0 \<le> n \<Longrightarrow> n < 2 ^ 128 \<Longrightarrow> length (uuid_hex n) = 32"
  using length_show_base_le(1)[of 16 "nat n" 32]
  by (simp add: uuid_hex_def length_zpad nat_less_iff)

lemma str_remove_absent: "pat \<noteq> [] \<Longrightarrow> hd pat \<notin> set s \<Longrightarrow> str_remove pat s = s"
proof (induction s)
  case Nil
  then show ?case by (simp add: str_remove.simps)
next
  case (Cons c s)
  then have "take (length pat) (c # s) \<noteq> pat" by (cases pat) auto
  with Cons show ?case by (simp add: str_remove.simps[of pat "c # s"])
qed

lemma str_remove_char: "str_remove [c] s = filter (\<lambda>x. x \<noteq> c) s"
  by (induction s) (auto simp: str_remove.simps[of "[c]" "[]"] str_remove.simps[of "[c]" "_ # _"])

lemma dropWhile_ends_absent:
  assumes "\<And>c. c \<in> set s \<Longrightarrow> \<not> P c"
  shows "rev (dropWhile P (rev (dropWhile P s))) = s"
proof -
  from assms have "dropWhile P s = s" by (auto simp: dropWhile_eq_self_iff)
  moreover from assms have "dropWhile P (rev s) = rev s"
    by (auto simp: dropWhile_eq_self_iff hd_rev)
  ultimately show ?thesis by simp
qed

lemma strip_chars_absent: "cs \<inter> set s = {} \<Longrightarrow> strip_chars cs s = s"
  unfolding strip_chars_def by (rule dropWhile_ends_absent) auto

lemma drop_underscores_absent: "CHR ''_'' \<notin> set s \<Longrightarrow> s \<noteq> [] \<or> b \<Longrightarrow> drop_underscores b s = Some s"
  by (induction s arbitrary: b) auto


lemma py_int16_hex:
  assumes "\<And>c. c \<in> set s \<Longrightarrow> hex_char c" and "s \<noteq> []"
  shows "py_int16 s = (case parse_base 16 s of None \<Rightarrow> Inl ValueError | Some k \<Rightarrow> Inr (int k))"
proof -
  have "rev (dropWhile is_space (rev (dropWhile is_space s))) = s"
    using assms(1) not_hex_char(9) by (intro dropWhile_ends_absent) blast
  moreover have "take 1 s \<noteq> ''-''" and "take 1 s \<noteq> ''+''"
    using assms not_hex_char by (cases s; fastforce)+
  moreover have "take 2 s \<noteq> ''0x''" and "take 2 s \<noteq> ''0X''"
    using assms not_hex_char by (cases s; cases "tl s"; fastforce)+
  moreover have "drop_underscores False s = Some s"
    using assms not_hex_char(5) by (intro drop_underscores_absent) auto
  ultimately show ?thesis by (simp add: py_int16_def Let_def split: option.split)
qed

lemma uuid_hex_value: "parse_base 16 (uuid_hex n) = Some (nat n)"
  by (simp add: uuid_hex_def parse_zpad parse_show_base)

lemma uuid_hex_split:
  "py_slice h 0 8 @ py_slice h 8 12 @ py_slice h 12 16 @ py_slice h 16 20 @ drop 20 h = h"
proof -
  have "py_slice h 0 20 @ drop 20 h = h" by (simp add: py_slice_def)
  moreover have "py_slice h 0 8 @ py_slice h 8 12 = py_slice h 0 12"
    and "py_slice h 0 12 @ py_slice h 12 16 = py_slice h 0 16"
    and "py_slice h 0 16 @ py_slice h 16 20 = py_slice h 0 20"
    by (simp_all add: py_slice_append)
  ultimately show ?thesis by (simp flip: append_assoc)
qed

lemma uuid_new_str:
  assumes "0 \<le> n" and "n < 2 ^ 128"
  shows "uuid_new (UHex (uuid_str n)) None = Inr n"
proof -
  let ?h = "uuid_hex n" and ?s = "uuid_str n"
  have sub: "c \<in> set (py_slice ?h i j) \<Longrightarrow> hex_char c" for c i j
    unfolding py_slice_def by (rule hex_char_uuid_hex[of _ n]) (meson in_set_dropD in_set_takeD)
  have chars: "c \<in> set ?s \<Longrightarrow> c = CHR ''-'' \<or> hex_char c" for c
    using sub by (auto simp: uuid_str_def Let_def dest: in_set_dropD hex_char_uuid_hex)
  have "str_remove ''urn:'' ?s = ?s" and "str_remove ''uuid:'' ?s = ?s"
    using chars[of "CHR ''u''"] not_hex_char(2) by (auto intro!: str_remove_absent)
  moreover have "strip_chars {CHR ''{'', CHR ''}''} ?s = ?s"
    using chars not_hex_char(3,4) by (intro strip_chars_absent) blast
  moreover have "str_remove ''-'' ?s = ?h"
  proof -
    have keep: "filter (\<lambda>c. c \<noteq> CHR ''-'') xs = xs" if "\<And>c. c \<in> set xs \<Longrightarrow> hex_char c" for xs
      using that not_hex_char(1) by (intro filter_True) blast
    have "filter (\<lambda>c. c \<noteq> CHR ''-'') (drop 20 ?h) = drop 20 ?h"
      by (rule keep) (auto dest: in_set_dropD hex_char_uuid_hex)
    then show ?thesis
      using keep[OF sub] uuid_hex_split[of ?h] by (simp add: str_remove_char uuid_str_def Let_def)
  qed
  moreover have "py_int16 ?h = Inr n"
  proof -
    have "?h \<noteq> []" using length_uuid_hex[OF assms] by auto
    then show ?thesis
      using assms py_int16_hex[of ?h, OF hex_char_uuid_hex] by (simp add: uuid_hex_value)
  qed
  ultimately have "uuid_hex_int ?s = Inr n"
    using length_uuid_hex[OF assms] by (simp add: uuid_hex_int_def Let_def)
  with assms show ?thesis by (simp add: uuid_new_def)
qed


section \<open>Variant and version\<close>

lemma version_consts:
  "push_bit 48 (0xc000 :: int) = push_bit 62 (mask 2)" "push_bit 48 (0x8000 :: int) = push_bit 63 1"
  "push_bit 48 (0x4000 :: int) = push_bit 62 1" "push_bit 64 (0xf000 :: int) = push_bit 76 (mask 4)"
  by (simp_all add: push_bit_eq_mult mask_eq_exp_minus_1)

lemma bit_version_consts:
  "bit (9223372036854775808 :: int) j \<longleftrightarrow> j = 63" "bit (4611686018427387904 :: int) j \<longleftrightarrow> j = 62"
  using bit_exp_iff[of 63 j, where ?'a = int] bit_exp_iff[of 62 j, where ?'a = int] by auto

lemma bit_set_version:
  assumes "in_width 4 v"
  shows "bit (set_version n v) j =
    (if j = 63 then True else if j = 62 then False
     else if 76 \<le> j \<and> j < 80 then bit v (j - 76) else bit n j)"
proof -
  have "\<not> bit v i" if "4 \<le> i" for i
    using int_bit_bound[of v 4 i] assms that by (simp add: in_width_def)
  moreover have "j - 62 < 2 \<longleftrightarrow> j < 64" "j - 76 < 4 \<longleftrightarrow> j < 80" if "62 \<le> j" for j :: nat
    using that by auto
  ultimately show ?thesis
    unfolding set_version_def Let_def version_consts
    by (auto simp: bit_or_iff bit_and_iff bit_not_iff bit_push_bit_iff bit_mask_iff bit_version_consts)
qed

lemma and_exp_eq_0: "n AND 2 ^ k = 0 \<longleftrightarrow> \<not> bit (n :: int) k"
proof
  assume "n AND 2 ^ k = 0"
  then have "\<not> bit (n AND 2 ^ k) k" by simp
  then show "\<not> bit n k" by (simp add: bit_and_iff bit_exp_iff)
next
  assume "\<not> bit n k"
  then show "n AND 2 ^ k = 0"
    by (intro bit_eqI) (auto simp: bit_and_iff bit_exp_iff)
qed

lemma variant_set_version: "in_width 4 v \<Longrightarrow> variant (set_version n v) = RFC_4122"
  using and_exp_eq_0[of "set_version n v" 63] and_exp_eq_0[of "set_version n v" 62]
  by (simp add: variant_def bit_set_version)

lemma uuid_version_set_version:
  assumes "in_width 4 v"
  shows "uuid_version (set_version n v) = Some v"
proof -
  have "drop_bit 76 (set_version n v) AND mask 4 = v"
  proof (rule bit_eqI)
    fix j :: nat
    have "\<not> bit v j" if "4 \<le> j"
      using int_bit_bound[of v 4 j] assms that by (simp add: in_width_def)
    then show "bit (drop_bit 76 (set_version n v) AND mask 4) j = bit v j"
      using bit_set_version[OF assms, of n "76 + j"]
      by (auto simp: bit_and_iff bit_drop_bit_eq bit_mask_iff)
  qed
  then show ?thesis
    using variant_set_version[OF assms] by (simp add: uuid_version_def masks(4))
qed

lemma set_version_range:
  assumes "0 \<le> n" and "n < 2 ^ 128" and "in_width 4 v"
  shows "0 \<le> set_version n v" and "set_version n v < 2 ^ 128"
proof -
  have "take_bit 128 (set_version n v) = set_version n v"
  proof (rule bit_eqI)
    fix j :: nat
    have "\<not> bit n j" if "\<not> j < 128"
      using int_bit_bound[of n 128 j] assms(1,2) that by simp
    then show "bit (take_bit 128 (set_version n v)) j = bit (set_version n v) j"
      by (cases "j < 128") (auto simp: bit_take_bit_iff bit_set_version[OF assms(3)])
  qed
  then show "0 \<le> set_version n v" and "set_version n v < 2 ^ 128"
    using take_bit_int_less_exp[of 128 "set_version n v"] take_bit_nonnegative[of 128 "set_version n v"]
    by simp_all
qed

section \<open>The generators\<close>

text \<open>
  \<^verbatim>\<open>uuid4\<close> over the 16 bytes \<^verbatim>\<open>os.urandom\<close> returned; \<^verbatim>\<open>uuid3\<close> and \<^verbatim>\<open>uuid5\<close> over the hash
  function (MD5 and SHA-1) and the encoded name.
\<close>

definition uuid4 :: "bytes \<Rightarrow> int result" where
  "uuid4 urandom = uuid_new (UBytes urandom) (Some 4)"

definition uuid3 :: "(bytes \<Rightarrow> bytes) \<Rightarrow> int \<Rightarrow> bytes \<Rightarrow> int result" where
  "uuid3 md5 namespace name = uuid_new (UBytes (take 16 (md5 (uuid_bytes namespace @ name)))) (Some 3)"

definition uuid5 :: "(bytes \<Rightarrow> bytes) \<Rightarrow> int \<Rightarrow> bytes \<Rightarrow> int result" where
  "uuid5 sha1 namespace name = uuid_new (UBytes (take 16 (sha1 (uuid_bytes namespace @ name)))) (Some 5)"

lemma uuid_new_version:
  assumes "uuid_new arg (Some v) = Inr n"
  shows "0 \<le> n" and "n < 2 ^ 128" and "variant n = RFC_4122" and "uuid_version n = Some v"
proof -
  from assms obtain m where m: "0 \<le> m" "m < 2 ^ 128" and v: "1 \<le> v" "v \<le> 5"
    and n: "n = set_version m v"
    by (auto simp: uuid_new_def bindE_eq_Inr_iff split: if_splits)
  from v have w: "in_width 4 v" by (simp add: in_width_def)
  show "0 \<le> n" and "n < 2 ^ 128" and "variant n = RFC_4122" and "uuid_version n = Some v"
    using set_version_range[OF m w] variant_set_version[OF w] uuid_version_set_version[OF w]
    by (simp_all add: n)
qed

section \<open>Properties\<close>

text \<open>
  C5: a UUID is recovered from each of its representations: from its canonical text, from
  its sixteen bytes in either byte order, and from its six fields.
\<close>

theorem uuid_round_trips:
  assumes "0 \<le> n" and "n < 2 ^ 128"
  shows "uuid_new (UHex (uuid_str n)) None = Inr n \<and>
    uuid_new (UBytes (uuid_bytes n)) None = Inr n \<and>
    uuid_new (UBytesLe (uuid_bytes_le n)) None = Inr n \<and>
    uuid_new (UFields (time_low n) (time_mid n) (time_hi_version n)
           (clock_seq_hi_variant n) (clock_seq_low n) (uuid_node n)) None = Inr n"
  using assms uuid_new_str uuid_new_bytes uuid_new_bytes_le uuid_fields_int_fields
  by (simp add: uuid_new_def)

theorem uuid_round_trips_witness:
  "uuid_new (UHex (uuid_str 0x0FC63DAF848347728E793D69D8477DE4)) None = Inr 0x0FC63DAF848347728E793D69D8477DE4"
  using uuid_round_trips[of "0x0FC63DAF848347728E793D69D8477DE4"] by simp

text \<open>
  C6: a UUID built with a version number is a 128-bit value of the RFC 4122 variant that
  reports exactly that version, whatever the other bits were.
\<close>

theorem uuid_version_stored:
  assumes "uuid_new arg (Some v) = Inr n"
  shows "0 \<le> n \<and> n < 2 ^ 128 \<and> variant n = RFC_4122 \<and> uuid_version n = Some v"
  using uuid_new_version[OF assms] by blast

theorem uuid_version_stored_witness:
  "uuid_version (set_version 0 4) = Some 4"
proof -
  have "uuid_new (UInt 0) (Some 4) = Inr (set_version 0 4)" by (simp add: uuid_new_def)
  from uuid_version_stored[OF this] show ?thesis by blast
qed

end
