(* ===== verification/GptDisk.thy ===== *)
theory GptDisk
  imports Uuid
begin

text \<open>
  \<^verbatim>\<open>tools/make-gpt-disk.py\<close>: the disk image with a protective MBR, both copies of a GPT
  and one Linux partition that the installer tests start from (\<open>gpt_make\<close>), and the
  check they end with (\<open>gpt_verify\<close>).  An image is the list of its bytes;
  \<^verbatim>\<open>hashlib.sha256(\<dots>).hexdigest()\<close> is the parameter \<open>sha256_hex\<close>.
\<close>

section \<open>Constants\<close>

definition SECTOR :: nat where
  "SECTOR = 512"

definition LINUX :: bytes where
  "LINUX = uuid_bytes_le 0x0FC63DAF848347728E793D69D8477DE4"

definition ESP :: bytes where
  "ESP = uuid_bytes_le 0xC12A7328F81F11D2BA4B00A0C93EC93B"

definition efi_part :: bytes where
  "efi_part = ascii ''EFI PART''"

definition gpt_crc :: "bytes \<Rightarrow> nat" where
  "gpt_crc data = unat (crc32 data)"

section \<open>Building an image\<close>

text \<open>The pieces \<^verbatim>\<open>make\<close> writes, in its order.\<close>

definition gpt_mbr :: "int \<Rightarrow> bytes result" where
  "gpt_mbr sectors =
     (let mbr0 = (replicate SECTOR 0)[446 + 4 := 0xEE]
      in bindE (pack_into 4 mbr0 (446 + 8) 1) (\<lambda>mbr1.
         bindE (pack_into 4 mbr1 (446 + 12) (min (sectors - 1) 0xFFFFFFFF)) (\<lambda>mbr2.
         Inr (set_slice mbr2 510 512 [0x55, 0xaa]))))"

definition gpt_entry :: "int \<Rightarrow> int \<Rightarrow> bytes result" where
  "gpt_entry first last_lba =
     (let e0 = set_slice (replicate 128 0) 0 16 LINUX;
          e1 = set_slice e0 16 32 (uuid_bytes_le 0x11111111222233334444555555555555)
      in bindE (pack_into 8 e1 32 first) (\<lambda>e2.
         bindE (pack_into 8 e2 40 last_lba) (\<lambda>e3.
         Inr (set_slice e3 56 72 (concat (map (\<lambda>b. [b, 0]) (ascii ''Existing'')))))))"

definition gpt_header :: "int \<Rightarrow> nat \<Rightarrow> int \<Rightarrow> int \<Rightarrow> int \<Rightarrow> bytes result" where
  "gpt_header sectors array_crc here other array_lba =
     (let h0 = set_slice (replicate SECTOR 0) 0 8 efi_part
      in bindE (pack_into 4 h0 8 0x00010000) (\<lambda>h1.
         bindE (pack_into 4 h1 12 92) (\<lambda>h2.
         bindE (pack_into 4 h2 16 0) (\<lambda>h3.
         bindE (pack_into 4 h3 20 0) (\<lambda>h4.
         bindE (pack_into 4 h4 24 here) (\<lambda>h5.
         bindE (pack_into 8 h5 32 other) (\<lambda>h6.
         bindE (pack_into 8 h6 40 34) (\<lambda>h7.
         bindE (pack_into 8 h7 48 (sectors - 34)) (\<lambda>h8.
         (let h9 = set_slice h8 56 72 (uuid_bytes_le 0xaaaaaaaabbbbccccddddeeeeeeeeeeee)
          in bindE (pack_into 8 h9 72 array_lba) (\<lambda>h10.
             bindE (pack_into 4 h10 80 128) (\<lambda>h11.
             bindE (pack_into 4 h11 84 128) (\<lambda>h12.
             bindE (pack_into 4 h12 88 (int array_crc)) (\<lambda>h13.
             pack_into 4 h13 16 (int (gpt_crc (py_slice h13 0 92)))))))))))))))))"

text \<open>The generator behind the partition's contents: 4096 bytes from a linear congruence.\<close>

primrec lcg_block :: "nat \<Rightarrow> nat \<Rightarrow> bytes" where
  "lcg_block 0 state = []"
| "lcg_block (Suc n) state =
     (let state' = (state * 1103515245 + 12345) mod 2 ^ 32
      in of_nat (state' div 2 ^ 16 mod 256) # lcg_block n state')"

definition gpt_body :: "int \<Rightarrow> int \<Rightarrow> bytes" where
  "gpt_body first last_lba =
     concat (replicate (nat ((last_lba - first + 1) * int SECTOR div 4096)) (lcg_block 4096 0x12345678))"

text \<open>
  \<^verbatim>\<open>make(path, size_mib, part_mib)\<close>: the bytes written and the digest printed.
  \<^verbatim>\<open>bytearray(n)\<close> refuses a negative size.  Where the source computes slice bounds from
  \<^verbatim>\<open>sectors\<close> the value is positive: for \<open>size_mib = 0\<close> packing \<open>sectors - 1\<close> into the
  MBR has failed by then.
\<close>

definition gpt_make :: "(bytes \<Rightarrow> string) \<Rightarrow> int \<Rightarrow> int \<Rightarrow> (bytes \<times> string) result" where
  "gpt_make sha256_hex size_mib part_mib =
     (let sectors = size_mib * 2048;
          first = 2048;
          last_lba = first + part_mib * 2048 - 1
      in if sectors * int SECTOR < 0 then Inl ValueError
         else let image0 = replicate (nat (sectors * int SECTOR)) 0
         in bindE (gpt_mbr sectors) (\<lambda>mbr.
            let image1 = set_slice image0 0 SECTOR mbr
            in bindE (gpt_entry first last_lba) (\<lambda>entry.
               let array = entry @ replicate (127 * 128) 0;
                   array_crc = gpt_crc array
               in bindE (gpt_header sectors array_crc 1 (sectors - 1) 2) (\<lambda>h1.
                  let image2 = set_slice image1 SECTOR (2 * SECTOR) h1;
                      image3 = set_slice image2 (2 * SECTOR) (2 * SECTOR + length array) array;
                      backup_array = sectors - 33;
                      b = nat backup_array * SECTOR;
                      image4 = set_slice image3 b (b + length array) array
                  in bindE (gpt_header sectors array_crc (sectors - 1) 1 backup_array) (\<lambda>h2.
                     let image5 = set_slice image4 (nat (sectors - 1) * SECTOR) (nat sectors * SECTOR) h2;
                         body = gpt_body first last_lba;
                         f = nat first * SECTOR;
                         image6 = set_slice image5 f (f + length body) body
                     in Inr (image6, sha256_hex (py_slice image6 f (nat (last_lba + 1) * SECTOR))))))))"

section \<open>Checking an image\<close>

definition read_table :: "bytes \<Rightarrow> nat \<Rightarrow> nat \<Rightarrow> (bytes \<times> nat \<times> nat) result" where
  "read_table data lba other =
     (let h = py_slice data (lba * SECTOR) ((lba + 1) * SECTOR)
      in bindE (assertE (py_slice h 0 8 = efi_part) ''no GPT signature'') (\<lambda>_.
         bindE (unpack_from 4 h 12) (\<lambda>hsize.
         bindE (unpack_from 4 h 16) (\<lambda>stored.
         let copy = set_slice (py_slice h 0 hsize) 16 20 (replicate 4 0)
         in bindE (assertE (gpt_crc copy = stored) ''header CRC'') (\<lambda>_.
            bindE (unpack_from 8 h 24) (\<lambda>my_lba.
            bindE (assertE (my_lba = lba) '''') (\<lambda>_.
            bindE (unpack_from 8 h 32) (\<lambda>alt.
            bindE (assertE (alt = other) '''') (\<lambda>_.
            bindE (unpack_from 8 h 72) (\<lambda>array_lba.
            bindE (unpack_from 4 h 80) (\<lambda>count.
            bindE (unpack_from 4 h 84) (\<lambda>entry_size.
            bindE (unpack_from 4 h 88) (\<lambda>array_crc.
            let array = py_slice data (array_lba * SECTOR) (array_lba * SECTOR + count * entry_size)
            in bindE (assertE (gpt_crc array = array_crc) ''array CRC'') (\<lambda>_.
               Inr (array, count, entry_size)))))))))))))))"

definition gpt_used :: "bytes \<Rightarrow> nat \<Rightarrow> nat \<Rightarrow> bytes list" where
  "gpt_used array count esize =
     map (\<lambda>i. py_slice array (i * esize) ((i + 1) * esize))
       (filter (\<lambda>i. \<exists>b \<in> set (py_slice array (i * esize) (i * esize + 16)). b \<noteq> 0) [0..<count])"

text \<open>Python's \<^verbatim>\<open>needle in haystack\<close> on bytes.\<close>

fun bytes_in :: "bytes \<Rightarrow> bytes \<Rightarrow> bool" where
  "bytes_in pat [] = (pat = [])"
| "bytes_in pat (x # xs) = (take (length pat) (x # xs) = pat \<or> bytes_in pat xs)"

definition gpt_verify :: "(bytes \<Rightarrow> string) \<Rightarrow> bytes \<Rightarrow> string \<Rightarrow> (nat \<times> nat) result" where
  "gpt_verify sha256_hex data expected =
     (let sectors = length data div SECTOR
      in bindE (read_table data 1 (sectors - 1)) (\<lambda>primary.
         bindE (read_table data (sectors - 1) 1) (\<lambda>backup.
         bindE (assertE (fst primary = fst backup) ''table copies differ'') (\<lambda>_.
         let (array, count, esize) = primary;
             used = gpt_used array count esize
         in bindE (assertE (length used = 2) (''expected 2 partitions, found '' @ str_int (int (length used)))) (\<lambda>_.
            bindE (unpack_from 8 (used ! 0) 32) (\<lambda>first0.
            bindE (unpack_from 8 (used ! 0) 40) (\<lambda>first1.
            bindE (assertE (py_slice (used ! 0) 0 16 = LINUX \<and> first0 = 2048) ''the first partition moved'') (\<lambda>_.
            let actual = sha256_hex (py_slice data (first0 * SECTOR) ((first1 + 1) * SECTOR))
            in bindE (assertE (actual = expected) ''the existing partition changed'') (\<lambda>_.
               bindE (assertE (py_slice (used ! 1) 0 16 = ESP) ''second partition is not an EFI System partition'') (\<lambda>_.
               bindE (unpack_from 8 (used ! 1) 32) (\<lambda>start.
               bindE (unpack_from 8 (used ! 1) 40) (\<lambda>end_lba.
               bindE (assertE (first1 < start \<and> int end_lba < int sectors - 33) '''') (\<lambda>_.
               let boot = py_slice data (start * SECTOR) ((start + 1) * SECTOR)
               in bindE (assertE (py_slice boot 82 90 = ascii ''FAT32   '' \<and> py_slice boot 510 512 = [0x55, 0xaa])
                          ''no FAT32 volume'') (\<lambda>_.
                  bindE (unpack_from 2 boot 14) (\<lambda>reserved.
                  bindE (py_nth boot 16) (\<lambda>fats.
                  bindE (unpack_from 4 boot 36) (\<lambda>fat_size.
                  bindE (py_nth boot 13) (\<lambda>cluster_sectors.
                  let data_start = start + reserved + unat fats * fat_size;
                      root = py_slice data (data_start * SECTOR)
                               (data_start * SECTOR + unat cluster_sectors * SECTOR)
                  in bindE (assertE (bytes_in (ascii ''EFI        '') root) ''no EFI directory'') (\<lambda>_.
                     Inr (start, end_lba))))))))))))))))))))"


section \<open>The table copies that make writes\<close>

lemma le_val_append: "le_val (xs @ ys) = le_val xs + 256 ^ length xs * le_val ys"
  by (induction xs) (auto simp: algebra_simps)

lemma le_val_zeros [simp]: "le_val (replicate n 0) = 0"
  by (induction n) auto

lemma length_uuid_bytes_le [simp]: "length (uuid_bytes_le n) = 16"
  by (simp add: uuid_bytes_le_def length_swap_le uuid_bytes_def)

lemma length_efi_part [simp]: "length efi_part = 8"
  by (simp add: efi_part_def)

lemma gpt_crc_bound: "gpt_crc bs < 256 ^ 4"
  unfolding gpt_crc_def using unsigned_less[of "crc32 bs", where ?'a = nat] by simp

text \<open>The fields of a header as the writes that fill it, the CRC field zero at first.\<close>

definition header_fields :: "int \<Rightarrow> nat \<Rightarrow> int \<Rightarrow> int \<Rightarrow> int \<Rightarrow> (nat \<times> bytes) list" where
  "header_fields sectors array_crc here other array_lba =
    [(0, efi_part), (8, le_bytes 4 0x10000), (12, le_bytes 4 92), (16, le_bytes 4 0),
     (20, le_bytes 4 0), (24, le_bytes 4 (nat here)), (32, le_bytes 8 (nat other)), (40, le_bytes 8 34),
     (48, le_bytes 8 (nat (sectors - 34))), (56, uuid_bytes_le 0xaaaaaaaabbbbccccddddeeeeeeeeeeee),
     (72, le_bytes 8 (nat array_lba)), (80, le_bytes 4 128), (84, le_bytes 4 128),
     (88, le_bytes 4 array_crc)]"

abbreviation zero_sector :: bytes where
  "zero_sector \<equiv> replicate SECTOR 0"

lemma length_zero_sector: "length zero_sector = 512"
  by (simp add: SECTOR_def)

lemma gpt_header_writes:
  assumes "0 \<le> here" "here < 2 ^ 32" "0 \<le> other" "other < 2 ^ 64" "34 \<le> sectors" "sectors < 2 ^ 64"
    "0 \<le> array_lba" "array_lba < 2 ^ 64" "array_crc < 2 ^ 32"
  defines "ws \<equiv> header_fields sectors array_crc here other array_lba"
  shows "gpt_header sectors array_crc here other array_lba =
    Inr (put_all zero_sector (ws @ [(16, le_bytes 4 (gpt_crc (py_slice (put_all zero_sector ws) 0 92)))]))"
proof -
  have first: "set_slice z 0 8 efi_part = put_all z [(0, efi_part)]" for z
    by (simp add: put_all_def length_efi_part)
  have crc: "int (gpt_crc bs) < 256 ^ 4" for bs
    using gpt_crc_bound[of bs] by simp
  show ?thesis
    using assms(1-9) crc length_zero_sector
    unfolding gpt_header_def Let_def first ws_def header_fields_def
    by (simp add: pack_into_put_all set_slice_put_all put_simps del: length_replicate)
qed


lemma gpt_header_fields:
  assumes "0 \<le> here" "here < 2 ^ 32" "0 \<le> other" "other < 2 ^ 64" "34 \<le> sectors" "sectors < 2 ^ 64"
    "0 \<le> array_lba" "array_lba < 2 ^ 64" "array_crc < 2 ^ 32"
  obtains h where "gpt_header sectors array_crc here other array_lba = Inr h"
    and "length h = 512"
    and "py_slice h 0 8 = efi_part"
    and "le_val (py_slice h 12 16) = 92"
    and "le_val (py_slice h 24 32) = nat here"
    and "le_val (py_slice h 32 40) = nat other"
    and "le_val (py_slice h 40 48) = 34"
    and "le_val (py_slice h 48 56) = nat (sectors - 34)"
    and "le_val (py_slice h 72 80) = nat array_lba"
    and "le_val (py_slice h 80 84) = 128"
    and "le_val (py_slice h 84 88) = 128"
    and "le_val (py_slice h 88 92) = array_crc"
    and "gpt_crc (set_slice (py_slice h 0 92) 16 20 (replicate 4 0)) = le_val (py_slice h 16 20)"
proof -
  let ?ws = "header_fields sectors array_crc here other array_lba"
  let ?g = "put_all zero_sector ?ws"
  let ?crc = "le_bytes 4 (gpt_crc (py_slice ?g 0 92))"
  let ?all = "?ws @ [(16, ?crc)]"
  let ?h = "put_all zero_sector ?all"
  have fits: "fits (length zero_sector) ?all"
    by (simp add: header_fields_def put_simps length_zero_sector del: length_replicate)
  have g_len: "length ?g = 512"
    using fits length_put_all[of zero_sector ?ws] by (simp add: put_simps length_zero_sector del: length_replicate)
  have h: "?h = set_slice ?g 16 20 ?crc"
    by (simp add: put_all_snoc)
  note field = put_all_lookup[OF fits]
  note eval = header_fields_def put_simps
  have lookups: "py_slice ?h 0 8 = efi_part"
    "py_slice ?h 12 16 = le_bytes 4 92"
    "py_slice ?h 24 28 = le_bytes 4 (nat here)"
    "py_slice ?h 32 40 = le_bytes 8 (nat other)"
    "py_slice ?h 40 48 = le_bytes 8 34"
    "py_slice ?h 48 56 = le_bytes 8 (nat (sectors - 34))"
    "py_slice ?h 72 80 = le_bytes 8 (nat array_lba)"
    "py_slice ?h 80 84 = le_bytes 4 128"
    "py_slice ?h 84 88 = le_bytes 4 128"
    "py_slice ?h 88 92 = le_bytes 4 array_crc"
    "py_slice ?h 16 20 = ?crc"
    subgoal by (rule field[of 0]) (simp_all add: eval)
    subgoal by (rule field[of 2]) (simp_all add: eval)
    subgoal by (rule field[of 5]) (simp_all add: eval)
    subgoal by (rule field[of 6]) (simp_all add: eval)
    subgoal by (rule field[of 7]) (simp_all add: eval)
    subgoal by (rule field[of 8]) (simp_all add: eval)
    subgoal by (rule field[of 10]) (simp_all add: eval)
    subgoal by (rule field[of 11]) (simp_all add: eval)
    subgoal by (rule field[of 12]) (simp_all add: eval)
    subgoal by (rule field[of 13]) (simp_all add: eval)
    subgoal by (rule field[of 14]) (simp_all add: eval)
    done
  have "apart 28 32 ?all" by (simp add: header_fields_def put_simps)
  then have "py_slice ?h 28 32 = py_slice zero_sector 28 32"
    using put_all_apart[OF fits] by blast
  also have "\<dots> = replicate 4 0" by (simp add: py_slice_def SECTOR_def)
  finally have gap: "py_slice ?h 28 32 = replicate 4 0" .
  have here: "py_slice ?h 24 32 = le_bytes 4 (nat here) @ replicate 4 0"
    using py_slice_append[of 24 28 32 ?h] gap lookups(3) by simp
  have "py_slice ?g 16 20 = le_bytes 4 0"
    using fits by (intro put_all_lookup[of _ _ 3]) (simp_all add: eval)
  then have zero: "set_slice (py_slice ?h 0 92) 16 20 (replicate 4 0) = py_slice ?g 0 92"
    unfolding h using g_len by (intro set_slice_restore) (simp_all add: le_bytes_0)
  show ?thesis
  proof (rule that[of ?h])
    show "gpt_header sectors array_crc here other array_lba = Inr ?h"
      using gpt_header_writes assms by simp
    show "length ?h = 512"
      using length_put_all[OF fits] by (simp add: SECTOR_def)
    show "le_val (py_slice ?h 24 32) = nat here"
      using assms by (simp add: here le_val_append nat_less_iff)
    show "gpt_crc (set_slice (py_slice ?h 0 92) 16 20 (replicate 4 0)) = le_val (py_slice ?h 16 20)"
      unfolding zero lookups using gpt_crc_bound by simp
  qed (use assms in \<open>simp_all add: lookups nat_less_iff\<close>)
qed


lemma gpt_mbr_ok:
  assumes "1 \<le> sectors"
  obtains mbr where "gpt_mbr sectors = Inr mbr" and "length mbr = 512" and "mbr ! 450 = 0xEE"
    and "mbr ! 510 = 0x55" and "mbr ! 511 = 0xaa"
proof -
  define z where "z = zero_sector[450 := 0xEE]"
  define ws :: "(nat \<times> bytes) list" where "ws = [(454, le_bytes 4 1), (458, le_bytes 4 (nat (min (sectors - 1) 0xFFFFFFFF))),
    (510, [0x55, 0xaa])]"
  have z: "length z = 512" by (simp add: z_def SECTOR_def)
  have fits: "fits (length z) ws" by (simp add: z ws_def put_simps)
  have "gpt_mbr sectors = Inr (put_all z ws)"
    using assms z pack_into_put_all[of z "[]"]
    by (simp add: gpt_mbr_def z_def[symmetric] Let_def pack_into_put_all set_slice_put_all put_simps
        put_all_Nil ws_def)
  moreover have len: "length (put_all z ws) = 512" using length_put_all[OF fits] z by simp
  moreover have "put_all z ws ! 450 = 0xEE"
  proof -
    have "apart 450 451 ws" by (simp add: ws_def put_simps)
    from put_all_apart[OF fits this] have "py_slice (put_all z ws) 450 451 ! 0 = py_slice z 450 451 ! 0"
      by simp
    then show ?thesis by (simp add: nth_py_slice len z) (simp add: z_def SECTOR_def)
  qed
  moreover have "py_slice (put_all z ws) 510 512 = [0x55, 0xaa]"
    by (rule put_all_lookup[OF fits, of 2]) (simp_all add: ws_def put_simps)
  then have "put_all z ws ! 510 = 0x55" and "put_all z ws ! 511 = 0xaa"
    using nth_py_slice[of 0 "put_all z ws" 512 510] nth_py_slice[of 1 "put_all z ws" 512 510] len
    by simp_all
  ultimately show ?thesis by (rule that)
qed

lemma length_LINUX [simp]: "length LINUX = 16" and length_ESP [simp]: "length ESP = 16"
  by (simp_all add: LINUX_def ESP_def)

lemma LINUX_bytes: "LINUX = [0xAF, 0x3D, 0xC6, 0x0F, 0x83, 0x84, 0x72, 0x47, 0x8E, 0x79, 0x3D, 0x69, 0xD8, 0x47, 0x7D, 0xE4]"
proof -
  have "uuid_bytes 0x0FC63DAF848347728E793D69D8477DE4 =
    [0x0F, 0xC6, 0x3D, 0xAF, 0x84, 0x83, 0x47, 0x72, 0x8E, 0x79, 0x3D, 0x69, 0xD8, 0x47, 0x7D, 0xE4]"
    unfolding uuid_bytes_def by (rule be_bytesI) (simp_all add: be_val_def)
  then show ?thesis by (simp add: LINUX_def uuid_bytes_le_def swap_le_def py_slice_def)
qed

lemma gpt_entry_ok:
  assumes "0 \<le> first" "first < 2 ^ 64" "0 \<le> last_lba" "last_lba < 2 ^ 64"
  obtains e where "gpt_entry first last_lba = Inr e" and "length e = 128"
    and "py_slice e 0 16 = LINUX"
    and "le_val (py_slice e 32 40) = nat first" and "le_val (py_slice e 40 48) = nat last_lba"
proof -
  define z where "z = replicate 128 (0 :: byte)"
  define nm where "nm = concat (map (\<lambda>b. [b, 0]) (ascii ''Existing''))"
  define ws :: "(nat \<times> bytes) list" where "ws = [(0, LINUX), (16, uuid_bytes_le 0x11111111222233334444555555555555),
    (32, le_bytes 8 (nat first)), (40, le_bytes 8 (nat last_lba)), (56, nm)]"
  have z: "length z = 128" by (simp add: z_def)
  have nm: "length nm = 16" by (simp add: nm_def ascii_def)
  have fits: "fits (length z) ws" by (simp add: z nm ws_def put_simps)
  have start: "set_slice z 0 16 LINUX = put_all z [(0, LINUX)]"
    by (simp add: put_all_def)
  have "gpt_entry first last_lba = Inr (put_all z ws)"
    using assms
    unfolding gpt_entry_def z_def[symmetric] nm_def[symmetric] Let_def start
    by (simp add: pack_into_put_all set_slice_put_all put_simps z nm ws_def)
  moreover have "length (put_all z ws) = 128" using length_put_all[OF fits] z by simp
  moreover have "py_slice (put_all z ws) 0 16 = LINUX"
    by (rule put_all_lookup[OF fits, of 0]) (simp_all add: ws_def put_simps nm)
  moreover have "py_slice (put_all z ws) 32 40 = le_bytes 8 (nat first)"
    by (rule put_all_lookup[OF fits, of 2]) (simp_all add: ws_def put_simps nm)
  then have "le_val (py_slice (put_all z ws) 32 40) = nat first"
    using assms(1,2) by (simp add: nat_less_iff)
  moreover have "py_slice (put_all z ws) 40 48 = le_bytes 8 (nat last_lba)"
    by (rule put_all_lookup[OF fits, of 3]) (simp_all add: ws_def put_simps nm)
  then have "le_val (py_slice (put_all z ws) 40 48) = nat last_lba"
    using assms(3,4) by (simp add: nat_less_iff)
  ultimately show ?thesis by (rule that)
qed

lemma length_lcg_block [simp]: "length (lcg_block n st) = n"
  by (induction n arbitrary: st) (simp_all add: Let_def)

lemma length_gpt_body:
  "length (gpt_body 2048 (2048 + int p * 2048 - 1)) = p * (2048 * SECTOR)"
proof -
  have "int p * 2048 * 512 div 4096 = int p * 256" by simp
  then show ?thesis by (simp add: gpt_body_def SECTOR_def length_concat map_replicate_const sum_list_replicate)
qed


text \<open>A header sector over a table, as \<open>read_table\<close> and the kernel read its fields.\<close>

definition header_over :: "bytes \<Rightarrow> bytes \<Rightarrow> nat \<Rightarrow> nat \<Rightarrow> nat \<Rightarrow> nat \<Rightarrow> bool" where
  "header_over h array sectors here other array_lba \<longleftrightarrow>
     length h = 512 \<and> py_slice h 0 8 = efi_part \<and> le_val (py_slice h 12 16) = 92 \<and>
     le_val (py_slice h 24 32) = here \<and> le_val (py_slice h 32 40) = other \<and>
     le_val (py_slice h 40 48) = 34 \<and> le_val (py_slice h 48 56) = sectors - 34 \<and>
     le_val (py_slice h 72 80) = array_lba \<and> le_val (py_slice h 80 84) = 128 \<and>
     le_val (py_slice h 84 88) = 128 \<and> le_val (py_slice h 88 92) = gpt_crc array \<and>
     gpt_crc (set_slice (py_slice h 0 92) 16 20 (replicate 4 0)) = le_val (py_slice h 16 20)"

lemma gpt_header_over:
  assumes "here < 2 ^ 32" "other < 2 ^ 64" "34 \<le> sectors" "sectors < 2 ^ 64" "array_lba < 2 ^ 64"
  obtains h where
    "gpt_header (int sectors) (gpt_crc array) (int here) (int other) (int array_lba) = Inr h"
    and "header_over h array sectors here other array_lba"
proof -
  have "int here < 2 ^ 32" "int other < 2 ^ 64" "34 \<le> int sectors" "int sectors < 2 ^ 64"
    "int array_lba < 2 ^ 64" "gpt_crc array < 2 ^ 32"
    using assms gpt_crc_bound[of array] by simp_all
  then show ?thesis
    by (rule gpt_header_fields[OF of_nat_0_le_iff _ of_nat_0_le_iff _ _ _ of_nat_0_le_iff])
       (rule that, assumption, simp add: header_over_def nat_diff_distrib')
qed

lemma read_table_over:
  assumes "header_over h array sectors lba other array_lba"
    and "py_slice data (lba * SECTOR) ((lba + 1) * SECTOR) = h"
    and "py_slice data (array_lba * SECTOR) (array_lba * SECTOR + 128 * 128) = array"
  shows "read_table data lba other = Inr (array, 128, 128)"
  using assms
  by (simp add: read_table_def header_over_def unpack_from_def Let_def del: replicate.simps)

text \<open>The image \<^verbatim>\<open>make\<close> writes, for a partition that leaves room for the backup table.\<close>

definition gpt_layout :: "nat \<Rightarrow> nat \<Rightarrow> bytes \<Rightarrow> bytes \<Rightarrow> bytes \<Rightarrow> bool" where
  "gpt_layout s p img mbr entry \<longleftrightarrow>
     length img = s * 2048 * SECTOR \<and>
     py_slice img 0 SECTOR = mbr \<and> length mbr = 512 \<and>
     mbr ! 450 = 0xEE \<and> mbr ! 510 = 0x55 \<and> mbr ! 511 = 0xaa \<and>
     length entry = 128 \<and> py_slice entry 0 16 = LINUX \<and>
     le_val (py_slice entry 32 40) = 2048 \<and> le_val (py_slice entry 40 48) = 2047 + p * 2048 \<and>
     (let array = entry @ replicate (127 * 128) 0
      in header_over (py_slice img SECTOR (2 * SECTOR)) array (s * 2048) 1 (s * 2048 - 1) 2 \<and>
         header_over (py_slice img ((s * 2048 - 1) * SECTOR) (s * 2048 * SECTOR)) array
           (s * 2048) (s * 2048 - 1) 1 (s * 2048 - 33) \<and>
         py_slice img (2 * SECTOR) (2 * SECTOR + 128 * 128) = array \<and>
         py_slice img ((s * 2048 - 33) * SECTOR) ((s * 2048 - 33) * SECTOR + 128 * 128) = array) \<and>
     py_slice img (2048 * SECTOR) ((2048 + p * 2048) * SECTOR) =
       gpt_body 2048 (2048 + int p * 2048 - 1)"

text \<open>The writes \<^verbatim>\<open>make\<close> does, the partition's contents last.\<close>

definition gpt_writes :: "nat \<Rightarrow> nat \<Rightarrow> bytes \<Rightarrow> bytes \<Rightarrow> bytes \<Rightarrow> bytes \<Rightarrow> (nat \<times> bytes) list" where
  "gpt_writes s p mbr h1 array h2 =
     [(0, mbr), (512, h1), (1024, array), ((s * 2048 - 33) * 512, array), ((s * 2048 - 1) * 512, h2)] @
     [(1048576, gpt_body 2048 (2048 + int p * 2048 - 1))]"

lemma gpt_make_writes:
  assumes "0 < s" and "s \<le> 2 ^ 21" and "p \<le> 2 ^ 21"
  obtains mbr e h1 h2 array where
    "length mbr = 512" "mbr ! 450 = 0xEE" "mbr ! 510 = 0x55" "mbr ! 511 = 0xaa"
    and "length e = 128" "py_slice e 0 16 = LINUX" "le_val (py_slice e 32 40) = 2048"
      "le_val (py_slice e 40 48) = 2047 + p * 2048" "array = e @ replicate (127 * 128) 0"
    and "header_over h1 array (s * 2048) 1 (s * 2048 - 1) 2"
    and "header_over h2 array (s * 2048) (s * 2048 - 1) 1 (s * 2048 - 33)"
    and "gpt_make sha (int s) (int p) =
      (let img = put_all (replicate (s * 1048576) 0) (gpt_writes s p mbr h1 array h2)
       in Inr (img, sha (py_slice img (2048 * SECTOR) ((2048 + p * 2048) * SECTOR))))"
proof -
  let ?S = "s * 2048"
  let ?l = "2048 + int p * 2048 - 1"
  obtain mbr where mbr: "gpt_mbr (int ?S) = Inr mbr" "length mbr = 512" "mbr ! 450 = 0xEE"
    "mbr ! 510 = 0x55" "mbr ! 511 = 0xaa"
    using gpt_mbr_ok[of "int ?S"] assms by auto
  obtain e where e: "gpt_entry 2048 ?l = Inr e" "length e = 128" "py_slice e 0 16 = LINUX"
    "le_val (py_slice e 32 40) = 2048" "le_val (py_slice e 40 48) = nat ?l"
    using gpt_entry_ok[of 2048 ?l] assms by auto
  define array where "array = e @ replicate (127 * 128) (0 :: byte)"
  have array: "length array = 16384" using e(2) by (simp add: array_def)
  have bounds: "?S - 1 < 2 ^ 32" "?S - 1 < 2 ^ 64" "34 \<le> ?S" "?S < 2 ^ 64" "?S - 33 < 2 ^ 64"
    using assms by auto
  obtain h1 where h1: "gpt_header (int ?S) (gpt_crc array) (int 1) (int (?S - 1)) (int 2) = Inr h1"
    and over1: "header_over h1 array ?S 1 (?S - 1) 2"
    by (rule gpt_header_over[OF _ bounds(2-4), of 1 2 array]) auto
  obtain h2 where h2: "gpt_header (int ?S) (gpt_crc array) (int (?S - 1)) (int 1) (int (?S - 33)) = Inr h2"
    and over2: "header_over h2 array ?S (?S - 1) 1 (?S - 33)"
    by (rule gpt_header_over[OF bounds(1) _ bounds(3-5), of 1 array]) auto
  define body where "body = gpt_body 2048 ?l"
  define z where "z = replicate (s * 1048576) (0 :: byte)"
  define b1 b2 where "b1 = (?S - 33) * 512" and "b2 = (?S - 1) * 512"
  have b: "b1 + 16896 = s * 1048576" "b2 + 512 = s * 1048576"
    using bounds(3) by (simp_all add: b1_def b2_def diff_mult_distrib)
  have len: "length h1 = 512" "length h2 = 512" using over1 over2 by (simp_all add: header_over_def)
  note sizes = len mbr(2) array
  have start: "set_slice z 0 512 mbr = put_all z [(0, mbr)]"
    by (simp add: put_all_def mbr(2))
  have conv: "int s * 2048 = int ?S" "nat (int ?S * int SECTOR) = s * 1048576"
    "int ?S - 1 = int (?S - 1)" "int ?S - 33 = int (?S - 33)"
    using bounds(3) by (simp_all add: SECTOR_def nat_mult_distrib of_nat_diff)
  have nonneg: "\<not> int (s * 2048) * int SECTOR < 0"
    using of_nat_0_le_iff[of "s * 2048 * SECTOR", where ?'a = int] by (simp add: not_less SECTOR_def)
  have norm: "e @ replicate 16256 0 = array"
    "gpt_body 2048 (2047 + int p * 2048) = body" "length e + 16256 = 16384"
    "(s * 2048 - 33) * 512 = b1" "(s * 2048 - Suc 0) * 512 = b2" "s * 1048576 = b2 + 512" "1048576 * s = b2 + 512"
    "nat (2048 + int p * 2048) * 512 = 1048576 + 1048576 * p"
    using b e(2) by (simp_all add: array_def body_def b1_def b2_def algebra_simps nat_add_distrib nat_mult_distrib)
  have "gpt_make sha (int s) (int p) =
      (let img = put_all z (gpt_writes s p mbr h1 array h2)
       in Inr (img, sha (py_slice img (2048 * SECTOR) ((2048 + p * 2048) * SECTOR))))"
    unfolding gpt_make_def Let_def conv(1,2) z_def[symmetric] gpt_writes_def
    using mbr(1) e(1) h1 h2
    by (simp add: nonneg norm conv(3,4) del: of_nat_diff of_nat_mult)
       (simp add: SECTOR_def norm start set_slice_put_all sizes)
  moreover have "nat ?l = 2047 + p * 2048" by simp
  ultimately show ?thesis
    using that[OF mbr(2-5) e(2-4) _ array_def over1 over2] e(5) unfolding z_def by simp
qed

lemma gpt_make_layout:
  assumes "p + 2 \<le> s" and "s \<le> 2 ^ 21"
  obtains img mbr entry where
    "gpt_make sha (int s) (int p) = Inr (img, sha (py_slice img (2048 * SECTOR) ((2048 + p * 2048) * SECTOR)))"
    and "gpt_layout s p img mbr entry"
proof -
  have sp: "0 < s" "p \<le> 2 ^ 21" using assms by simp_all
  obtain mbr e h1 h2 array where mbr: "length mbr = 512" "mbr ! 450 = 0xEE" "mbr ! 510 = 0x55" "mbr ! 511 = 0xaa"
    and e: "length e = 128" "py_slice e 0 16 = LINUX" "le_val (py_slice e 32 40) = 2048"
      "le_val (py_slice e 40 48) = 2047 + p * 2048" and array: "array = e @ replicate (127 * 128) 0"
    and over1: "header_over h1 array (s * 2048) 1 (s * 2048 - 1) 2"
    and over2: "header_over h2 array (s * 2048) (s * 2048 - 1) 1 (s * 2048 - 33)"
    and make: "gpt_make sha (int s) (int p) =
      (let img = put_all (replicate (s * 1048576) 0) (gpt_writes s p mbr h1 array h2)
       in Inr (img, sha (py_slice img (2048 * SECTOR) ((2048 + p * 2048) * SECTOR))))"
    by (rule gpt_make_writes[OF sp(1) assms(2) sp(2), of sha])
  define body where "body = gpt_body 2048 (2048 + int p * 2048 - 1)"
  have body: "length body = p * 1048576" using length_gpt_body[of p] by (simp add: body_def SECTOR_def)
  define z where "z = replicate (s * 1048576) (0 :: byte)"
  define b1 b2 where "b1 = (s * 2048 - 33) * 512" and "b2 = (s * 2048 - 1) * 512"
  have b: "b1 + 16896 = s * 1048576" "b2 + 512 = s * 1048576"
    using assms by (simp_all add: b1_def b2_def diff_mult_distrib)
  define ws where "ws = gpt_writes s p mbr h1 array h2"
  have ws: "ws = [(0, mbr), (512, h1), (1024, array), (b1, array), (b2, h2), (1048576, body)]"
    by (simp add: ws_def gpt_writes_def b1_def b2_def body_def)
  have sizes: "length h1 = 512" "length h2 = 512" "length mbr = 512" "length array = 16384" "length body = p * 1048576"
    using over1 over2 mbr e(1) body by (simp_all add: header_over_def array)
  have z: "length z = s * 1048576" by (simp add: z_def)
  have fits: "fits (length z) ws"
    using assms b by (simp add: ws put_simps sizes z)
  define img where "img = put_all z ws"
  note field = put_all_lookup[OF fits]
  note arith = ws put_simps sizes
  have "length img = s * 2048 * SECTOR"
    using length_put_all[OF fits] z by (simp add: img_def SECTOR_def)
  moreover have "py_slice img 0 512 = mbr"
    unfolding img_def using assms b by (intro field[of 0]) (simp_all add: arith)
  moreover have "py_slice img 512 1024 = h1"
    unfolding img_def using assms b by (intro field[of 1]) (simp_all add: arith)
  moreover have "py_slice img 1024 17408 = array"
    unfolding img_def using assms b by (intro field[of 2]) (simp_all add: arith)
  moreover have "py_slice img b1 (b1 + 16384) = array"
    unfolding img_def using assms b by (intro field[of 3]) (simp_all add: arith)
  moreover have "py_slice img b2 (b2 + 512) = h2"
    unfolding img_def using assms b by (intro field[of 4]) (simp_all add: arith)
  moreover have "py_slice img 1048576 (1048576 + 1048576 * p) = body"
    unfolding img_def using assms b by (intro field[of 5]) (simp_all add: arith)
  moreover have "(s * 2048 - 33) * 512 = b1" "(s * 2048 - Suc 0) * 512 = b2" "s * 1048576 = b2 + 512" "1048576 * s = b2 + 512"
    "gpt_body 2048 (2047 + int p * 2048) = body"
    using b by (simp_all add: b1_def b2_def body_def)
  ultimately have "gpt_layout s p img mbr e"
    using mbr e over1 over2 unfolding gpt_layout_def Let_def array[symmetric] body_def[symmetric]
    by (simp add: SECTOR_def)
  then show ?thesis using make by (intro that[of img]) (simp_all add: img_def z_def ws_def Let_def)
qed

text \<open>
  A partition that does not leave the last mebibyte free is written over the backup table, and
  the image grows to hold it.  Its last sector then is the end of a block of the generator,
  which is not a header: the byte there is the generator's value after 3585 steps, computed by
  doubling.
\<close>

definition lcg_step :: "nat \<Rightarrow> nat" where
  "lcg_step st = (st * 1103515245 + 12345) mod 2 ^ 32"

lemma lcg_block_nth: "i < n \<Longrightarrow> lcg_block n st ! i = of_nat ((lcg_step ^^ Suc i) st div 2 ^ 16 mod 256)"
proof (induction n arbitrary: st i)
  case (Suc n)
  have step: "lcg_block (Suc n) st = of_nat (lcg_step st div 2 ^ 16 mod 256) # lcg_block n (lcg_step st)"
    by (simp only: lcg_block.simps Let_def lcg_step_def)
  show ?case
  proof (cases i)
    case 0
    then show ?thesis unfolding step by simp
  next
    case (Suc k)
    have "(lcg_step ^^ Suc k) (lcg_step st) = (lcg_step ^^ Suc i) st"
      unfolding Suc by (simp only: funpow_Suc_right comp_apply)
    moreover have "lcg_block n (lcg_step st) ! k = of_nat ((lcg_step ^^ Suc k) (lcg_step st) div 2 ^ 16 mod 256)"
      using Suc.IH[of k "lcg_step st"] Suc.prems Suc by simp
    ultimately show ?thesis unfolding step Suc nth_Cons_Suc by (simp only:)
  qed
qed simp

definition lcg_affine :: "nat \<Rightarrow> nat \<Rightarrow> nat \<Rightarrow> bool" where
  "lcg_affine n a c \<longleftrightarrow> (\<forall>st. (lcg_step ^^ n) st mod 2 ^ 32 = (st * a + c) mod 2 ^ 32)"

lemma affine_mod: "(x mod m * b + d) mod m = (x * b + d) mod (m :: nat)"
  by (metis mod_add_left_eq mod_mult_left_eq)

lemma affine_mod_coeffs: "(x * (p mod m) + q mod m) mod m = (x * p + q) mod (m :: nat)"
  by (simp add: mod_add_right_eq) (metis mod_add_left_eq mod_mult_right_eq)

lemma lcg_affine_add:
  assumes "lcg_affine m a c" and "lcg_affine n b d" and "(a * b) mod 2 ^ 32 = e" and "(c * b + d) mod 2 ^ 32 = f"
    and "k = n + m"
  shows "lcg_affine k e f"
  unfolding lcg_affine_def assms(5)
proof
  fix st
  have "(lcg_step ^^ (n + m)) st mod 2 ^ 32 = ((lcg_step ^^ m) st mod 2 ^ 32 * b + d) mod 2 ^ 32"
    using assms(2) by (simp add: funpow_add lcg_affine_def affine_mod)
  also have "\<dots> = ((st * a + c) * b + d) mod 2 ^ 32" using assms(1) by (simp only: lcg_affine_def affine_mod)
  also have "\<dots> = (st * (a * b) + (c * b + d)) mod 2 ^ 32" by (simp add: algebra_simps)
  also have "\<dots> = (st * e + f) mod 2 ^ 32" unfolding assms(3,4)[symmetric] by (rule affine_mod_coeffs[symmetric])
  finally show "(lcg_step ^^ (n + m)) st mod 2 ^ 32 = (st * e + f) mod 2 ^ 32" .
qed

text \<open>The steps as one affine function modulo \<open>2^32\<close>, by doubling.\<close>

lemma lcg_affine_3585: "lcg_affine 3585 2450646637 1718235705"
proof -
  have s1: "lcg_affine 1 1103515245 12345"
    by (simp add: lcg_affine_def lcg_step_def)
  have s2: "lcg_affine 2 3265436265 3554416254" by (rule lcg_affine_add[OF s1 s1]) simp_all
  have s4: "lcg_affine 4 3993403153 3596950572" by (rule lcg_affine_add[OF s2 s2]) simp_all
  have s8: "lcg_affine 8 3487424289 3441282840" by (rule lcg_affine_add[OF s4 s4]) simp_all
  have s16: "lcg_affine 16 1601471041 1695770928" by (rule lcg_affine_add[OF s8 s8]) simp_all
  have s32: "lcg_affine 32 2335052929 1680572000" by (rule lcg_affine_add[OF s16 s16]) simp_all
  have s64: "lcg_affine 64 1979738369 422948032" by (rule lcg_affine_add[OF s32 s32]) simp_all
  have s128: "lcg_affine 128 387043841 3058047360" by (rule lcg_affine_add[OF s64 s64]) simp_all
  have s256: "lcg_affine 256 3194463233 519516928" by (rule lcg_affine_add[OF s128 s128]) simp_all
  have s512: "lcg_affine 512 3722397697 530212352" by (rule lcg_affine_add[OF s256 s256]) simp_all
  have s1024: "lcg_affine 1024 1073647617 2246364160" by (rule lcg_affine_add[OF s512 s512]) simp_all
  have s2048: "lcg_affine 2048 2432507905 646551552" by (rule lcg_affine_add[OF s1024 s1024]) simp_all
  have s3072: "lcg_affine 3072 4076580865 3790496768" by (rule lcg_affine_add[OF s2048 s1024]) simp_all
  have s3584: "lcg_affine 3584 3931830273 698927616" by (rule lcg_affine_add[OF s3072 s512]) simp_all
  show ?thesis by (rule lcg_affine_add[OF s3584 s1]) simp_all
qed

lemma lcg_byte:
  assumes "lcg_affine (Suc i) a c" and "i < n" and "(st * a + c) mod 2 ^ 32 = r"
  shows "lcg_block n st ! i = of_nat (r div 2 ^ 16 mod 256)"
proof -
  let ?x = "(lcg_step ^^ Suc i) st"
  have "?x mod 2 ^ 32 = r" using assms(1,3) by (simp only: lcg_affine_def)
  then have "take_bit 8 (drop_bit 16 (take_bit 32 ?x)) = r div 2 ^ 16 mod 256"
    by (simp add: take_bit_eq_mod drop_bit_eq_div del: funpow.simps)
  moreover have "take_bit 8 (drop_bit 16 (take_bit 32 ?x)) = take_bit 8 (drop_bit 16 ?x)" unfolding drop_bit_take_bit by simp
  ultimately have "?x div 2 ^ 16 mod 256 = r div 2 ^ 16 mod 256"
    by (simp add: take_bit_eq_mod drop_bit_eq_div del: funpow.simps)
  then show ?thesis using lcg_block_nth[OF assms(2), of st] by (simp only:)
qed

lemma lcg_block_3584: "lcg_block 4096 0x12345678 ! 3584 = 0x5A"
proof -
  have "Suc 3584 = 3585" by simp
  then have "lcg_affine (Suc 3584) 2450646637 1718235705" using lcg_affine_3585 by (simp only:)
  from lcg_byte[OF this, of 4096 "0x12345678" 1515901777] show ?thesis by simp
qed

lemma nth_concat_replicate:
  "i < k * length b \<Longrightarrow> concat (replicate k b) ! i = b ! (i mod length b)"
proof (induction k arbitrary: i)
  case (Suc k)
  show ?case
  proof (cases "i < length b")
    case True
    then show ?thesis by (simp add: nth_append)
  next
    case False
    then have "i - length b < k * length b" and "(i - length b) mod length b = i mod length b"
      using Suc.prems by (simp_all add: le_mod_geq)
    with False Suc.IH[of "i - length b"] show ?thesis by (simp add: nth_append)
  qed
qed simp

lemma gpt_body_end:
  assumes "0 < p"
  shows "gpt_body 2048 (2048 + int p * 2048 - 1) ! (p * 1048576 - 512) = 0x5A"
proof -
  obtain q where p: "p = Suc q" using assms by (cases p) auto
  have "nat (256 * int p) = p * 256" by (simp add: nat_mult_distrib)
  then have body: "gpt_body 2048 (2048 + int p * 2048 - 1) = concat (replicate (p * 256) (lcg_block 4096 0x12345678))"
    unfolding gpt_body_def SECTOR_def by simp
  have "p * 1048576 - 512 = 3584 + (q * 256 + 255) * 4096" by (simp add: p)
  then have "(p * 1048576 - 512) mod 4096 = 3584" by (simp only: mod_mult_self1) simp
  moreover have "p * 1048576 - 512 < p * 256 * 4096" using assms by simp
  ultimately show ?thesis
    unfolding body using nth_concat_replicate[of "p * 1048576 - 512" "p * 256" "lcg_block 4096 0x12345678"] lcg_block_3584
    by (simp del: lcg_block.simps)
qed

lemma no_signature:
  assumes "lba * SECTOR < length data" and "data ! (lba * SECTOR) \<noteq> 0x45"
  shows "read_table data lba other = Inl (AssertionError ''no GPT signature'')"
proof -
  let ?h = "py_slice data (lba * SECTOR) ((lba + 1) * SECTOR)"
  have "efi_part ! 0 = 0x45" by (simp add: efi_part_def ascii_def)
  moreover have "py_slice ?h 0 8 ! 0 = data ! (lba * SECTOR)"
    using assms(1) by (simp add: py_slice_def SECTOR_def)
  ultimately have "py_slice ?h 0 8 \<noteq> efi_part" using assms(2) by metis
  then show ?thesis by (simp add: read_table_def assertE_def)
qed

lemma gpt_make_overrun:
  assumes "0 < s" and "s \<le> 2 ^ 21" and "0 < p" and "p \<le> 2 ^ 21" and "s \<le> p + 1"
  shows "\<exists>img. gpt_make sha (int s) (int p) = Inr (img, sha (py_slice img (2048 * SECTOR) ((2048 + p * 2048) * SECTOR))) \<and>
    length img = (p + 1) * 2048 * SECTOR \<and>
    read_table img ((p + 1) * 2048 - 1) other = Inl (AssertionError ''no GPT signature'')"
proof -
  obtain mbr e h1 h2 array where sizes: "length mbr = 512" "length e = 128" "array = e @ replicate (127 * 128) 0"
    and over: "header_over h1 array (s * 2048) 1 (s * 2048 - 1) 2" "header_over h2 array (s * 2048) (s * 2048 - 1) 1 (s * 2048 - 33)"
    and make: "gpt_make sha (int s) (int p) =
      (let img = put_all (replicate (s * 1048576) 0) (gpt_writes s p mbr h1 array h2)
       in Inr (img, sha (py_slice img (2048 * SECTOR) ((2048 + p * 2048) * SECTOR))))"
    by (rule gpt_make_writes[OF assms(1,2,4), of sha])
  define body where "body = gpt_body 2048 (2048 + int p * 2048 - 1)"
  define z where "z = replicate (s * 1048576) (0 :: byte)"
  define ws where "ws = [(0, mbr), (512, h1), (1024, array), ((s * 2048 - 33) * 512, array), ((s * 2048 - 1) * 512, h2)]"
  define img where "img = put_all z (gpt_writes s p mbr h1 array h2)"
  have body: "length body = p * 1048576" using length_gpt_body[of p] by (simp add: body_def SECTOR_def)
  obtain t where t: "s = Suc t" using assms(1) by (cases s) auto
  have "fits (length z) ws"
    using sizes over by (simp add: ws_def z_def put_simps header_over_def t)
  then have five: "length (put_all z ws) = s * 1048576" by (simp add: length_put_all z_def)
  have "img = set_slice (put_all z ws) 1048576 (1048576 + length body) body"
    unfolding img_def gpt_writes_def ws_def[symmetric] body_def[symmetric] by (rule put_all_snoc)
  then have img: "img = take 1048576 (put_all z ws) @ body"
    using five assms(5) body by (simp add: set_slice_def)
  have tk: "length (take 1048576 (put_all z ws)) = 1048576" using five by (simp add: t)
  have len: "length img = (p + 1) * 2048 * SECTOR" unfolding img length_append tk body SECTOR_def by simp
  have at: "((p + 1) * 2048 - 1) * SECTOR = 1048576 + (p * 1048576 - 512)" using assms(3) by (simp add: SECTOR_def diff_mult_distrib)
  have "img ! (((p + 1) * 2048 - 1) * SECTOR) = body ! (p * 1048576 - 512)"
    unfolding img at nth_append tk by simp
  then have "img ! (((p + 1) * 2048 - 1) * SECTOR) \<noteq> 0x45" using gpt_body_end[OF assms(3)] by (simp add: body_def)
  moreover have "((p + 1) * 2048 - 1) * SECTOR < length img" unfolding len by (simp add: SECTOR_def)
  ultimately show ?thesis using make len no_signature unfolding img_def z_def Let_def by blast
qed

text \<open>The used entries of a table whose first entry alone is filled.\<close>

lemma gpt_used_first:
  assumes "length entry = 128" and "py_slice entry 0 16 = LINUX"
  shows "gpt_used (entry @ replicate (127 * 128) 0) 128 128 = [entry]"
proof -
  let ?a = "entry @ replicate (127 * 128) (0 :: byte)"
  have zero: "\<not> (\<exists>b \<in> set (py_slice ?a (i * 128) (i * 128 + 16)). b \<noteq> 0)" if "1 \<le> i" for i
    using assms(1) that by (auto simp: py_slice_def dest!: in_set_takeD in_set_dropD)
  have "py_slice ?a 0 16 = LINUX" using assms by (simp add: py_slice_def)
  moreover have "\<exists>b \<in> set LINUX. b \<noteq> 0" by (simp add: LINUX_bytes)
  ultimately have first: "\<exists>b \<in> set (py_slice ?a (0 * 128) (0 * 128 + 16)). b \<noteq> 0" by simp
  have "[0..<128] = 0 # [1..<128::nat]" by (simp add: upt_conv_Cons)
  moreover have "filter (\<lambda>i. \<exists>b \<in> set (py_slice ?a (i * 128) (i * 128 + 16)). b \<noteq> 0) [1..<128] = []"
    using zero by (intro filter_False) (auto simp del: upt_rec_numeral)
  ultimately have "filter (\<lambda>i. \<exists>b \<in> set (py_slice ?a (i * 128) (i * 128 + 16)). b \<noteq> 0) [0..<128] = [0]"
    using first by (simp only: filter.simps if_True)
  then show ?thesis using assms(1) unfolding gpt_used_def by (simp add: py_slice_def)
qed

lemma gpt_layout_tables:
  assumes "p + 2 \<le> s" and "s \<le> 2 ^ 21"
  shows "\<exists>img array entry. gpt_make sha (int s) (int p) =
        Inr (img, sha (py_slice img (2048 * SECTOR) ((2048 + p * 2048) * SECTOR))) \<and>
      length img = s * 2048 * SECTOR \<and>
      read_table img 1 (s * 2048 - 1) = Inr (array, 128, 128) \<and>
      read_table img (s * 2048 - 1) 1 = Inr (array, 128, 128) \<and>
      gpt_used array 128 128 = [entry] \<and> py_slice entry 0 16 = LINUX \<and>
      unpack_from 8 entry 32 = Inr 2048 \<and> unpack_from 8 entry 40 = Inr (2047 + p * 2048)"
proof -
  obtain img m entry where make: "gpt_make sha (int s) (int p) =
      Inr (img, sha (py_slice img (2048 * SECTOR) ((2048 + p * 2048) * SECTOR)))"
    and lay: "gpt_layout s p img m entry"
    by (rule gpt_make_layout[OF assms])
  define array where "array = entry @ replicate (127 * 128) (0 :: byte)"
  note facts = lay[unfolded gpt_layout_def Let_def, folded array_def]
  have "read_table img 1 (s * 2048 - 1) = Inr (array, 128, 128)"
    by (rule read_table_over[of "py_slice img SECTOR (2 * SECTOR)" _ "s * 2048" _ _ 2])
       (use facts in \<open>simp_all only: mult_1 one_add_one\<close>)
  moreover have "read_table img (s * 2048 - 1) 1 = Inr (array, 128, 128)"
  proof -
    have S: "s * 2048 - 1 + 1 = s * 2048" using assms by simp
    show ?thesis
      by (rule read_table_over[of "py_slice img ((s * 2048 - 1) * SECTOR) (s * 2048 * SECTOR)" _ "s * 2048" _ _
            "s * 2048 - 33"]) (use facts in \<open>simp_all only: S\<close>)
  qed
  moreover have "gpt_used array 128 128 = [entry]"
    unfolding array_def using facts by (intro gpt_used_first) blast+
  moreover have "unpack_from 8 entry 32 = Inr 2048" "unpack_from 8 entry 40 = Inr (2047 + p * 2048)"
    using facts by (simp_all add: unpack_from_def)
  ultimately show ?thesis using make facts by blast
qed

section \<open>Properties\<close>

text \<open>
  C3: for every disk of 1 MiB to 2 TiB and every partition of at most 2 TiB (an empty one on a disk
  of at least 2 MiB), \<^verbatim>\<open>make\<close> returns.  When
  the partition leaves a mebibyte at each end, the image has exactly the requested size, both
  copies of the table pass every check of \<^verbatim>\<open>read_table\<close> and hold the same array, whose only used
  entry is the Linux partition from sector 2048, and the digest printed is that of the
  partition.  When a partition that is not empty does not, nothing refuses it: the image is as
  long as the partition needs, and where the backup header should be, in its last sector, are
  the contents of the partition, which \<^verbatim>\<open>read_table\<close> rejects.
\<close>

theorem gpt_make_tables:
  assumes "s \<le> 2 ^ 21" and "p \<le> 2 ^ 21" and "0 < s" and "0 < p \<or> 2 \<le> s"
  shows "\<exists>img. gpt_make sha (int s) (int p) =
        Inr (img, sha (py_slice img (2048 * SECTOR) ((2048 + p * 2048) * SECTOR))) \<and>
      (if p + 2 \<le> s then
         length img = s * 2048 * SECTOR \<and>
         (\<exists>array entry. read_table img 1 (s * 2048 - 1) = Inr (array, 128, 128) \<and>
            read_table img (s * 2048 - 1) 1 = Inr (array, 128, 128) \<and>
            gpt_used array 128 128 = [entry] \<and> py_slice entry 0 16 = LINUX \<and>
            unpack_from 8 entry 32 = Inr 2048 \<and> unpack_from 8 entry 40 = Inr (2047 + p * 2048))
       else
         length img = (p + 1) * 2048 * SECTOR \<and>
         read_table img ((p + 1) * 2048 - 1) 1 = Inl (AssertionError ''no GPT signature''))"
proof (cases "p + 2 \<le> s")
  case True
  show ?thesis using gpt_layout_tables[OF True assms(1), of sha] True by auto
next
  case False
  then have "0 < p" and "s \<le> p + 1" using assms(4) by auto
  then show ?thesis using gpt_make_overrun[OF assms(3,1) _ assms(2), of sha 1] False by auto
qed

theorem gpt_make_tables_witness:
  "(\<exists>img array entry. gpt_make (\<lambda>_. ''digest'') 4 1 = Inr (img, ''digest'') \<and>
     read_table img 1 8191 = Inr (array, 128, 128) \<and> read_table img 8191 1 = Inr (array, 128, 128) \<and>
     gpt_used array 128 128 = [entry]) \<and>
   (\<exists>img. gpt_make (\<lambda>_. ''digest'') 4 3 = Inr (img, ''digest'') \<and>
     read_table img 8191 1 = Inl (AssertionError ''no GPT signature''))"
  using gpt_make_tables[of 4 1 "\<lambda>_. ''digest''"] gpt_make_tables[of 4 3 "\<lambda>_. ''digest''"] by auto

end
