(* ===== verification/Partition.thy ===== *)
theory Partition
  imports GptDisk
begin

text \<open>
  \<^verbatim>\<open>kernel/src/partition.rs\<close>: the kernel's MBR and GPT discovery over a block device.  The
  device is the parameter \<open>read_sector\<close> (\<^verbatim>\<open>blockdev::read_sector\<close>, \<open>None\<close> for \<^verbatim>\<open>false\<close>).
  The fixed array of entries with its count is the list of the entries filled so far;
  \<^verbatim>\<open>u64\<close> and \<^verbatim>\<open>u32\<close> quantities are \<^typ>\<open>nat\<close> with every checked or saturating operation
  written out.
\<close>

section \<open>Data\<close>

definition MAX_PARTITIONS :: nat where
  "MAX_PARTITIONS = 16"

definition MAX_GPT_ENTRIES :: nat where
  "MAX_GPT_ENTRIES = 128"

definition MAX_GPT_ENTRY_SIZE :: nat where
  "MAX_GPT_ENTRY_SIZE = 512"

record partition =
  first_lba :: nat
  sectors :: nat
  kind :: byte
  bootable :: bool

definition end_lba :: "partition \<Rightarrow> nat" where
  "end_lba p = first_lba p + sectors p"

definition fat_candidate :: "partition \<Rightarrow> bool" where
  "fat_candidate p \<longleftrightarrow> kind p \<in> {0x01, 0x04, 0x06, 0x0b, 0x0c, 0x0e, 0xef}"

record report =
  mbr :: bool
  gpt :: bool
  protective :: bool
  fat_candidates :: nat
  bootables :: nat
  r_first_lba :: nat
  covered_sectors :: nat
  verified :: bool
  entries :: "partition list"

definition EMPTY :: report where
  "EMPTY = \<lparr>mbr = False, gpt = False, protective = False, fat_candidates = 0, bootables = 0,
     r_first_lba = 0, covered_sectors = 0, verified = False, entries = []\<rparr>"

section \<open>CRC-32 and field access\<close>

definition crc32_byte :: "32 word \<Rightarrow> byte \<Rightarrow> 32 word" where
  "crc32_byte value b =
     ((\<lambda>v. (drop_bit 1 v) XOR (0xedb88320 AND (0 - (v AND 1)))) ^^ 8) (value XOR ucast b)"

definition crc32_update :: "32 word \<Rightarrow> bytes \<Rightarrow> 32 word" where
  "crc32_update value bs = foldl crc32_byte value bs"

definition crc32_zeroed :: "bytes \<Rightarrow> nat \<Rightarrow> nat \<Rightarrow> 32 word" where
  "crc32_zeroed bs zero_offset zero_length =
     NOT (foldl (\<lambda>value (index, b). crc32_byte value
            (if zero_offset \<le> index \<and> index < zero_offset + zero_length then 0 else b))
          (NOT 0) (enumerate 0 bs))"

definition read_u32 :: "bytes \<Rightarrow> nat \<Rightarrow> nat" where
  "read_u32 bs offset = le_val [bs ! offset, bs ! (offset + 1), bs ! (offset + 2), bs ! (offset + 3)]"

definition read_u64 :: "bytes \<Rightarrow> nat \<Rightarrow> nat" where
  "read_u64 bs offset =
     le_val [bs ! offset, bs ! (offset + 1), bs ! (offset + 2), bs ! (offset + 3),
             bs ! (offset + 4), bs ! (offset + 5), bs ! (offset + 6), bs ! (offset + 7)]"

definition is_swap_guid :: "bytes \<Rightarrow> bool" where
  "is_swap_guid bs \<longleftrightarrow> bs =
     [0x6d, 0xfd, 0x57, 0x06, 0xab, 0xa4, 0xc4, 0x43, 0x84, 0xe5, 0x09, 0x33, 0xc8, 0x4b, 0x4f, 0x4f]"

definition is_efi_system_guid :: "bytes \<Rightarrow> bool" where
  "is_efi_system_guid bs \<longleftrightarrow> bs =
     [0x28, 0x73, 0x2a, 0xc1, 0x1f, 0xf8, 0xd2, 0x11, 0xba, 0x4b, 0x00, 0xa0, 0xc9, 0x3e, 0xc9, 0x3b]"

section \<open>Collecting partitions\<close>

definition push :: "report \<Rightarrow> partition \<Rightarrow> bool \<times> report" where
  "push r p =
     (if length (entries r) = MAX_PARTITIONS then (False, r)
      else (True, r\<lparr>
        r_first_lba := (if entries r = [] then first_lba p else min (r_first_lba r) (first_lba p)),
        fat_candidates := fat_candidates r + (if fat_candidate p then 1 else 0),
        bootables := bootables r + (if bootable p then 1 else 0),
        covered_sectors := min (2 ^ 64 - 1) (covered_sectors r + sectors p),
        entries := entries r @ [p]\<rparr>))"

fun validate_from :: "partition list \<Rightarrow> nat \<Rightarrow> bool" where
  "validate_from [] disk_sectors = True"
| "validate_from (p # ps) disk_sectors =
     (if sectors p = 0 \<or> disk_sectors < end_lba p then False
      else if \<exists>q \<in> set ps. first_lba p < end_lba q \<and> first_lba q < end_lba p then False
      else validate_from ps disk_sectors)"

definition validate :: "report \<Rightarrow> nat \<Rightarrow> bool" where
  "validate r disk_sectors = validate_from (entries r) disk_sectors"

text \<open>
  The loops return early with the report built so far: \<open>Inl\<close> is such a return, \<open>Inr\<close> the
  report the loop goes on with.
\<close>

definition mbr_step :: "bytes \<Rightarrow> nat \<Rightarrow> report \<Rightarrow> nat \<Rightarrow> report + report" where
  "mbr_step sector disk_sectors r index =
     (let offset = 446 + index * 16;
          status = sector ! offset;
          k = sector ! (offset + 4)
      in if k = 0 then Inr r
         else if status \<noteq> 0 \<and> status \<noteq> 0x80 then Inl r
         else let first = read_u32 sector (offset + 8);
                  n = read_u32 sector (offset + 12)
              in if first = 0 \<or> n = 0 \<or> 2 ^ 64 \<le> first + n \<or> disk_sectors < first + n then Inl r
                 else let (ok, r') = push r \<lparr>first_lba = first, sectors = n, kind = k, bootable = (status = 0x80)\<rparr>
                      in if ok then Inr r' else Inl r)"

definition gpt_step ::
  "(nat \<Rightarrow> bytes option) \<Rightarrow> nat \<Rightarrow> nat \<Rightarrow> nat \<Rightarrow> nat \<Rightarrow> report \<Rightarrow> nat \<Rightarrow> report + report" where
  "gpt_step read_sector first_usable last_usable entry_lba entry_size r index =
     (let byte_offset = index * entry_size;
          lba = entry_lba + byte_offset div 512;
          within = byte_offset mod 512
      in if 512 < within + entry_size then Inl r
         else case read_sector lba of
           None \<Rightarrow> Inl r
         | Some entry_sector \<Rightarrow>
             let entry = py_slice entry_sector within (within + entry_size)
             in if \<forall>b \<in> set (py_slice entry 0 16). b = 0 then Inr r
                else let first = read_u64 entry 32;
                         last_lba = read_u64 entry 40
                     in if first < first_usable \<or> last_usable < last_lba \<or> last_lba < first then Inl r
                        else let k = (if is_efi_system_guid (py_slice entry 0 16) then 0xef
                                      else if is_swap_guid (py_slice entry 0 16) then 0x82 else 0xff);
                                 (ok, r') = push r \<lparr>first_lba = first, sectors = last_lba - first + 1,
                                                    kind = k, bootable = False\<rparr>
                             in if ok then Inr r' else Inl r)"

text \<open>The CRC of the table, sector by sector; \<open>None\<close> when a read fails.\<close>

fun entries_crc :: "(nat \<Rightarrow> bytes option) \<Rightarrow> nat \<Rightarrow> nat list \<Rightarrow> nat \<Rightarrow> 32 word \<Rightarrow> 32 word option" where
  "entries_crc read_sector entry_lba [] remaining crc = Some crc"
| "entries_crc read_sector entry_lba (i # is) remaining crc =
     (case read_sector (entry_lba + i) of
        None \<Rightarrow> None
      | Some s \<Rightarrow>
          let count = min remaining 512
          in entries_crc read_sector entry_lba is (remaining - count) (crc32_update crc (take count s)))"

definition inspect_gpt :: "(nat \<Rightarrow> bytes option) \<Rightarrow> nat \<Rightarrow> report" where
  "inspect_gpt read_sector disk_sectors =
     (let r = EMPTY\<lparr>gpt := True\<rparr>
      in case read_sector 1 of
           None \<Rightarrow> r
         | Some header \<Rightarrow>
      if py_slice header 0 8 \<noteq> efi_part then r else
      (let header_size = read_u32 header 12;
           stored_header_crc = read_u32 header 16
       in if \<not> (92 \<le> header_size \<and> header_size \<le> 512) \<or> read_u64 header 24 \<noteq> 1
             \<or> disk_sectors \<le> read_u64 header 32
             \<or> unat (crc32_zeroed (take header_size header) 16 4) \<noteq> stored_header_crc
          then r
          else
       (let first_usable = read_u64 header 40;
            last_usable = read_u64 header 48;
            entry_lba = read_u64 header 72;
            entry_count = read_u32 header 80;
            entry_size = read_u32 header 84;
            stored_entries_crc = read_u32 header 88
        in if last_usable < first_usable \<or> disk_sectors \<le> last_usable \<or> entry_count = 0
              \<or> MAX_GPT_ENTRIES < entry_count
              \<or> \<not> (128 \<le> entry_size \<and> entry_size \<le> MAX_GPT_ENTRY_SIZE) \<or> entry_size mod 8 \<noteq> 0
           then r
           else if 2 ^ 32 \<le> entry_count * entry_size then r
           else
        (let total_bytes = entry_count * entry_size;
             n = (total_bytes + 511) div 512
         in if 2 ^ 64 \<le> entry_lba + n \<or> disk_sectors < entry_lba + n then r
            else case entries_crc read_sector entry_lba [0..<n] total_bytes (NOT 0) of
              None \<Rightarrow> r
            | Some crc \<Rightarrow>
                if unat (NOT crc) \<noteq> stored_entries_crc then r
                else case foldE (gpt_step read_sector first_usable last_usable entry_lba entry_size) r
                            [0..<entry_count] of
                  Inl r' \<Rightarrow> r'
                | Inr r' \<Rightarrow> r'\<lparr>verified := entries r' \<noteq> [] \<and> validate r' disk_sectors\<rparr>))))"

definition inspect :: "(nat \<Rightarrow> bytes option) \<Rightarrow> nat \<Rightarrow> report" where
  "inspect read_sector disk_sectors =
     (if disk_sectors < 2 then EMPTY
      else case read_sector 0 of
        None \<Rightarrow> EMPTY
      | Some sector \<Rightarrow>
          if \<not> (sector ! 510 = 0x55 \<and> sector ! 511 = 0xaa) then EMPTY
          else if \<exists>index \<in> {0, 1, 2, 3 :: nat}. sector ! (446 + index * 16 + 4) = 0xee then
            (inspect_gpt read_sector disk_sectors)\<lparr>mbr := True, protective := True\<rparr>
          else case foldE (mbr_step sector disk_sectors) (EMPTY\<lparr>mbr := True\<rparr>) [0..<4] of
            Inl r \<Rightarrow> r
          | Inr r \<Rightarrow> r\<lparr>verified := entries r \<noteq> [] \<and> validate r disk_sectors\<rparr>)"


section \<open>The kernel's CRC is zlib's\<close>

lemma crc_step_eq: "(drop_bit 1 v) XOR (0xedb88320 AND (0 - (v AND 1))) = crc_bit (v :: 32 word)"
proof -
  have "v AND 1 = of_bool (bit v 0)" by (simp add: and_one_eq bit_0 mod_2_eq_odd)
  then show ?thesis by (simp add: crc_bit_def)
qed

lemma crc32_byte_eq: "crc32_byte = crc_feed"
  by (intro ext) (simp only: crc32_byte_def crc_feed_def crc_step_eq)

lemma crc32_update_eq: "NOT (crc32_update (NOT 0) bs) = crc32 bs"
  by (simp add: crc32_update_def crc32_def crc32_byte_eq)

lemma crc32_update_append: "crc32_update v (xs @ ys) = crc32_update (crc32_update v xs) ys"
  by (simp add: crc32_update_def)

lemma crc32_zeroed_eq:
  assumes "o1 + n \<le> length bs"
  shows "crc32_zeroed bs o1 n = crc32 (set_slice bs o1 (o1 + n) (replicate n 0))"
proof -
  let ?z = "\<lambda>(i, b). if o1 \<le> i \<and> i < o1 + n then 0 else b"
  have "map ?z (enumerate 0 bs) = set_slice bs o1 (o1 + n) (replicate n 0)"
    using assms by (intro nth_equalityI) (auto simp: nth_enumerate_eq nth_set_slice)
  moreover have "foldl (\<lambda>value (i, b). crc32_byte value (if o1 \<le> i \<and> i < o1 + n then 0 else b)) v xs
      = foldl crc32_byte v (map ?z xs)" for v xs
    by (induction xs arbitrary: v) auto
  ultimately show ?thesis
    by (simp add: crc32_zeroed_def crc32_def crc32_byte_eq)
qed

lemma read_u32_eq: "offset + 4 \<le> length bs \<Longrightarrow> read_u32 bs offset = le_val (py_slice bs offset (offset + 4))"
  unfolding read_u32_def
  by (rule arg_cong[where f = le_val], rule nth_equalityI)
     (auto simp: slice_simps less_Suc_eq numeral_eq_Suc)

lemma read_u64_eq: "offset + 8 \<le> length bs \<Longrightarrow> read_u64 bs offset = le_val (py_slice bs offset (offset + 8))"
  unfolding read_u64_def
  by (rule arg_cong[where f = le_val], rule nth_equalityI)
     (auto simp: slice_simps less_Suc_eq numeral_eq_Suc)

section \<open>What a report holds, whatever the disk holds\<close>

text \<open>
  The counters of a report against its entries, and what \<^verbatim>\<open>verified\<close> promises: every
  partition lies on the disk and no two overlap.
\<close>

definition report_consistent :: "report \<Rightarrow> bool" where
  "report_consistent r \<longleftrightarrow>
     length (entries r) \<le> MAX_PARTITIONS \<and>
     fat_candidates r = length (filter fat_candidate (entries r)) \<and>
     bootables r = length (filter bootable (entries r)) \<and>
     covered_sectors r = min (2 ^ 64 - 1) (sum_list (map sectors (entries r))) \<and>
     (entries r \<noteq> [] \<longrightarrow> r_first_lba r = Min (set (map first_lba (entries r))))"

definition disjoint_parts :: "partition list \<Rightarrow> bool" where
  "disjoint_parts ps \<longleftrightarrow>
     (\<forall>i j. i < j \<and> j < length ps \<longrightarrow> end_lba (ps ! i) \<le> first_lba (ps ! j) \<or> end_lba (ps ! j) \<le> first_lba (ps ! i))"

lemma report_consistent_EMPTY: "report_consistent EMPTY"
  by (simp add: report_consistent_def EMPTY_def)

lemma report_consistent_flags [simp]:
  "report_consistent (r\<lparr>mbr := a\<rparr>) = report_consistent r"
  "report_consistent (r\<lparr>gpt := a\<rparr>) = report_consistent r"
  "report_consistent (r\<lparr>protective := a\<rparr>) = report_consistent r"
  "report_consistent (r\<lparr>verified := a\<rparr>) = report_consistent r"
  by (simp_all add: report_consistent_def)

lemma push_consistent:
  assumes "report_consistent r" and "push r p = (ok, r')"
  shows "report_consistent r'"
proof (cases "length (entries r) = MAX_PARTITIONS")
  case True
  with assms show ?thesis by (simp add: push_def)
next
  case False
  have "Min (set (map first_lba (entries r @ [p]))) = min (Min (set (map first_lba (entries r)))) (first_lba p)"
    if "entries r \<noteq> []"
    using that by (simp add: min.commute)
  moreover have "min m (min m a + b) = min m (a + b)" for m a b :: nat by auto
  ultimately show ?thesis
    using False assms by (auto simp: push_def report_consistent_def)
qed

lemma mbr_step_push:
  "mbr_step sec d r i = Inr r' \<or> mbr_step sec d r i = Inl r' \<Longrightarrow> r' = r \<or> (\<exists>p ok. push r p = (ok, r'))"
  by (auto simp: mbr_step_def Let_def split: if_splits prod.splits)

lemma gpt_step_push:
  "gpt_step rs fu lu el es r i = Inr r' \<or> gpt_step rs fu lu el es r i = Inl r' \<Longrightarrow>
     r' = r \<or> (\<exists>p ok. push r p = (ok, r'))"
  by (auto simp: gpt_step_def Let_def split: if_splits prod.splits option.splits)

lemma validate_from_Cons:
  "validate_from (p # ps) d \<longleftrightarrow> 0 < sectors p \<and> end_lba p \<le> d \<and>
     (\<forall>q \<in> set ps. end_lba q \<le> first_lba p \<or> end_lba p \<le> first_lba q) \<and> validate_from ps d"
  by (auto simp: not_less dest: bspec leD)

lemma disjoint_parts_Cons:
  assumes "\<forall>q \<in> set ps. end_lba q \<le> first_lba p \<or> end_lba p \<le> first_lba q" and "disjoint_parts ps"
  shows "disjoint_parts (p # ps)"
  unfolding disjoint_parts_def
proof (intro allI impI, elim conjE)
  fix i j
  assume "i < j" and "j < length (p # ps)"
  then obtain j' where j: "j = Suc j'" "j' < length ps" by (cases j) auto
  show "end_lba ((p # ps) ! i) \<le> first_lba ((p # ps) ! j) \<or>
      end_lba ((p # ps) ! j) \<le> first_lba ((p # ps) ! i)"
  proof (cases i)
    case 0
    have "ps ! j' \<in> set ps" using j by simp
    with assms(1) 0 j show ?thesis by auto
  next
    case (Suc i')
    with assms(2) j \<open>i < j\<close> show ?thesis by (simp add: disjoint_parts_def)
  qed
qed

lemma validate_from_sound:
  "validate_from ps d \<Longrightarrow> (\<forall>p \<in> set ps. 0 < sectors p \<and> end_lba p \<le> d) \<and> disjoint_parts ps"
proof (induction ps)
  case Nil
  then show ?case by (simp add: disjoint_parts_def)
next
  case (Cons p ps)
  then show ?case by (simp only: validate_from_Cons) (simp add: disjoint_parts_Cons)
qed

definition report_safe :: "nat \<Rightarrow> report \<Rightarrow> bool" where
  "report_safe d r \<longleftrightarrow> report_consistent r \<and>
     (verified r \<longrightarrow> entries r \<noteq> [] \<and> (\<forall>p \<in> set (entries r). 0 < sectors p \<and> end_lba p \<le> d) \<and>
        disjoint_parts (entries r))"

lemma report_safe_unverified: "report_consistent r \<Longrightarrow> \<not> verified r \<Longrightarrow> report_safe d r"
  by (simp add: report_safe_def)

lemma report_safe_validated:
  "report_consistent r \<Longrightarrow> report_safe d (r\<lparr>verified := entries r \<noteq> [] \<and> validate r d\<rparr>)"
  using validate_from_sound by (auto simp: report_safe_def validate_def)

lemma push_unverified: "push r p = (ok, r') \<Longrightarrow> verified r' = verified r"
  by (auto simp: push_def split: if_splits)

abbreviation pending :: "report \<Rightarrow> bool" where
  "pending r \<equiv> report_consistent r \<and> \<not> verified r"

lemma push_pending: "pending r \<Longrightarrow> r' = r \<or> (\<exists>p ok. push r p = (ok, r')) \<Longrightarrow> pending r'"
  using push_consistent push_unverified by blast

lemma fold_pending:
  assumes "pending r" and "\<And>s x t. f s x = Inr t \<or> f s x = Inl t \<Longrightarrow> t = s \<or> (\<exists>p ok. push s p = (ok, t))"
  shows "case foldE f r xs of Inl r' \<Rightarrow> pending r' | Inr r' \<Rightarrow> pending r'"
proof (rule foldE_both[where P = pending and Q = pending, OF assms(1)])
  fix s x t
  assume s: "pending s" and "f s x = Inr t"
  then show "pending t" using push_pending[OF s, of t] assms(2)[of s x t] by simp
next
  fix s x t
  assume s: "pending s" and "f s x = Inl t"
  then show "pending t" using push_pending[OF s, of t] assms(2)[of s x t] by simp
qed

lemma EMPTY_pending: "pending EMPTY"
  using report_consistent_EMPTY by (simp add: EMPTY_def)

lemma finish_safe:
  assumes "case x of Inl r \<Rightarrow> pending r | Inr r \<Rightarrow> pending r"
  shows "report_safe d (case x of Inl r \<Rightarrow> r | Inr r \<Rightarrow> r\<lparr>verified := entries r \<noteq> [] \<and> validate r d\<rparr>)"
  using assms report_safe_validated report_safe_unverified by (auto split: sum.splits)

lemma gpt_start_safe: "pending (EMPTY\<lparr>gpt := True\<rparr>)" "report_safe d (EMPTY\<lparr>gpt := True\<rparr>)"
  using EMPTY_pending by (simp_all add: report_safe_def)

lemma inspect_gpt_safe: "report_safe d (inspect_gpt rs d)"
proof -
  have "report_safe d (case foldE (gpt_step rs fu lu el es) (EMPTY\<lparr>gpt := True\<rparr>) is of
      Inl r \<Rightarrow> r | Inr r \<Rightarrow> r\<lparr>verified := entries r \<noteq> [] \<and> validate r d\<rparr>)" for fu lu el es "is"
    by (rule finish_safe, rule fold_pending[OF gpt_start_safe(1) gpt_step_push])
  then show ?thesis
    using gpt_start_safe(2) unfolding inspect_gpt_def Let_def by (auto split: option.splits)
qed

lemma report_safe_flags [simp]:
  "report_safe d (r\<lparr>mbr := a\<rparr>) = report_safe d r" "report_safe d (r\<lparr>protective := a\<rparr>) = report_safe d r"
  by (simp_all add: report_safe_def)

lemma inspect_report_safe: "report_safe d (inspect rs d)"
proof -
  have "report_safe d (case foldE (mbr_step sec d) (EMPTY\<lparr>mbr := True\<rparr>) is of
      Inl r \<Rightarrow> r | Inr r \<Rightarrow> r\<lparr>verified := entries r \<noteq> [] \<and> validate r d\<rparr>)" for sec "is"
    using EMPTY_pending by (intro finish_safe fold_pending mbr_step_push) simp
  moreover have "report_safe d EMPTY"
    using EMPTY_pending by (simp add: report_safe_def)
  ultimately show ?thesis
    unfolding inspect_def Let_def by (auto split: option.splits simp: inspect_gpt_safe)
qed

section \<open>Images of the disk tool\<close>

text \<open>The block device over an image: sectors of 512 bytes, reads past the end fail.\<close>

definition image_device :: "bytes \<Rightarrow> nat \<Rightarrow> bytes option" where
  "image_device img lba =
     (if (lba + 1) * 512 \<le> length img then Some (py_slice img (lba * 512) ((lba + 1) * 512)) else None)"

lemma entries_crc_all:
  assumes "\<And>i. i < n \<Longrightarrow> rs (el + i) = Some (py_slice A (i * 512) ((i + 1) * 512))"
    and "length A = n * 512" and "k \<le> n"
  shows "entries_crc rs el [k..<n] ((n - k) * 512) v = Some (crc32_update v (drop (k * 512) A))"
  using assms(3)
proof (induction "n - k" arbitrary: k v)
  case 0
  then show ?case using assms(2) by (simp add: crc32_update_def)
next
  case (Suc d)
  then have k: "k < n" by simp
  let ?s = "py_slice A (k * 512) ((k + 1) * 512)"
  have "(n - k) * 512 = 512 + (n - Suc k) * 512" using k by (simp add: diff_mult_distrib)
  moreover have len: "length ?s = 512" proof -
    have "(k + 1) * 512 \<le> n * 512" using k by (intro mult_le_mono1) simp
    then show ?thesis using assms(2) by (simp add: length_py_slice)
  qed
  moreover have "?s @ drop (Suc k * 512) A = drop (k * 512) A"
    by (simp add: py_slice_def flip: drop_drop)
  then have "crc32_update v (drop (k * 512) A) = crc32_update (crc32_update v ?s) (drop (Suc k * 512) A)"
    by (metis crc32_update_append)
  moreover have "entries_crc rs el [Suc k..<n] ((n - Suc k) * 512) w = Some (crc32_update w (drop (Suc k * 512) A))" for w
    using Suc by simp
  ultimately show ?case
    using k assms(1)[OF k] by (simp add: upt_conv_Cons Let_def)
qed


lemma image_device_table:
  assumes "py_slice img (2 * SECTOR) (2 * SECTOR + 128 * 128) = array" and "17408 \<le> length img" and "i < 32"
  shows "image_device img (2 + i) = Some (py_slice array (i * 512) ((i + 1) * 512))"
proof -
  have "py_slice array (i * 512) ((i + 1) * 512) = py_slice img (1024 + i * 512) (1024 + (i + 1) * 512)"
    unfolding assms(1)[symmetric] SECTOR_def using assms(3) by (simp add: py_slice_within)
  then show ?thesis using assms(2,3) by (simp add: image_device_def algebra_simps)
qed

lemma gpt_step_unused:
  assumes "rs (el + i * 128 div 512) = Some s"
    and "py_slice s (i * 128 mod 512) (i * 128 mod 512 + 128) = replicate 128 0"
  shows "gpt_step rs fu lu el 128 r i = Inr r"
proof -
  have "i * 128 mod 512 + 128 \<le> 512"
  proof -
    have "i * 128 mod 512 = i mod 4 * 128" using mult_mod_right[of 128 i 4] by (simp add: mult.commute)
    moreover have "i mod 4 < 4" by simp
    ultimately show ?thesis by linarith
  qed
  moreover have "\<forall>b \<in> set (py_slice (replicate 128 (0 :: byte)) 0 16). b = 0" by (simp add: py_slice_def)
  ultimately show ?thesis using assms by (simp add: gpt_step_def Let_def)
qed

lemma gpt_step_table:
  assumes img: "py_slice img (2 * SECTOR) (2 * SECTOR + 128 * 128) = array" "17408 \<le> length img"
    and array: "array = entry @ replicate (127 * 128) 0" "length entry = 128" and i: "i < 128"
  defines "s \<equiv> py_slice array (i * 128 div 512 * 512) ((i * 128 div 512 + 1) * 512)"
  shows "image_device img (2 + i * 128 div 512) = Some s"
    and "py_slice s (i * 128 mod 512) (i * 128 mod 512 + 128) = (if i = 0 then entry else replicate 128 0)"
proof -
  show "image_device img (2 + i * 128 div 512) = Some s"
    unfolding s_def using img i by (intro image_device_table) auto
  have "i * 128 mod 512 = i mod 4 * 128" using mult_mod_right[of 128 i 4] by (simp add: mult.commute)
  moreover have "i mod 4 < 4" by simp
  ultimately have "i * 128 mod 512 + 128 \<le> 512" by linarith
  moreover have "i * 128 div 512 * 512 + i * 128 mod 512 = i * 128" by (rule div_mult_mod_eq)
  ultimately have "py_slice s (i * 128 mod 512) (i * 128 mod 512 + 128) = py_slice array (i * 128) (i * 128 + 128)"
    unfolding s_def by (subst py_slice_within) (simp_all add: add.assoc[symmetric])
  also have "\<dots> = (if i = 0 then entry else replicate 128 0)"
    using array i by (auto simp: py_slice_def intro!: nth_equalityI)
  finally show "py_slice s (i * 128 mod 512) (i * 128 mod 512 + 128) = (if i = 0 then entry else replicate 128 0)" .
qed


text \<open>The entries loop over a table whose first entry alone is used.\<close>

lemma gpt_fold_table:
  assumes img: "py_slice img (2 * SECTOR) (2 * SECTOR + 128 * 128) = array" "17408 \<le> length img"
    and array: "array = entry @ replicate (127 * 128) 0" "length entry = 128"
    and entry: "py_slice entry 0 16 = LINUX" "le_val (py_slice entry 32 40) = f"
      "le_val (py_slice entry 40 48) = l" and bounds: "fu \<le> f" "l \<le> lu" "f \<le> l" "l < 2 ^ 63"
  shows "foldE (gpt_step (image_device img) fu lu 2 128) (EMPTY\<lparr>gpt := True\<rparr>) [0..<128] =
    Inr (EMPTY\<lparr>gpt := True, r_first_lba := f, covered_sectors := l - f + 1,
      entries := [\<lparr>first_lba = f, sectors = l - f + 1, kind = 0xff, bootable = False\<rparr>]\<rparr>)"
    (is "foldE ?step _ _ = Inr ?r")
proof -
  note tab = gpt_step_table[OF img array]
  have "?step r i = Inr r" if "i \<in> set [1..<128]" for r i
    using that tab[of i] by (intro gpt_step_unused) auto
  then have rest: "foldE ?step ?r [1..<128] = Inr ?r" by (intro foldE_idle) blast
  have rd: "read_u64 entry 32 = f" "read_u64 entry 40 = l" using entry array(2) by (simp_all add: read_u64_eq)
  have used: "\<not> (\<forall>b \<in> set LINUX. b = 0)" and no: "\<not> is_efi_system_guid LINUX" "\<not> is_swap_guid LINUX"
    by (simp_all add: LINUX_bytes is_efi_system_guid_def is_swap_guid_def)
  have "?step (EMPTY\<lparr>gpt := True\<rparr>) 0 = Inr ?r"
    using tab[of 0] used no bounds entry(1) rd
    by (simp add: gpt_step_def Let_def push_def EMPTY_def MAX_PARTITIONS_def fat_candidate_def
        del: add_2_eq_Suc add_2_eq_Suc')
  moreover have "[0..<128] = 0 # [1..<128::nat]" by (simp add: upt_conv_Cons)
  ultimately show ?thesis using rest by (simp del: upt_rec_numeral)
qed

text \<open>A header the tool writes, as the kernel reads its fields.\<close>

lemma header_over_kernel:
  assumes "header_over h array n here other al"
  shows "py_slice h 0 8 = efi_part" "read_u32 h 12 = 92" "read_u64 h 24 = here" "read_u64 h 32 = other"
    "read_u64 h 40 = 34" "read_u64 h 48 = n - 34" "read_u64 h 72 = al" "read_u32 h 80 = 128"
    "read_u32 h 84 = 128" "read_u32 h 88 = gpt_crc array"
    "unat (crc32_zeroed (take 92 h) 16 4) = read_u32 h 16"
  using assms
  by (simp_all add: header_over_def read_u32_eq read_u64_eq crc32_zeroed_eq gpt_crc_def py_slice_def)


text \<open>The report the kernel builds from an image laid out by the tool.\<close>

definition gpt_image_report :: "nat \<Rightarrow> report" where
  "gpt_image_report p =
     \<lparr>mbr = True, gpt = True, protective = True, fat_candidates = 0, bootables = 0,
      r_first_lba = 2048, covered_sectors = p * 2048, verified = True,
      entries = [\<lparr>first_lba = 2048, sectors = p * 2048, kind = 0xff, bootable = False\<rparr>]\<rparr>"

lemma inspect_gpt_layout:
  assumes "gpt_layout s p img m entry" and "0 < p" and "p + 2 \<le> s" and "s \<le> 2 ^ 21"
  shows "inspect_gpt (image_device img) (s * 2048) = (gpt_image_report p)\<lparr>mbr := False, protective := False\<rparr>"
proof -
  define array where "array = entry @ replicate (127 * 128) (0 :: byte)"
  let ?h = "py_slice img SECTOR (2 * SECTOR)"
  have len: "17408 \<le> length img" and e: "length entry = 128" "py_slice entry 0 16 = LINUX"
      "le_val (py_slice entry 32 40) = 2048" "le_val (py_slice entry 40 48) = 2047 + p * 2048"
    and h: "header_over ?h array (s * 2048) 1 (s * 2048 - 1) 2"
    and tab: "py_slice img (2 * SECTOR) (2 * SECTOR + 128 * 128) = array"
    using assms unfolding gpt_layout_def Let_def array_def[symmetric] by (auto simp: SECTOR_def)
  have dev: "image_device img 1 = Some ?h" using len by (simp add: image_device_def SECTOR_def)
  have alen: "length array = 32 * 512" using e by (simp add: array_def)
  have crc: "entries_crc (image_device img) 2 [0..<32] 16384 (NOT 0) = Some (crc32_update (NOT 0) array)"
    using entries_crc_all[of 32 "image_device img" 2 array 0] image_device_table[OF tab len] alen by simp
  have "\<not> s * 2048 - 34 < 34" "34 \<le> s * 2048" "2047 + p * 2048 \<le> s * 2048 - 34" "2047 + p * 2048 < 2 ^ 63"
    "s * 2048 - 34 < s * 2048" "s * 2048 - Suc 0 < s * 2048" using assms(2-4) by auto
  note room = this and fold = gpt_fold_table[OF tab len array_def e _ this(3) _ this(4), of 34]
  show ?thesis
    unfolding inspect_gpt_def Let_def dev option.case header_over_kernel[OF h]
    using fold crc crc32_update_eq[of array] assms(2-4) room(1,5,6)
    by (simp add: gpt_crc_def MAX_GPT_ENTRIES_def MAX_GPT_ENTRY_SIZE_def gpt_image_report_def EMPTY_def
        validate_def end_lba_def not_le del: upt_rec_numeral)
qed

lemma inspect_gpt_image:
  assumes "gpt_layout s p img m entry" and "0 < p" and "p + 2 \<le> s" and "s \<le> 2 ^ 21"
  shows "inspect (image_device img) (s * 2048) = gpt_image_report p"
proof -
  have "image_device img 0 = Some m" "m ! 450 = 0xEE" "m ! 510 = 0x55" "m ! 511 = 0xaa"
    using assms unfolding gpt_layout_def Let_def by (auto simp: image_device_def SECTOR_def)
  then show ?thesis
    using inspect_gpt_layout[OF assms] assms by (simp add: inspect_def gpt_image_report_def)
qed

section \<open>Properties\<close>

text \<open>
  C2: whatever the disk holds, a report the kernel marks verified has at least one and at
  most sixteen partitions, each non-empty and inside the disk, no two overlapping, and its
  counters and extent agree with its entries even when it is not verified.
\<close>

theorem inspect_safe:
  "report_safe disk_sectors (inspect read_sector disk_sectors)"
  by (rule inspect_report_safe)

text \<open>
  C4: the kernel's checksum over a header with its checksum field blanked is \<^verbatim>\<open>zlib\<close>'s
  CRC-32 of the header with zeros in that field, which is what the disk tool stores.
\<close>

theorem kernel_crc_is_zlib:
  assumes "offset + n \<le> length header"
  shows "crc32_zeroed header offset n = crc32 (set_slice header offset (offset + n) (replicate n 0))"
  by (rule crc32_zeroed_eq[OF assms])

theorem kernel_crc_is_zlib_witness:
  "crc32_zeroed [1, 2, 3, 4] 1 2 = crc32 [1, 0, 0, 4]"
  using kernel_crc_is_zlib[of 1 2 "[1, 2, 3, 4]"] by (simp add: set_slice_def numeral_2_eq_2)

end
