(* ===== verification/Fractions.thy ===== *)
theory Fractions
  imports Complex_Main PyText
begin

text \<open>
  \<^verbatim>\<open>fractions.py\<close> of the Python runtime the system ships: exact rational arithmetic.  A
  \<^verbatim>\<open>Fraction\<close> is the record of its two slots.  Python's \<^verbatim>\<open>//\<close> and \<^verbatim>\<open>%\<close> on integers are \<open>div\<close>
  and \<open>mod\<close> of \<^typ>\<open>int\<close>.  A float or \<^verbatim>\<open>Decimal\<close> argument is the pair its \<^verbatim>\<open>as_integer_ratio\<close>
  returns, a text argument the groups its regular expression matched.
\<close>

section \<open>Construction\<close>

record fraction =
  numerator :: int
  denominator :: int

record rational_match =
  m_sign :: string
  m_num :: string
  m_denom :: "string option"
  m_decimal :: "string option"
  m_exp :: "string option"

datatype frac_arg =
    AInt int
  | ARational fraction
  | ARatio int int
  | AStr "rational_match option"

definition from_coprime_ints :: "int \<Rightarrow> int \<Rightarrow> fraction" where
  "from_coprime_ints n d = \<lparr>numerator = n, denominator = d\<rparr>"

text \<open>\<^verbatim>\<open>int(text)\<close> on the digit groups of the pattern: digits, underscores, for the exponent a sign.\<close>

definition group_nat :: "string \<Rightarrow> int" where
  "group_nat s = (case parse_base 10 (filter (\<lambda>c. c \<noteq> CHR ''_'') s) of None \<Rightarrow> 0 | Some n \<Rightarrow> int n)"

definition group_int :: "string \<Rightarrow> int" where
  "group_int s =
     (case s of
        c # cs \<Rightarrow> if c = CHR ''-'' then - group_nat cs else if c = CHR ''+'' then group_nat cs else group_nat s
      | [] \<Rightarrow> 0)"

definition ratio_of_match :: "rational_match \<Rightarrow> int \<times> int" where
  "ratio_of_match m =
     (let n0 = group_nat (if m_num m = [] then ''0'' else m_num m);
          (n, d) =
            (case m_denom m of
               Some (c # cs) \<Rightarrow> (n0, group_nat (c # cs))
             | _ \<Rightarrow>
                 let (n1, d1) =
                       (case m_decimal m of
                          Some (c # cs) \<Rightarrow>
                            let decimal = filter (\<lambda>c. c \<noteq> CHR ''_'') (c # cs);
                                scale = 10 ^ length decimal
                            in (n0 * scale + group_nat decimal, scale)
                        | _ \<Rightarrow> (n0, 1))
                 in case m_exp m of
                      Some (c # cs) \<Rightarrow>
                        let e = group_int (c # cs)
                        in if 0 \<le> e then (n1 * 10 ^ nat e, d1) else (n1, d1 * 10 ^ nat (- e))
                    | _ \<Rightarrow> (n1, d1))
      in (if m_sign m = ''-'' then - n else n, d))"

text \<open>The common tail of \<^verbatim>\<open>__new__\<close>: reduction to lowest terms with a positive denominator.\<close>

definition fraction_reduce :: "int \<Rightarrow> int \<Rightarrow> fraction result" where
  "fraction_reduce n d =
     (if d = 0 then Inl ZeroDivisionError
      else let g = (if d < 0 then - gcd n d else gcd n d)
           in Inr (from_coprime_ints (n div g) (d div g)))"

definition fraction_new :: "frac_arg \<Rightarrow> frac_arg option \<Rightarrow> fraction result" where
  "fraction_new arg den =
     (case den of
        None \<Rightarrow>
          (case arg of
             AInt n \<Rightarrow> Inr (from_coprime_ints n 1)
           | ARational f \<Rightarrow> Inr (from_coprime_ints (numerator f) (denominator f))
           | ARatio n d \<Rightarrow> Inr (from_coprime_ints n d)
           | AStr None \<Rightarrow> Inl ValueError
           | AStr (Some m) \<Rightarrow> (let (n, d) = ratio_of_match m in fraction_reduce n d))
      | Some den' \<Rightarrow>
          (case (arg, den') of
             (AInt n, AInt d) \<Rightarrow> fraction_reduce n d
           | (AInt n, ARational g) \<Rightarrow> fraction_reduce (n * denominator g) (numerator g)
           | (ARational f, AInt d) \<Rightarrow> fraction_reduce (numerator f) (d * denominator f)
           | (ARational f, ARational g) \<Rightarrow>
               fraction_reduce (numerator f * denominator g) (numerator g * denominator f)
           | _ \<Rightarrow> Inl TypeError))"

definition is_integer :: "fraction \<Rightarrow> bool" where
  "is_integer f \<longleftrightarrow> denominator f = 1"

definition as_integer_ratio :: "fraction \<Rightarrow> int \<times> int" where
  "as_integer_ratio f = (numerator f, denominator f)"

definition frac_str :: "fraction \<Rightarrow> string" where
  "frac_str f = (if denominator f = 1 then str_int (numerator f)
                 else str_int (numerator f) @ ''/'' @ str_int (denominator f))"

section \<open>Arithmetic\<close>

definition frac_add :: "fraction \<Rightarrow> fraction \<Rightarrow> fraction" where
  "frac_add a b =
     (let na = numerator a; da = denominator a; nb = numerator b; db = denominator b;
          g = gcd da db
      in if g = 1 then from_coprime_ints (na * db + da * nb) (da * db)
         else let s = da div g;
                  t = na * (db div g) + nb * s;
                  g2 = gcd t g
              in if g2 = 1 then from_coprime_ints t (s * db)
                 else from_coprime_ints (t div g2) (s * (db div g2)))"

definition frac_sub :: "fraction \<Rightarrow> fraction \<Rightarrow> fraction" where
  "frac_sub a b =
     (let na = numerator a; da = denominator a; nb = numerator b; db = denominator b;
          g = gcd da db
      in if g = 1 then from_coprime_ints (na * db - da * nb) (da * db)
         else let s = da div g;
                  t = na * (db div g) - nb * s;
                  g2 = gcd t g
              in if g2 = 1 then from_coprime_ints t (s * db)
                 else from_coprime_ints (t div g2) (s * (db div g2)))"

definition frac_mul :: "fraction \<Rightarrow> fraction \<Rightarrow> fraction" where
  "frac_mul a b =
     (let na = numerator a; da = denominator a; nb = numerator b; db = denominator b;
          g1 = gcd na db;
          (na, db) = (if 1 < g1 then (na div g1, db div g1) else (na, db));
          g2 = gcd nb da;
          (nb, da) = (if 1 < g2 then (nb div g2, da div g2) else (nb, da))
      in from_coprime_ints (na * nb) (db * da))"

definition frac_div :: "fraction \<Rightarrow> fraction \<Rightarrow> fraction result" where
  "frac_div a b =
     (let nb = numerator b; db = denominator b
      in if nb = 0 then Inl ZeroDivisionError
         else let na = numerator a; da = denominator a;
                  g1 = gcd na nb;
                  (na, nb) = (if 1 < g1 then (na div g1, nb div g1) else (na, nb));
                  g2 = gcd db da;
                  (da, db) = (if 1 < g2 then (da div g2, db div g2) else (da, db));
                  n = na * db; d = nb * da;
                  (n, d) = (if d < 0 then (- n, - d) else (n, d))
              in Inr (from_coprime_ints n d))"

definition frac_floordiv :: "fraction \<Rightarrow> fraction \<Rightarrow> int result" where
  "frac_floordiv a b =
     (if denominator a * numerator b = 0 then Inl ZeroDivisionError
      else Inr ((numerator a * denominator b) div (denominator a * numerator b)))"

definition frac_divmod :: "fraction \<Rightarrow> fraction \<Rightarrow> (int \<times> fraction) result" where
  "frac_divmod a b =
     (let da = denominator a; db = denominator b
      in if da * numerator b = 0 then Inl ZeroDivisionError
         else let q = (numerator a * db) div (da * numerator b);
                  n_mod = (numerator a * db) mod (da * numerator b)
              in bindE (fraction_reduce n_mod (da * db)) (\<lambda>r. Inr (q, r)))"

definition frac_mod :: "fraction \<Rightarrow> fraction \<Rightarrow> fraction result" where
  "frac_mod a b =
     (let da = denominator a; db = denominator b
      in if numerator b * da = 0 then Inl ZeroDivisionError
         else fraction_reduce ((numerator a * db) mod (numerator b * da)) (da * db))"

text \<open>\<^verbatim>\<open>__pow__\<close> with an integral exponent.\<close>

definition frac_pow :: "fraction \<Rightarrow> int \<Rightarrow> fraction result" where
  "frac_pow a pw =
     (if 0 \<le> pw then Inr (from_coprime_ints (numerator a ^ nat pw) (denominator a ^ nat pw))
      else if 0 < numerator a then
        Inr (from_coprime_ints (denominator a ^ nat (- pw)) (numerator a ^ nat (- pw)))
      else if numerator a = 0 then Inl ZeroDivisionError
      else Inr (from_coprime_ints ((- denominator a) ^ nat (- pw)) ((- numerator a) ^ nat (- pw))))"

definition frac_pos :: "fraction \<Rightarrow> fraction" where
  "frac_pos a = from_coprime_ints (numerator a) (denominator a)"

definition frac_neg :: "fraction \<Rightarrow> fraction" where
  "frac_neg a = from_coprime_ints (- numerator a) (denominator a)"

definition frac_abs :: "fraction \<Rightarrow> fraction" where
  "frac_abs a = from_coprime_ints \<bar>numerator a\<bar> (denominator a)"

definition frac_trunc :: "fraction \<Rightarrow> int" where
  "frac_trunc a = (if numerator a < 0 then - ((- numerator a) div denominator a)
                   else numerator a div denominator a)"

definition frac_floor :: "fraction \<Rightarrow> int" where
  "frac_floor a = numerator a div denominator a"

definition frac_ceil :: "fraction \<Rightarrow> int" where
  "frac_ceil a = - ((- numerator a) div denominator a)"

definition round_int :: "fraction \<Rightarrow> int" where
  "round_int a =
     (let d = denominator a; fl = numerator a div d; remainder = numerator a mod d
      in if remainder * 2 < d then fl
         else if remainder * 2 > d then fl + 1
         else if fl mod 2 = 0 then fl
         else fl + 1)"

definition frac_round :: "fraction \<Rightarrow> int \<Rightarrow> fraction result" where
  "frac_round a ndigits =
     (let shift = 10 ^ nat \<bar>ndigits\<bar>
      in if 0 < ndigits then
           fraction_reduce (round_int (frac_mul a (from_coprime_ints shift 1))) shift
         else bindE (frac_div a (from_coprime_ints shift 1)) (\<lambda>q.
           Inr (from_coprime_ints (round_int q * shift) 1)))"

definition frac_eq :: "fraction \<Rightarrow> fraction \<Rightarrow> bool" where
  "frac_eq a b \<longleftrightarrow> numerator a = numerator b \<and> denominator a = denominator b"

definition richcmp :: "fraction \<Rightarrow> fraction \<Rightarrow> (int \<Rightarrow> int \<Rightarrow> bool) \<Rightarrow> bool" where
  "richcmp a b cmp = cmp (numerator a * denominator b) (denominator a * numerator b)"

definition frac_lt :: "fraction \<Rightarrow> fraction \<Rightarrow> bool" where
  "frac_lt a b = richcmp a b (<)"

definition frac_gt :: "fraction \<Rightarrow> fraction \<Rightarrow> bool" where
  "frac_gt a b = richcmp a b (>)"

definition frac_le :: "fraction \<Rightarrow> fraction \<Rightarrow> bool" where
  "frac_le a b = richcmp a b (\<le>)"

definition frac_ge :: "fraction \<Rightarrow> fraction \<Rightarrow> bool" where
  "frac_ge a b = richcmp a b (\<ge>)"

definition frac_bool :: "fraction \<Rightarrow> bool" where
  "frac_bool a \<longleftrightarrow> numerator a \<noteq> 0"

section \<open>The closest fraction with a bounded denominator\<close>

text \<open>
  The loop of \<^verbatim>\<open>limit_denominator\<close>: the state it breaks with.  Every round replaces \<open>d\<close> by
  \<open>n mod d\<close>, so it ends; with \<open>d = 0\<close> Python's \<^verbatim>\<open>n//d\<close> would raise.
\<close>

function limit_loop :: "int \<Rightarrow> int \<Rightarrow> int \<Rightarrow> int \<Rightarrow> int \<Rightarrow> int \<Rightarrow> int \<Rightarrow> (int \<times> int \<times> int \<times> int \<times> int \<times> int) result" where
  "limit_loop m p0 q0 p1 q1 n d =
     (if d = 0 then Inl ZeroDivisionError
      else let a = n div d; q2 = q0 + a * q1
           in if m < q2 then Inr (p0, q0, p1, q1, n, d)
              else limit_loop m p1 q1 (p0 + a * p1) q2 d (n - a * d))"
  by pat_completeness auto
termination
proof (relation "measure (\<lambda>(m, p0, q0, p1, q1, n, d). nat \<bar>d\<bar>)", goal_cases)
  case 1
  then show ?case by simp
next
  case (2 m p0 q0 p1 q1 n d x xa)
  then have "n - x * d = n mod d" by (simp add: minus_div_mult_eq_mod)
  with 2 show ?case using abs_mod_less[of d n] by simp
qed

declare limit_loop.simps [simp del]

definition limit_denominator :: "fraction \<Rightarrow> int \<Rightarrow> fraction result" where
  "limit_denominator f m =
     (if m < 1 then Inl ValueError
      else if denominator f \<le> m then fraction_new (ARational f) None
      else bindE (limit_loop m 0 1 1 0 (numerator f) (denominator f)) (\<lambda>(p0, q0, p1, q1, n, d).
        let k = (m - q0) div q1
        in if 2 * d * (q0 + k * q1) \<le> denominator f then Inr (from_coprime_ints p1 q1)
           else Inr (from_coprime_ints (p0 + k * p1) (q0 + k * q1))))"

section \<open>Normal form and value\<close>

definition normal :: "fraction \<Rightarrow> bool" where
  "normal f \<longleftrightarrow> 0 < denominator f \<and> coprime (numerator f) (denominator f)"

definition frac_val :: "fraction \<Rightarrow> rat" where
  "frac_val f = of_int (numerator f) / of_int (denominator f)"

named_theorems frac_simps \<open>slots of constructed fractions\<close>

lemma from_coprime_ints_simps [frac_simps]:
  "numerator (from_coprime_ints n d) = n" "denominator (from_coprime_ints n d) = d"
  by (simp_all add: from_coprime_ints_def)

lemma normalD: "normal f \<Longrightarrow> 0 < denominator f" "normal f \<Longrightarrow> coprime (numerator f) (denominator f)"
  by (simp_all add: normal_def)

lemma normal_from [frac_simps]: "normal (from_coprime_ints n d) \<longleftrightarrow> 0 < d \<and> coprime n d"
  by (simp add: normal_def frac_simps)

lemma frac_val_from [frac_simps]: "frac_val (from_coprime_ints n d) = of_int n / of_int d"
  by (simp add: frac_val_def frac_simps)

lemma frac_val_eqI: "a * d' = c * b \<Longrightarrow> b \<noteq> 0 \<Longrightarrow> d' \<noteq> 0 \<Longrightarrow> (of_int a / of_int b :: rat) = of_int c / of_int d'"
  by (simp add: frac_eq_eq flip: of_int_mult)

lemma of_int_div_cancel: "g dvd n \<Longrightarrow> g dvd d \<Longrightarrow> g \<noteq> 0 \<Longrightarrow>
    (of_int (n div g) / of_int (d div g) :: rat) = of_int n / of_int d"
  by (elim dvdE) (simp add: field_simps)

lemma fraction_reduce_ok:
  assumes "d \<noteq> 0"
  obtains f where "fraction_reduce n d = Inr f" and "normal f" and "frac_val f = of_int n / of_int d"
proof -
  let ?g = "gcd n d"
  have g: "0 < ?g" using assms by simp
  have cop: "coprime (n div ?g) (d div ?g)" using assms by (intro div_gcd_coprime) simp
  show ?thesis
  proof (cases "d < 0")
    case True
    have "d div - ?g = - (d div ?g)" "n div - ?g = - (n div ?g)"
      by (simp_all add: dvd_div_neg)
    moreover have "d div ?g < 0" using True g by (simp add: pos_imp_zdiv_neg_iff)
    ultimately show ?thesis
      using True cop assms g
      by (intro that[of "from_coprime_ints (n div - ?g) (d div - ?g)"])
        (auto simp: fraction_reduce_def frac_simps of_int_div_cancel Let_def)
  next
    case False
    then have "0 < d div ?g" using assms g by (simp add: pos_imp_zdiv_pos_iff zdvd_imp_le)
    with False show ?thesis
      using cop assms g
      by (intro that[of "from_coprime_ints (n div ?g) (d div ?g)"])
        (auto simp: fraction_reduce_def frac_simps of_int_div_cancel Let_def)
  qed
qed


section \<open>Addition and subtraction\<close>

text \<open>The three branches of \<^verbatim>\<open>_add\<close> are one formula, since the divisions by one change nothing.\<close>

lemma frac_add_formula:
  fixes a b
  defines "g \<equiv> gcd (denominator a) (denominator b)"
  defines "s \<equiv> denominator a div g"
  defines "t \<equiv> numerator a * (denominator b div g) + numerator b * s"
  shows "frac_add a b = from_coprime_ints (t div gcd t g) (s * (denominator b div gcd t g))"
  unfolding g_def s_def t_def by (simp add: frac_add_def Let_def mult.commute)

lemma coprime_cross:
  fixes na nb da db :: int
  assumes "coprime na da" and "coprime da db"
  shows "coprime (na * db + nb * da) da"
proof -
  have "coprime (na * db) da" using assms by (simp add: coprime_commute)
  moreover have "gcd (na * db + nb * da) da = gcd (na * db) da"
    using gcd_add_mult[of da nb "na * db"] by (simp add: gcd.commute add.commute mult.commute)
  ultimately show ?thesis by (simp add: coprime_iff_gcd_eq_1)
qed

lemma frac_add_normal:
  assumes "normal a" and "normal b"
  shows "normal (frac_add a b)" and "frac_val (frac_add a b) = frac_val a + frac_val b"
proof -
  let ?na = "numerator a" and ?da = "denominator a" and ?nb = "numerator b" and ?db = "denominator b"
  define g where "g = gcd ?da ?db"
  have pos: "0 < ?da" "0 < ?db" using assms by (simp_all add: normalD)
  then have g: "0 < g" by (simp add: g_def)
  obtain s u where da: "?da = s * g" and db: "?db = u * g" and su: "coprime s u"
    using gcd_coprime_exists[of ?da ?db, folded g_def] less_imp_neq[OF g] by metis
  define t where "t = ?na * u + ?nb * s"
  define g2 where "g2 = gcd t g"
  have spos: "0 < s" "0 < u" using pos g by (simp_all add: da db zero_less_mult_iff)
  have cop: "coprime ?na s" "coprime ?nb u" using assms by (auto simp: normal_def da db)
  have "coprime t s" unfolding t_def using coprime_cross[OF cop(1) su] .
  moreover have "coprime t u"
    unfolding t_def using coprime_cross[OF cop(2), of s ?na] su by (simp add: coprime_commute add.commute)
  moreover have g2: "0 < g2" using g by (simp add: g2_def)
  moreover obtain t' g' where t: "t = t' * g2" and g': "g = g' * g2" and tg: "coprime t' g'"
    using gcd_coprime_exists[of t g, folded g2_def] less_imp_neq[OF g2] by metis
  ultimately have cop2: "coprime t' (s * (u * g'))" by simp
  have "frac_add a b = from_coprime_ints (t div g2) (s * (?db div g2))"
    using g unfolding frac_add_formula g_def[symmetric] g2_def t_def by (simp add: da db)
  then have eq: "frac_add a b = from_coprime_ints t' (s * (u * g'))"
    using g2 by (simp add: t db g' mult.assoc[symmetric])
  have "0 < g'" using g g2 by (simp add: g' zero_less_mult_iff)
  then show "normal (frac_add a b)" using cop2 spos by (simp add: eq frac_simps)
  have "t' * (?da * ?db) = (?na * ?db + ?nb * ?da) * (s * (u * g'))"
  proof -
    have "(?na * ?db + ?nb * ?da) = t * g" by (simp add: da db t_def algebra_simps)
    then show ?thesis by (simp add: da db t g' algebra_simps)
  qed
  then have "frac_val (frac_add a b) = of_int (?na * ?db + ?nb * ?da) / of_int (?da * ?db)"
    unfolding eq frac_simps using spos \<open>0 < g'\<close> pos by (intro frac_val_eqI) auto
  then show "frac_val (frac_add a b) = frac_val a + frac_val b"
    using pos by (simp add: frac_val_def add_frac_eq)
qed

lemma frac_neg_normal:
  "normal (frac_neg a) = normal a" "frac_val (frac_neg a) = - frac_val a"
  by (simp_all add: frac_neg_def frac_simps normal_def frac_val_def)

lemma frac_sub_add: "frac_sub a b = frac_add a (frac_neg b)"
  by (simp add: frac_sub_def frac_add_def frac_neg_def frac_simps Let_def)

lemma frac_sub_normal:
  assumes "normal a" and "normal b"
  shows "normal (frac_sub a b)" and "frac_val (frac_sub a b) = frac_val a - frac_val b"
  using frac_add_normal[of a "frac_neg b"] assms by (simp_all add: frac_sub_add frac_neg_normal)

section \<open>Multiplication, division and powers\<close>

lemma gcd_guard:
  fixes x y :: int
  assumes "y \<noteq> 0"
  shows "(if 1 < gcd x y then (x div gcd x y, y div gcd x y) else (x, y)) = (x div gcd x y, y div gcd x y)"
proof -
  have "0 < gcd x y" using assms by simp
  then have "1 < gcd x y \<or> gcd x y = 1" by linarith
  then show ?thesis by (elim disjE) simp_all
qed

lemma frac_mul_formula:
  "frac_mul a b = from_coprime_ints
     (numerator a div gcd (numerator a) (denominator b) * (numerator b div gcd (numerator b) (denominator a)))
     (denominator b div gcd (numerator a) (denominator b) * (denominator a div gcd (numerator b) (denominator a)))"
  if "denominator a \<noteq> 0" and "denominator b \<noteq> 0"
proof -
  note guard = gcd_guard[OF that(2), of "numerator a"] gcd_guard[OF that(1), of "numerator b"]
  show ?thesis unfolding frac_mul_def Let_def guard by simp
qed

lemma frac_mul_normal:
  assumes "normal a" and "normal b"
  shows "normal (frac_mul a b)" and "frac_val (frac_mul a b) = frac_val a * frac_val b"
proof -
  let ?na = "numerator a" and ?da = "denominator a" and ?nb = "numerator b" and ?db = "denominator b"
  have pos: "0 < ?da" "0 < ?db" using assms by (simp_all add: normalD)
  define g1 g2 where "g1 = gcd ?na ?db" and "g2 = gcd ?nb ?da"
  have g: "0 < g1" "0 < g2" using pos by (simp_all add: g1_def g2_def)
  obtain na db where 1: "?na = na * g1" "?db = db * g1" "coprime na db"
    using gcd_coprime_exists[of ?na ?db, folded g1_def] less_imp_neq[OF g(1)] by metis
  obtain nb da where 2: "?nb = nb * g2" "?da = da * g2" "coprime nb da"
    using gcd_coprime_exists[of ?nb ?da, folded g2_def] less_imp_neq[OF g(2)] by metis
  have cop: "coprime na da" "coprime nb db"
    using assms by (auto simp: normal_def 1 2)
  have eq: "frac_mul a b = from_coprime_ints (na * nb) (db * da)"
  proof -
    have "frac_mul a b = from_coprime_ints (?na div g1 * (?nb div g2)) (?db div g1 * (?da div g2))"
      unfolding g1_def g2_def using pos by (intro frac_mul_formula) auto
    then show ?thesis using g by (simp add: 1 2)
  qed
  have dpos: "0 < db" "0 < da" using pos g by (simp_all add: 1 2 zero_less_mult_iff)
  then show "normal (frac_mul a b)" using cop 1(3) 2(3) by (simp add: eq frac_simps)
  have "frac_val (frac_mul a b) = of_int (?na * ?nb) / of_int (?da * ?db)"
    unfolding eq frac_simps using dpos pos by (intro frac_val_eqI) (auto simp: 1 2)
  then show "frac_val (frac_mul a b) = frac_val a * frac_val b" by (simp add: frac_val_def)
qed


text \<open>Division multiplies by the inverse, with the sign moved to the numerator.\<close>

definition frac_inverse :: "fraction \<Rightarrow> fraction" where
  "frac_inverse b = (if 0 < numerator b then from_coprime_ints (denominator b) (numerator b)
                     else from_coprime_ints (- denominator b) (- numerator b))"

lemma frac_inverse_normal:
  assumes "normal b" and "numerator b \<noteq> 0"
  shows "normal (frac_inverse b)" and "frac_val (frac_inverse b) = 1 / frac_val b"
  using assms by (auto simp: frac_inverse_def frac_simps normal_def frac_val_def coprime_commute)

lemma frac_div_mul:
  assumes "normal a" and "normal b" and nz: "numerator b \<noteq> 0"
  shows "frac_div a b = Inr (frac_mul a (frac_inverse b))"
proof -
  let ?na = "numerator a" and ?da = "denominator a" and ?nb = "numerator b" and ?db = "denominator b"
  have pos: "0 < ?da" "0 < ?db" using assms by (simp_all add: normalD)
  let ?g1 = "gcd ?na ?nb" and ?g2 = "gcd ?db ?da"
  have g: "0 < ?g1" "0 < ?g2" using pos nz by simp_all
  have swap: "(if 1 < ?g2 then (?da div ?g2, ?db div ?g2) else (?da, ?db)) = (?da div ?g2, ?db div ?g2)"
    using gcd_guard[of ?da ?db] pos by (auto split: if_splits)
  have da: "0 < ?da div ?g2" using pos g by (simp add: pos_imp_zdiv_pos_iff zdvd_imp_le)
  have sign: "?nb div ?g1 * (?da div ?g2) < 0 \<longleftrightarrow> ?nb < 0"
  proof -
    have "x * (?da div ?g2) < 0 \<longleftrightarrow> x < 0" for x using da by (meson mult_less_0_iff not_less_iff_gr_or_eq)
    then show ?thesis using g(1) by (simp add: pos_imp_zdiv_neg_iff)
  qed
  have div: "frac_div a b = Inr (from_coprime_ints (if ?nb < 0 then - (?na div ?g1 * (?db div ?g2)) else ?na div ?g1 * (?db div ?g2))
      (if ?nb < 0 then - (?nb div ?g1 * (?da div ?g2)) else ?nb div ?g1 * (?da div ?g2)))"
    unfolding frac_div_def Let_def gcd_guard[OF nz] swap using nz sign by simp
  show ?thesis
  proof (cases "0 < ?nb")
    case True
    then show ?thesis
      unfolding div using pos by (subst frac_mul_formula) (simp_all add: frac_inverse_def frac_simps)
  next
    case False
    have "(- ?db) div ?g2 = - (?db div ?g2)" "(- ?nb) div ?g1 = - (?nb div ?g1)"
      by (simp_all add: dvd_neg_div)
    with False nz show ?thesis
      unfolding div using pos by (subst frac_mul_formula) (simp_all add: frac_inverse_def frac_simps)
  qed
qed

lemma frac_div_normal:
  assumes "normal a" and "normal b" and "numerator b \<noteq> 0"
  obtains q where "frac_div a b = Inr q" and "normal q" and "frac_val q = frac_val a / frac_val b"
  using frac_div_mul[OF assms] frac_inverse_normal[OF assms(2,3)] frac_mul_normal[of a "frac_inverse b"] assms(1)
  by (auto intro: that[of "frac_mul a (frac_inverse b)"])

lemma frac_val_zero_iff: "normal b \<Longrightarrow> frac_val b = 0 \<longleftrightarrow> numerator b = 0"
  by (simp add: frac_val_def normal_def)

lemma frac_pow_normal:
  assumes "normal a" and "0 \<le> n \<or> numerator a \<noteq> 0"
  obtains q where "frac_pow a n = Inr q" and "normal q" and "frac_val q = frac_val a powi n"
proof (cases "0 \<le> n")
  case True
  with assms(1) show ?thesis
    by (intro that[of "from_coprime_ints (numerator a ^ nat n) (denominator a ^ nat n)"])
      (auto simp: frac_pow_def frac_simps normal_def frac_val_def power_int_def power_divide)
next
  case False
  let ?b = "frac_inverse a" and ?m = "nat (- n)"
  have b: "normal ?b" "frac_val ?b = 1 / frac_val a" using frac_inverse_normal assms False by auto
  have "frac_pow a n = Inr (from_coprime_ints (numerator ?b ^ ?m) (denominator ?b ^ ?m))"
    using False assms by (auto simp: frac_pow_def frac_inverse_def frac_simps)
  moreover have "frac_val (from_coprime_ints (numerator ?b ^ ?m) (denominator ?b ^ ?m)) = frac_val a powi n"
  proof -
    have "frac_val (from_coprime_ints (numerator ?b ^ ?m) (denominator ?b ^ ?m)) = frac_val ?b ^ ?m"
      by (simp add: frac_simps frac_val_def power_divide)
    with b(2) False show ?thesis by (simp add: power_int_def inverse_eq_divide)
  qed
  moreover have "normal (from_coprime_ints (numerator ?b ^ ?m) (denominator ?b ^ ?m))"
    using b(1) by (simp add: normal_from normal_def[of ?b])
  ultimately show ?thesis using that by blast
qed

section \<open>Rounding and comparison\<close>

lemma frac_val_floor: "0 < denominator a \<Longrightarrow> \<lfloor>frac_val a\<rfloor> = numerator a div denominator a"
  by (simp add: frac_val_def floor_divide_of_int_eq)

lemma frac_floordiv_floor:
  assumes "normal a" and "normal b" and "numerator b \<noteq> 0"
  shows "frac_floordiv a b = Inr \<lfloor>frac_val a / frac_val b\<rfloor>"
proof -
  have "frac_val a / frac_val b = of_int (numerator a * denominator b) / of_int (denominator a * numerator b)"
    by (simp add: frac_val_def)
  then show ?thesis
    using assms floor_divide_of_int_eq[of "numerator a * denominator b" "denominator a * numerator b", where ?'a = rat]
    by (simp add: frac_floordiv_def normal_def)
qed

lemma frac_mod_val:
  assumes "normal a" and "normal b" and "numerator b \<noteq> 0"
  obtains r where "frac_mod a b = Inr r" and "normal r"
    and "frac_val r = frac_val a - frac_val b * of_int \<lfloor>frac_val a / frac_val b\<rfloor>"
proof -
  let ?x = "numerator a * denominator b" and ?y = "denominator a * numerator b"
  have pos: "denominator a \<noteq> 0" "denominator b \<noteq> 0" "?y \<noteq> 0" using assms by (auto simp: normal_def)
  have fl: "\<lfloor>frac_val a / frac_val b\<rfloor> = ?x div ?y"
    using frac_floordiv_floor[OF assms] pos by (simp add: frac_floordiv_def)
  have "(of_int (?x mod ?y) :: rat) = of_int ?x - of_int ?y * of_int (?x div ?y)"
    by (simp add: minus_mult_div_eq_mod flip: of_int_mult of_int_diff)
  then have val: "of_int (?x mod ?y) / of_int (denominator a * denominator b) =
      frac_val a - frac_val b * of_int (?x div ?y)"
    using pos by (simp add: frac_val_def field_simps)
  obtain r where "fraction_reduce (?x mod ?y) (denominator a * denominator b) = Inr r" "normal r"
    "frac_val r = of_int (?x mod ?y) / of_int (denominator a * denominator b)"
    using fraction_reduce_ok[of "denominator a * denominator b" "?x mod ?y"] pos by auto
  with val fl show ?thesis
    using pos by (intro that[of r]) (simp_all add: frac_mod_def Let_def mult.commute)
qed

lemma frac_divmod_parts:
  "frac_divmod a b = bindE (frac_floordiv a b) (\<lambda>q. bindE (frac_mod a b) (\<lambda>r. Inr (q, r)))"
  by (simp add: frac_divmod_def frac_floordiv_def frac_mod_def Let_def mult.commute)


lemma frac_richcmp:
  assumes "normal a" and "normal b"
  shows "frac_lt a b \<longleftrightarrow> frac_val a < frac_val b" and "frac_le a b \<longleftrightarrow> frac_val a \<le> frac_val b"
    and "frac_gt a b \<longleftrightarrow> frac_val a > frac_val b" and "frac_ge a b \<longleftrightarrow> frac_val a \<ge> frac_val b"
proof -
  have pos: "0 < denominator a" "0 < denominator b" using assms by (simp_all add: normalD)
  have "frac_val a < frac_val b \<longleftrightarrow> of_int (numerator a * denominator b) < (of_int (denominator a * numerator b) :: rat)"
    and "frac_val a \<le> frac_val b \<longleftrightarrow> of_int (numerator a * denominator b) \<le> (of_int (denominator a * numerator b) :: rat)"
    using pos by (simp_all add: frac_val_def field_simps)
  then have lt: "numerator a * denominator b < denominator a * numerator b \<longleftrightarrow> frac_val a < frac_val b"
    and eq: "numerator a * denominator b \<le> denominator a * numerator b \<longleftrightarrow> frac_val a \<le> frac_val b"
    by (simp_all only: of_int_less_iff of_int_le_iff)
  show "frac_lt a b \<longleftrightarrow> frac_val a < frac_val b" "frac_le a b \<longleftrightarrow> frac_val a \<le> frac_val b"
    using lt eq by (simp_all add: frac_lt_def frac_le_def richcmp_def)
  show "frac_gt a b \<longleftrightarrow> frac_val a > frac_val b"
    unfolding frac_gt_def richcmp_def by (metis eq not_le)
  show "frac_ge a b \<longleftrightarrow> frac_val a \<ge> frac_val b"
    unfolding frac_ge_def richcmp_def by (metis lt not_le)
qed

lemma normal_unique:
  assumes "normal a" and "normal b" and "frac_val a = frac_val b"
  shows "frac_eq a b"
proof -
  have pos: "0 < denominator a" "0 < denominator b" using assms by (simp_all add: normalD)
  have cross: "numerator a * denominator b = numerator b * denominator a"
    using assms(3) pos by (simp add: frac_val_def frac_eq_eq flip: of_int_mult)
  have "denominator a dvd denominator b"
    using cross assms(1) by (metis coprime_commute coprime_dvd_mult_right_iff dvd_triv_right normal_def)
  moreover have "denominator b dvd denominator a"
    using cross assms(2) by (metis coprime_commute coprime_dvd_mult_right_iff dvd_triv_right normal_def)
  ultimately have "denominator a = denominator b" using pos by (simp add: zdvd_antisym_nonneg)
  with cross pos show ?thesis by (simp add: frac_eq_def)
qed

lemma half_of_int:
  assumes "0 < d"
  shows "(of_int x / of_int d :: rat) \<le> 1 / 2 \<longleftrightarrow> 2 * x \<le> d" and "(of_int x / of_int d :: rat) = 1 / 2 \<longleftrightarrow> 2 * x = d"
proof -
  have "(of_int x / of_int d :: rat) \<le> 1 / 2 \<longleftrightarrow> (of_int (2 * x) :: rat) \<le> of_int d"
    and "(of_int x / of_int d :: rat) = 1 / 2 \<longleftrightarrow> (of_int (2 * x) :: rat) = of_int d"
    using assms by (auto simp: field_simps)
  then show "(of_int x / of_int d :: rat) \<le> 1 / 2 \<longleftrightarrow> 2 * x \<le> d"
    and "(of_int x / of_int d :: rat) = 1 / 2 \<longleftrightarrow> 2 * x = d"
    by (simp_all only: of_int_le_iff of_int_eq_iff)
qed

lemma round_int_nearest:
  assumes "normal a"
  shows "\<bar>frac_val a - of_int (round_int a)\<bar> \<le> 1 / 2"
    and "\<bar>frac_val a - of_int (round_int a)\<bar> = 1 / 2 \<Longrightarrow> even (round_int a)"
proof -
  let ?n = "numerator a" and ?d = "denominator a"
  have d: "0 < ?d" using assms by (simp add: normalD)
  have split: "?n = ?d * (?n div ?d) + ?n mod ?d" and r: "0 \<le> ?n mod ?d" "?n mod ?d < ?d"
    using d by simp_all
  have val: "frac_val a - of_int k = of_int (?n - ?d * k) / of_int ?d" for k
    using d by (simp add: frac_val_def field_simps)
  have le: "\<bar>frac_val a - of_int k\<bar> \<le> 1 / 2 \<longleftrightarrow> 2 * \<bar>?n - ?d * k\<bar> \<le> ?d"
    and eq: "\<bar>frac_val a - of_int k\<bar> = 1 / 2 \<longleftrightarrow> 2 * \<bar>?n - ?d * k\<bar> = ?d" for k
  proof -
    have "\<bar>frac_val a - of_int k\<bar> = of_int \<bar>?n - ?d * k\<bar> / of_int ?d" unfolding val using d by simp
    then show "\<bar>frac_val a - of_int k\<bar> \<le> 1 / 2 \<longleftrightarrow> 2 * \<bar>?n - ?d * k\<bar> \<le> ?d"
      "\<bar>frac_val a - of_int k\<bar> = 1 / 2 \<longleftrightarrow> 2 * \<bar>?n - ?d * k\<bar> = ?d"
      by (simp_all only: half_of_int[OF d])
  qed
  have dist: "\<bar>?n - ?d * (?n div ?d)\<bar> = ?n mod ?d" "\<bar>?n - ?d * (?n div ?d + 1)\<bar> = ?d - ?n mod ?d"
  proof -
    have "?n - ?d * (?n div ?d) = ?n mod ?d" by (rule minus_mult_div_eq_mod)
    moreover from this have "?n - ?d * (?n div ?d + 1) = ?n mod ?d - ?d" by (simp add: distrib_left)
    ultimately show "\<bar>?n - ?d * (?n div ?d)\<bar> = ?n mod ?d" "\<bar>?n - ?d * (?n div ?d + 1)\<bar> = ?d - ?n mod ?d"
      using r by linarith+
  qed
  show "\<bar>frac_val a - of_int (round_int a)\<bar> \<le> 1 / 2"
    unfolding le using dist by (auto simp: round_int_def Let_def)
  show "even (round_int a)" if half: "\<bar>frac_val a - of_int (round_int a)\<bar> = 1 / 2"
  proof -
    have tie: "2 * \<bar>?n - ?d * round_int a\<bar> = ?d" using half by (simp only: eq)
    consider "?n mod ?d * 2 < ?d" | "?d < ?n mod ?d * 2" | "?n mod ?d * 2 = ?d" by linarith
    then show ?thesis
    proof cases
      case 1
      then have "round_int a = ?n div ?d" by (simp add: round_int_def Let_def)
      with tie dist(1) 1 show ?thesis by simp
    next
      case 2
      then have "round_int a = ?n div ?d + 1" by (simp add: round_int_def Let_def)
      with tie dist(2) 2 show ?thesis by simp
    next
      case 3
      then show ?thesis by (auto simp: round_int_def Let_def)
    qed
  qed
qed

section \<open>Best approximation\<close>

text \<open>
  What the loop of \<^verbatim>\<open>limit_denominator\<close> keeps, for a fraction \<open>N / D\<close> with \<open>M < D\<close>: the last two
  convergents and the remaining pair recombine to \<open>N\<close> and \<open>D\<close> and have determinant one.
\<close>

definition limit_inv :: "int \<Rightarrow> int \<Rightarrow> int \<Rightarrow> int \<times> int \<times> int \<times> int \<times> int \<times> int \<Rightarrow> bool" where
  "limit_inv N D M = (\<lambda>(p0, q0, p1, q1, n, d).
     N = p1 * n + p0 * d \<and> D = q1 * n + q0 * d \<and> \<bar>p1 * q0 - p0 * q1\<bar> = 1 \<and>
     0 < d \<and> d < n \<and> 0 \<le> q0 \<and> q0 \<le> M \<and> 0 < q1 \<and> q1 \<le> M)"

lemma limit_inv_step:
  assumes inv: "limit_inv N D M (p0, q0, p1, q1, n, d)" and cop: "coprime N D" and "M < D"
    and a: "a = n div d" and le: "q0 + a * q1 \<le> M"
  shows "limit_inv N D M (p1, q1, p0 + a * p1, q0 + a * q1, d, n - a * d)"
proof -
  have rem: "n - a * d = n mod d" by (simp add: a minus_div_mult_eq_mod)
  have d: "0 < d" "d < n" and q: "0 \<le> q0" "0 < q1" "q1 \<le> M"
    and N: "N = p1 * n + p0 * d" and D: "D = q1 * n + q0 * d"
    using inv by (simp_all add: limit_inv_def)
  have "0 < a" using d by (simp add: a pos_imp_zdiv_pos_iff)
  have "0 \<le> n mod d" "n mod d < d" using d by simp_all
  moreover have "n mod d \<noteq> 0"
  proof
    assume "n mod d = 0"
    then have dvd: "d dvd n" by auto
    then have "d dvd N" "d dvd D" by (simp_all add: N D)
    with cop have "is_unit d" by (meson coprime_def)
    with d have "d = 1" by simp
    then have "D = q0 + a * q1" using D a by (simp add: mult.commute)
    with le \<open>M < D\<close> show False by simp
  qed
  moreover have "0 \<le> a * q1" using \<open>0 < a\<close> q by simp
  moreover have "0 < a * q1" using \<open>0 < a\<close> q by simp
  ultimately show ?thesis
    using inv le q unfolding limit_inv_def rem[symmetric] by (auto simp: algebra_simps abs_minus_commute)
qed

lemma limit_loop_inv:
  assumes "limit_inv N D M (p0, q0, p1, q1, n, d)" and "coprime N D" and "M < D"
  shows "\<exists>P0 Q0 P1 Q1 n' d'. limit_loop M p0 q0 p1 q1 n d = Inr (P0, Q0, P1, Q1, n', d') \<and>
    limit_inv N D M (P0, Q0, P1, Q1, n', d') \<and> M < Q0 + (n' div d') * Q1"
  using assms
proof (induction M p0 q0 p1 q1 n d rule: limit_loop.induct)
  case (1 M p0 q0 p1 q1 n d)
  have d: "d \<noteq> 0" using "1.prems"(1) by (simp add: limit_inv_def)
  show ?case
  proof (cases "M < q0 + (n div d) * q1")
    case True
    with d "1.prems"(1) show ?thesis by (subst limit_loop.simps) (simp add: Let_def)
  next
    case False
    with "1.IH"[OF d refl refl] limit_inv_step[OF "1.prems" refl] "1.prems" d
    show ?thesis by (subst limit_loop.simps) (simp add: Let_def not_less)
  qed
qed

lemma limit_loop_start:
  assumes "coprime N D" and "1 \<le> M" and "M < D"
  shows "\<exists>P0 Q0 P1 Q1 n d. limit_loop M 0 1 1 0 N D = Inr (P0, Q0, P1, Q1, n, d) \<and>
    limit_inv N D M (P0, Q0, P1, Q1, n, d) \<and> M < Q0 + (n div d) * Q1"
proof -
  let ?a = "N div D"
  have rem: "N - ?a * D = N mod D" by (simp add: minus_div_mult_eq_mod)
  have "N mod D \<noteq> 0"
  proof
    assume "N mod D = 0"
    then have "D dvd N" by auto
    with assms(1) have "is_unit D" by (meson coprime_def dvd_refl)
    with assms show False by simp
  qed
  then have "0 < N mod D" "N mod D < D" using assms pos_mod_sign[of D N] pos_mod_bound[of D N] by linarith+
  then have "limit_inv N D M (1, 0, ?a, 1, D, N mod D)"
    using assms by (simp add: limit_inv_def)
  from limit_loop_inv[OF this assms(1,3)] show ?thesis
    using assms by (subst limit_loop.simps) (simp add: Let_def rem)
qed


text \<open>
  Every \<open>p / q\<close> is an integer combination of the two candidates; with \<open>q \<le> M\<close> not both
  coefficients are positive, and then one of the candidates is at least as close to \<open>N / D\<close>.
\<close>

lemma between_candidates:
  fixes p1 q1 P Q u d p q :: int
  assumes det: "\<bar>p1 * Q - P * q1\<bar> = 1" and pos: "0 < u" "0 < d" "0 < q1" "0 < Q" "0 < q"
    and room: "q < q1 + Q" and N: "N = p1 * u + P * d" and D: "D = q1 * u + Q * d"
  shows "d * q \<le> \<bar>N * q - p * D\<bar> * q1 \<or> u * q \<le> \<bar>N * q - p * D\<bar> * Q"
proof -
  define s where "s = p1 * Q - P * q1"
  have s: "s * s = 1" using det by (auto simp: s_def[symmetric] abs_if split: if_splits)
  define \<alpha> \<beta> where "\<alpha> = s * (p * Q - P * q)" and "\<beta> = s * (p1 * q - p * q1)"
  have "\<alpha> * p1 + \<beta> * P = s * (s * p)" "\<alpha> * q1 + \<beta> * Q = s * (s * q)"
    by (simp_all add: \<alpha>_def \<beta>_def s_def algebra_simps)
  then have p: "p = \<alpha> * p1 + \<beta> * P" and q: "q = \<alpha> * q1 + \<beta> * Q"
    using s by (simp_all add: mult.assoc[symmetric])
  have "N * q - p * D = s * (u * \<beta> - d * \<alpha>)"
    by (simp add: N D p q s_def algebra_simps)
  then have dist: "\<bar>N * q - p * D\<bar> = \<bar>u * \<beta> - d * \<alpha>\<bar>"
    using det by (simp add: s_def[symmetric] abs_mult)
  have "\<alpha> \<le> 0 \<or> \<beta> \<le> 0"
  proof (rule ccontr)
    assume "\<not> (\<alpha> \<le> 0 \<or> \<beta> \<le> 0)"
    then have "q1 \<le> \<alpha> * q1" "Q \<le> \<beta> * Q" using pos by simp_all
    with room q show False by linarith
  qed
  then show ?thesis
  proof
    assume \<alpha>: "\<alpha> \<le> 0"
    then have "\<alpha> * q1 \<le> 0" "d * \<alpha> \<le> 0" using pos by (simp_all add: mult_le_0_iff)
    then have "q \<le> \<beta> * Q" using q by simp
    then have "u * q \<le> u * (\<beta> * Q)" using pos by simp
    also have "\<dots> = u * \<beta> * Q" by simp
    also have "\<dots> \<le> \<bar>u * \<beta> - d * \<alpha>\<bar> * Q"
      using pos \<open>d * \<alpha> \<le> 0\<close> by (intro mult_right_mono) auto
    finally show ?thesis using dist by simp
  next
    assume \<beta>: "\<beta> \<le> 0"
    then have "\<beta> * Q \<le> 0" "u * \<beta> \<le> 0" using pos by (simp_all add: mult_le_0_iff)
    then have "q \<le> \<alpha> * q1" using q by simp
    then have "d * q \<le> d * (\<alpha> * q1)" using pos by simp
    also have "\<dots> = d * \<alpha> * q1" by simp
    also have "\<dots> \<le> \<bar>u * \<beta> - d * \<alpha>\<bar> * q1"
      using pos \<open>u * \<beta> \<le> 0\<close> by (intro mult_right_mono) auto
    finally show ?thesis using dist by simp
  qed
qed

lemma rat_dist:
  fixes N D p q :: int
  assumes "0 < D" and "0 < q"
  shows "\<bar>of_int N / of_int D - of_int p / of_int q\<bar> = (of_int \<bar>N * q - p * D\<bar> :: rat) / of_int (D * q)"
proof -
  have "of_int N / of_int D - of_int p / of_int q = (of_int (N * q - p * D) :: rat) / of_int (D * q)"
    using assms by (simp add: field_simps)
  then show ?thesis using assms by (simp add: abs_divide)
qed

lemma closer_candidate:
  fixes x y D q r :: int
  assumes "0 < D" "0 < q" "0 < r" and "x * q \<le> y * r"
  shows "(of_int x :: rat) / of_int (D * r) \<le> of_int y / of_int (D * q)"
proof -
  have "(of_int (x * q) :: rat) \<le> of_int (y * r)" using assms(4) by (simp only: of_int_le_iff)
  then show ?thesis using assms(1-3) by (simp add: field_simps)
qed


text \<open>The two candidates \<^verbatim>\<open>limit_denominator\<close> compares, with their distances from \<open>N / D\<close>.\<close>

lemma candidates:
  assumes inv: "limit_inv N D M (p0, q0, p1, q1, n, d)" and stop: "M < q0 + (n div d) * q1"
    and M: "1 \<le> M" "M < D"
  defines "k \<equiv> (M - q0) div q1"
  defines "P \<equiv> p0 + k * p1" and "Q \<equiv> q0 + k * q1" and "u \<equiv> n - k * d"
  shows "\<bar>p1 * Q - P * q1\<bar> = 1" "0 < u" "0 < d" "0 < q1" "0 < Q" "q1 \<le> M" "Q \<le> M" "M < q1 + Q"
    "N = p1 * u + P * d" "D = q1 * u + Q * d"
proof -
  have d: "0 < d" "d < n" and q: "0 \<le> q0" "q0 \<le> M" "0 < q1" "q1 \<le> M" and det: "\<bar>p1 * q0 - p0 * q1\<bar> = 1"
    using inv by (simp_all add: limit_inv_def)
  have k: "0 \<le> k" using q by (simp add: k_def pos_imp_zdiv_nonneg_iff)
  have "k * q1 + (M - q0) mod q1 = M - q0" by (simp add: k_def)
  moreover have "0 \<le> (M - q0) mod q1" "(M - q0) mod q1 < q1" using q by simp_all
  ultimately show QM: "Q \<le> M" "M < q1 + Q" by (simp_all add: Q_def)
  have "k * q1 < (n div d) * q1" using QM(1) stop unfolding Q_def by linarith
  then have "k + 1 \<le> n div d" using q by (simp add: mult_less_cancel_right)
  then have "(k + 1) * d \<le> n div d * d" using d by (intro mult_right_mono) simp_all
  also have "\<dots> \<le> n" using d by (simp add: minus_mod_eq_div_mult[symmetric])
  finally show "0 < u" using d by (simp add: u_def algebra_simps)
  show "0 < Q"
  proof (cases "q0 = 0")
    case True
    have "k \<noteq> 0" using QM(2) True q M det by (auto simp: Q_def abs_mult zmult_eq_1_iff)
    with k True q show ?thesis by (simp add: Q_def)
  next
    case False
    with q k show ?thesis by (simp add: Q_def add_pos_nonneg)
  qed
  show "\<bar>p1 * Q - P * q1\<bar> = 1" using det by (simp add: P_def Q_def algebra_simps)
  show "N = p1 * u + P * d" "D = q1 * u + Q * d"
    using inv by (simp_all add: limit_inv_def u_def P_def Q_def algebra_simps)
qed (use inv in \<open>simp_all add: limit_inv_def\<close>)

lemma coprime_det: "\<bar>a * d - b * c\<bar> = 1 \<Longrightarrow> coprime a (c :: int)"
proof (rule coprimeI)
  fix e assume "e dvd a" "e dvd c" and det: "\<bar>a * d - b * c\<bar> = 1"
  then have "e dvd a * d - b * c" by (simp add: dvd_diff)
  then show "is_unit e" using det by (metis dvd_abs_iff)
qed

lemma limit_denominator_chosen:
  assumes "normal f" and "1 \<le> M" and "M < denominator f"
  obtains p1 q1 P Q u d where "\<bar>p1 * Q - P * q1\<bar> = 1" "0 < u" "0 < d" "0 < q1" "0 < Q" "q1 \<le> M" "Q \<le> M"
    "M < q1 + Q" "numerator f = p1 * u + P * d" "denominator f = q1 * u + Q * d"
    "limit_denominator f M = Inr (if d * Q \<le> u * q1 then from_coprime_ints p1 q1 else from_coprime_ints P Q)"
proof -
  have cop: "coprime (numerator f) (denominator f)" using assms by (simp add: normalD)
  obtain p0 q0 p1 q1 n d where loop: "limit_loop M 0 1 1 0 (numerator f) (denominator f) = Inr (p0, q0, p1, q1, n, d)"
    and inv: "limit_inv (numerator f) (denominator f) M (p0, q0, p1, q1, n, d)" and stop: "M < q0 + (n div d) * q1"
    using limit_loop_start[OF cop assms(2,3)] by blast
  note c = candidates[OF inv stop assms(2,3)]
  let ?k = "(M - q0) div q1"
  have "2 * d * (q0 + ?k * q1) \<le> denominator f \<longleftrightarrow> d * (q0 + ?k * q1) \<le> (n - ?k * d) * q1"
    using c(10) by (simp add: algebra_simps)
  then have "limit_denominator f M = Inr (if d * (q0 + ?k * q1) \<le> (n - ?k * d) * q1 then from_coprime_ints p1 q1
      else from_coprime_ints (p0 + ?k * p1) (q0 + ?k * q1))"
    using assms(2,3) loop by (simp add: limit_denominator_def Let_def)
  with c that show ?thesis by blast
qed

lemma limit_denominator_closest:
  assumes "normal f" and "1 \<le> M" and "M < denominator f"
  obtains g where "limit_denominator f M = Inr g" "normal g" "denominator g \<le> M"
    "\<And>p q. 0 < q \<Longrightarrow> q \<le> M \<Longrightarrow> \<bar>frac_val f - frac_val g\<bar> \<le> \<bar>frac_val f - of_int p / of_int q\<bar>"
proof -
  let ?N = "numerator f" and ?D = "denominator f"
  obtain p1 q1 P Q u d where c: "\<bar>p1 * Q - P * q1\<bar> = 1" "0 < u" "0 < d" "0 < q1" "0 < Q" "q1 \<le> M" "Q \<le> M"
      "M < q1 + Q" "?N = p1 * u + P * d" "?D = q1 * u + Q * d"
    and res: "limit_denominator f M = Inr (if d * Q \<le> u * q1 then from_coprime_ints p1 q1 else from_coprime_ints P Q)"
    by (rule limit_denominator_chosen[OF assms])
  have D: "0 < ?D" using assms by (simp add: normalD)
  have "?N * q1 - p1 * ?D = d * (P * q1 - p1 * Q)" "?N * Q - P * ?D = u * (p1 * Q - P * q1)"
    by (simp_all add: c(9,10) algebra_simps)
  then have n: "\<bar>?N * q1 - p1 * ?D\<bar> = d" "\<bar>?N * Q - P * ?D\<bar> = u"
    using c(1-3) abs_minus_commute[of "p1 * Q" "P * q1"] by (simp_all add: abs_mult)
  note d1 = rat_dist[OF D c(4), of ?N p1, unfolded n(1)] and d2 = rat_dist[OF D c(5), of ?N P, unfolded n(2)]
  have bound: "min (of_int d / of_int (?D * q1)) (of_int u / of_int (?D * Q)) \<le>
      \<bar>of_int ?N / of_int ?D - of_int p / of_int q :: rat\<bar>" if "0 < q" "q \<le> M" for p q
  proof -
    have "q < q1 + Q" using that c(8) by simp
    from between_candidates[OF c(1-5) that(1) this c(9,10), of p]
    show ?thesis unfolding rat_dist[OF D that(1)]
      by (metis closer_candidate[OF D that(1) c(4)] closer_candidate[OF D that(1) c(5)] min.coboundedI1 min.coboundedI2)
  qed
  have cmp: "(of_int d :: rat) / of_int (?D * q1) \<le> of_int u / of_int (?D * Q) \<longleftrightarrow> d * Q \<le> u * q1"
  proof -
    have "(of_int d :: rat) / of_int (?D * q1) \<le> of_int u / of_int (?D * Q) \<longleftrightarrow>
        (of_int (d * Q) :: rat) \<le> of_int (u * q1)"
      using D c(4,5) by (simp add: field_simps)
    then show ?thesis by (simp only: of_int_le_iff)
  qed
  have cop: "coprime p1 q1" "coprime P Q"
    using coprime_det[of p1 Q P q1] coprime_det[of P q1 p1 Q] c(1) by (simp_all add: abs_minus_commute)
  show ?thesis
  proof (cases "d * Q \<le> u * q1")
    case True
    show ?thesis
    proof (rule that[of "from_coprime_ints p1 q1"])
      fix p q assume "0 < q" "q \<le> M"
      from bound[OF this, of p] True show "\<bar>frac_val f - frac_val (from_coprime_ints p1 q1)\<bar> \<le> \<bar>frac_val f - of_int p / of_int q\<bar>"
        unfolding frac_val_def[of f] frac_simps d1 by (simp only: min_def cmp if_True)
    qed (use True res cop(1) c(4,6) in \<open>simp_all add: frac_simps\<close>)
  next
    case False
    show ?thesis
    proof (rule that[of "from_coprime_ints P Q"])
      fix p q assume "0 < q" "q \<le> M"
      from bound[OF this, of p] False show "\<bar>frac_val f - frac_val (from_coprime_ints P Q)\<bar> \<le> \<bar>frac_val f - of_int p / of_int q\<bar>"
        unfolding frac_val_def[of f] frac_simps d2 by (simp only: min_def cmp if_False)
    qed (use False res cop(2) c(5,7) in \<open>simp_all add: frac_simps\<close>)
  qed
qed

section \<open>Properties\<close>

text \<open>
  C9: on fractions in lowest terms with a positive denominator, \<^verbatim>\<open>+\<close>, \<^verbatim>\<open>-\<close>, \<^verbatim>\<open>*\<close> and \<^verbatim>\<open>/\<close> return
  fractions in lowest terms with a positive denominator whose values are exactly the sum,
  difference, product and quotient, without ever reducing the final result by a full gcd.
\<close>

theorem fraction_arithmetic_exact:
  assumes "normal a" and "normal b"
  shows "normal (frac_add a b) \<and> frac_val (frac_add a b) = frac_val a + frac_val b \<and>
    normal (frac_sub a b) \<and> frac_val (frac_sub a b) = frac_val a - frac_val b \<and>
    normal (frac_mul a b) \<and> frac_val (frac_mul a b) = frac_val a * frac_val b \<and>
    (if frac_val b = 0 then frac_div a b = Inl ZeroDivisionError
     else \<exists>q. frac_div a b = Inr q \<and> normal q \<and> frac_val q = frac_val a / frac_val b)"
proof -
  have "frac_div a b = Inl ZeroDivisionError" if "numerator b = 0"
    using that by (simp add: frac_div_def)
  then show ?thesis
    using frac_add_normal[OF assms] frac_sub_normal[OF assms] frac_mul_normal[OF assms]
      frac_val_zero_iff[OF assms(2)] frac_div_normal[OF assms]
    by (metis (no_types, lifting))
qed

theorem fraction_arithmetic_exact_witness:
  "frac_add (from_coprime_ints 1 6) (from_coprime_ints 1 10) = from_coprime_ints 4 15 \<and>
   frac_val (from_coprime_ints 4 15) = frac_val (from_coprime_ints 1 6) + frac_val (from_coprime_ints 1 10)"
proof -
  have "normal (from_coprime_ints 1 6)" "normal (from_coprime_ints 1 10)" by (simp_all add: frac_simps)
  note fraction_arithmetic_exact[OF this]
  moreover have "frac_add (from_coprime_ints 1 6) (from_coprime_ints 1 10) = from_coprime_ints 4 15"
    by code_simp
  ultimately show ?thesis by simp
qed

text \<open>
  C8: \<^verbatim>\<open>limit_denominator\<close> always returns (its loop ends, no division by zero happens), and what it
  returns is in lowest terms, respects the bound, and is at least as close to the fraction as
  every other fraction whose denominator respects the bound.
\<close>

theorem limit_denominator_best:
  assumes "normal f" and "1 \<le> m"
  shows "\<exists>g. limit_denominator f m = Inr g \<and> normal g \<and> denominator g \<le> m \<and>
    (\<forall>p q. 0 < q \<and> q \<le> m \<longrightarrow> \<bar>frac_val f - frac_val g\<bar> \<le> \<bar>frac_val f - of_int p / of_int q\<bar>)"
proof (cases "denominator f \<le> m")
  case True
  then show ?thesis using assms by (simp add: limit_denominator_def fraction_new_def frac_simps normal_def[of f] frac_val_def)
next
  case False
  then have "m < denominator f" by simp
  from limit_denominator_closest[OF assms this] show ?thesis by metis
qed

theorem limit_denominator_best_witness:
  "\<exists>g. limit_denominator (from_coprime_ints 314159 100000) 10 = Inr g \<and>
     \<bar>frac_val (from_coprime_ints 314159 100000) - frac_val g\<bar> \<le>
     \<bar>frac_val (from_coprime_ints 314159 100000) - 22 / 7\<bar>"
proof -
  have "gcd (314159 :: int) 100000 = 1" by code_simp
  then have "normal (from_coprime_ints 314159 100000)" by (simp add: frac_simps coprime_iff_gcd_eq_1)
  from limit_denominator_best[OF this, of 10] obtain g where
    "limit_denominator (from_coprime_ints 314159 100000) 10 = Inr g"
    and "\<forall>p q. 0 < q \<and> q \<le> 10 \<longrightarrow> \<bar>frac_val (from_coprime_ints 314159 100000) - frac_val g\<bar> \<le>
      \<bar>frac_val (from_coprime_ints 314159 100000) - of_int p / of_int q\<bar>" by auto
  from this(1) this(2)[rule_format, of 7 22] show ?thesis by auto
qed

text \<open>
  C10: rounding a fraction to an integer returns the nearest integer, and the even one of the two
  when the fraction lies halfway between them.
\<close>

theorem fraction_round_half_even:
  assumes "normal a"
  shows "\<bar>frac_val a - of_int (round_int a)\<bar> \<le> 1 / 2 \<and>
    (\<bar>frac_val a - of_int (round_int a)\<bar> = 1 / 2 \<longrightarrow> even (round_int a))"
  using round_int_nearest[OF assms] by blast

theorem fraction_round_half_even_witness:
  "round_int (from_coprime_ints 5 2) = 2 \<and> \<bar>frac_val (from_coprime_ints 5 2) - 2\<bar> \<le> 1 / 2"
  using fraction_round_half_even[of "from_coprime_ints 5 2"] by (simp add: round_int_def frac_simps)

end
