(* ===== verification/PyInt.thy ===== *)
theory PyInt
  imports PyText
begin

text \<open>
  Python's unbounded integers: \<^verbatim>\<open>int.bit_length\<close>, shifts and masks as multiplication, division
  and remainder, and the facts on floor division the numeric components share.
\<close>

section \<open>Bit operations\<close>

fun bit_length_nat :: "nat \<Rightarrow> nat" where
  "bit_length_nat n = (if n = 0 then 0 else Suc (bit_length_nat (n div 2)))"

declare bit_length_nat.simps [simp del]

definition bit_length :: "int \<Rightarrow> nat" where
  "bit_length a = bit_length_nat (nat \<bar>a\<bar>)"

section \<open>Bit operations as arithmetic\<close>

named_theorems bit_arith \<open>shifts and masks as multiplication and division\<close>

lemma push_bit_arith [bit_arith]: "push_bit n (x :: int) = x * 2 ^ n"
  by (simp add: push_bit_eq_mult)

lemma drop_bit_arith [bit_arith]: "drop_bit n (x :: int) = x div 2 ^ n"
  by (simp add: drop_bit_eq_div)

lemma and_mask_arith [bit_arith]:
  "(x :: int) AND (push_bit n 1 - 1) = x mod 2 ^ n" "(x :: int) AND (2 ^ n - 1) = x mod 2 ^ n"
  by (simp_all add: push_bit_eq_mult take_bit_eq_mod[symmetric] take_bit_eq_mask mask_eq_exp_minus_1)

lemma push_or_arith:
  assumes "0 \<le> (y :: int)" and "y < 2 ^ n"
  shows "push_bit n x OR y = x * 2 ^ n + y"
proof -
  have "\<not> bit y j" if "n \<le> j" for j
    using assms that by (metis bit_take_bit_iff linorder_not_le take_bit_int_eq_self)
  then have "push_bit n x + y = push_bit n x OR y"
    by (intro disjunctive_add) (auto simp: bit_push_bit_iff)
  then show ?thesis by (simp add: push_bit_eq_mult)
qed

lemma xor_upper_arith: "x XOR push_bit s (drop_bit s x) = (x :: int) mod 2 ^ s"
  by (rule bit_eqI) (auto simp: bit_xor_iff bit_push_bit_iff bit_drop_bit_eq bit_take_bit_iff simp flip: take_bit_eq_mod)

lemma bit_length_nat_bounds:
  "n < 2 ^ bit_length_nat n" "0 < n \<Longrightarrow> 2 ^ (bit_length_nat n - 1) \<le> n"
proof (induction n rule: bit_length_nat.induct)
  case (1 n)
  { case 1
    show ?case using "1.IH"(1) by (cases "n = 0") (auto simp: bit_length_nat.simps[of n])
  next
    case 2
    then have eq: "bit_length_nat n = Suc (bit_length_nat (n div 2))" by (simp add: bit_length_nat.simps[of n])
    show ?case
    proof (cases "n div 2 = 0")
      case True
      then show ?thesis using 2 eq by (simp add: bit_length_nat.simps[of 0])
    next
      case False
      then obtain k where k: "bit_length_nat (n div 2) = Suc k" by (simp add: bit_length_nat.simps[of "n div 2"])
      have "2 ^ k \<le> n div 2" using "1.IH"(2) 2 False k by simp
      then show ?thesis unfolding eq k by simp
    qed
  }
qed

lemma bit_length_bounds:
  assumes "0 < a"
  shows "a < 2 ^ bit_length a" and "2 ^ (bit_length a - 1) \<le> a" and "0 < bit_length a"
proof -
  have "nat a < 2 ^ bit_length_nat (nat a)" "2 ^ (bit_length_nat (nat a) - 1) \<le> nat a"
    using bit_length_nat_bounds[of "nat a"] assms by simp_all
  then show "a < 2 ^ bit_length a" "2 ^ (bit_length a - 1) \<le> a"
    using assms by (simp_all add: bit_length_def nat_less_iff le_nat_iff)
  show "0 < bit_length a" using assms by (simp add: bit_length_def bit_length_nat.simps[of "nat a"])
qed


section \<open>Floor division\<close>

lemma div_mod_eqI:
  fixes a b q r :: int
  assumes "a = q * b + r" and "0 \<le> r" and "r < b"
  shows "a div b = q" and "a mod b = r"
  using assms by simp_all

lemma div_mult_le_self: "0 < b \<Longrightarrow> x div b * b \<le> (x :: int)"
  using div_mult_mod_eq[of x b] pos_mod_sign[of b x] by linarith

lemma less_mult_of_div:
  fixes x b c :: int
  assumes "x div b < c" and "0 < b"
  shows "x < c * b"
proof -
  have "(x div b + 1) * b \<le> c * b" using assms by (intro mult_right_mono) auto
  then show ?thesis
    using div_mult_mod_eq[of x b] pos_mod_bound[OF assms(2), of x] unfolding distrib_right by linarith
qed

lemma div_less_of_mult:
  fixes x b c :: int
  assumes "x < c * b" and "0 < b"
  shows "x div b < c"
proof (rule ccontr)
  assume "\<not> x div b < c"
  then have "c * b \<le> x div b * b" using assms by (intro mult_right_mono) auto
  also have "\<dots> \<le> x" using assms by (simp add: div_mult_le_self)
  finally show False using assms by simp
qed

lemma div_mod_shift:
  fixes x b c r :: int
  assumes "x = c * b + r" and "0 < b"
  shows "x div b = c + r div b" and "x mod b = r mod b"
  using assms by simp_all

section \<open>Bounds of \<open>bit_length\<close>\<close>

lemma bit_length_le:
  assumes "0 \<le> a" and "a < 2 ^ k"
  shows "bit_length a \<le> k"
proof (cases "a = 0")
  case True
  then show ?thesis by (simp add: bit_length_def bit_length_nat.simps[of 0])
next
  case False
  with assms have "2 ^ (bit_length a - 1) \<le> a" using bit_length_bounds(2) by simp
  with assms(2) have "(2 :: int) ^ (bit_length a - 1) < 2 ^ k" by linarith
  then show ?thesis by (simp add: power_strict_increasing_iff)
qed

end
