(* ===== verification/Pylong.thy ===== *)
theory Pylong
  imports PyInt
begin

text \<open>
  \<^verbatim>\<open>_pylong.py\<close> of the shipped Python runtime: the divide-and-conquer algorithms the
  interpreter switches to for huge integers.  Division is Burnikel and Ziegler's recursive
  algorithm over a grade-school outer loop; conversion from and to decimal text splits the
  digits in halves.  Recursive calls that Python bounds by its recursion limit take fuel; a
  \<^verbatim>\<open>while\<close> loop that may not end is a partial function, \<open>None\<close> when it does not.
\<close>

section \<open>Recursive division\<close>

definition DIV_LIMIT :: int where
  "DIV_LIMIT = 4000"

text \<open>\<^verbatim>\<open>while r < 0: q -= 1; r += b\<close>\<close>

partial_function (option) raise_remainder :: "int \<Rightarrow> int \<Rightarrow> int \<Rightarrow> (int \<times> int) option" where
  "raise_remainder b q r = (if r < 0 then raise_remainder b (q - 1) (r + b) else Some (q, r))"

text \<open>\<^verbatim>\<open>_div3n2n\<close> over the \<^verbatim>\<open>_div2n1n\<close> it calls.\<close>

definition div3n2n ::
  "(int \<Rightarrow> int \<Rightarrow> nat \<Rightarrow> (int \<times> int) option) \<Rightarrow> int \<Rightarrow> int \<Rightarrow> int \<Rightarrow> int \<Rightarrow> int \<Rightarrow> nat \<Rightarrow> (int \<times> int) option" where
  "div3n2n div2n1n a12 a3 b b1 b2 n =
     Option.bind
       (if drop_bit n a12 = b1 then Some (push_bit n 1 - 1, a12 - push_bit n b1 + b1)
        else div2n1n a12 b1 n)
       (\<lambda>(q, r). raise_remainder b q ((push_bit n r OR a3) - q * b2))"

fun div2n1n :: "nat \<Rightarrow> int \<Rightarrow> int \<Rightarrow> nat \<Rightarrow> (int \<times> int) option" where
  "div2n1n 0 a b n = None"
| "div2n1n (Suc fuel) a b n =
     (if int (bit_length a) - int n \<le> DIV_LIMIT then Some (a div b, a mod b)
      else
        let pad = odd n;
            a' = (if pad then push_bit 1 a else a);
            b' = (if pad then push_bit 1 b else b);
            n' = (if pad then n + 1 else n);
            half_n = n' div 2;
            msk = push_bit half_n 1 - 1;
            b1 = drop_bit half_n b';
            b2 = b' AND msk
        in Option.bind (div3n2n (div2n1n fuel) (drop_bit n' a') (drop_bit half_n a' AND msk) b' b1 b2 half_n) (\<lambda>(q1, r).
           Option.bind (div3n2n (div2n1n fuel) r (a' AND msk) b' b1 b2 half_n) (\<lambda>(q2, r).
           Some (push_bit half_n q1 OR q2, if pad then drop_bit 1 r else r))))"

section \<open>Digits in base \<open>2^n\<close>\<close>

text \<open>\<^verbatim>\<open>inner(x, L, R)\<close> of \<^verbatim>\<open>_int2digits\<close> on the array it fills; called with \<open>L < R\<close> only.\<close>

function int2digits_inner :: "nat \<Rightarrow> int \<Rightarrow> nat \<Rightarrow> nat \<Rightarrow> int list \<Rightarrow> int list" where
  "int2digits_inner n x L R ds =
     (if R \<le> L + 1 then ds[L := x]
      else let mid = (L + R) div 2;
               shift = (mid - L) * n;
               upper = drop_bit shift x;
               lower = x XOR push_bit shift upper
           in int2digits_inner n upper mid R (int2digits_inner n lower L mid ds))"
  by pat_completeness auto
termination by (relation "measure (\<lambda>(n, x, L, R, ds). R - L)") auto

declare int2digits_inner.simps [simp del]

definition int2digits :: "int \<Rightarrow> nat \<Rightarrow> int list" where
  "int2digits a n =
     (let ds = replicate ((bit_length a + n - 1) div n) 0
      in if a \<noteq> 0 then int2digits_inner n a 0 (length ds) ds else ds)"

function digits2int_inner :: "int list \<Rightarrow> nat \<Rightarrow> nat \<Rightarrow> nat \<Rightarrow> int" where
  "digits2int_inner ds n L R =
     (if R \<le> L + 1 then ds ! L
      else let mid = (L + R) div 2;
               shift = (mid - L) * n
           in push_bit shift (digits2int_inner ds n mid R) + digits2int_inner ds n L mid)"
  by pat_completeness auto
termination by (relation "measure (\<lambda>(ds, n, L, R). R - L)") auto

declare digits2int_inner.simps [simp del]

definition digits2int :: "int list \<Rightarrow> nat \<Rightarrow> int" where
  "digits2int ds n = (if ds \<noteq> [] then digits2int_inner ds n 0 (length ds) else 0)"

text \<open>
  The loop of \<^verbatim>\<open>_divmod_pos\<close> from the most significant digit down; the state is the digits of
  the quotient so far, in reverse, and the remainder.  The fuel of each division is the bit
  length of the divisor, more than the depth of the recursion.
\<close>

fun divmod_digits :: "int \<Rightarrow> nat \<Rightarrow> int list \<Rightarrow> int list \<Rightarrow> int \<Rightarrow> (int list \<times> int) option" where
  "divmod_digits b n [] q_digits r = Some (q_digits, r)"
| "divmod_digits b n (a_digit # rest) q_digits r =
     Option.bind (div2n1n n (push_bit n r + a_digit) b n) (\<lambda>(q_digit, r).
       divmod_digits b n rest (q_digits @ [q_digit]) r)"

definition divmod_pos :: "int \<Rightarrow> int \<Rightarrow> (int \<times> int) option" where
  "divmod_pos a b =
     (let n = bit_length b;
          a_digits = int2digits a n
      in Option.bind (divmod_digits b n (rev a_digits) [] 0) (\<lambda>(q_digits, r).
           Some (digits2int (rev q_digits) n, r)))"

text \<open>\<^verbatim>\<open>int_divmod\<close>: \<open>None\<close> when the computation does not return.\<close>

function int_divmod :: "int \<Rightarrow> int \<Rightarrow> (int \<times> int) result option" where
  "int_divmod a b =
     (if b = 0 then Some (Inl ZeroDivisionError)
      else if b < 0 then map_option (map_sum id (\<lambda>(q, r). (q, - r))) (int_divmod (- a) (- b))
      else if a < 0 then map_option (map_sum id (\<lambda>(q, r). (NOT q, b + NOT r))) (int_divmod (NOT a) b)
      else map_option Inr (divmod_pos a b))"
  by pat_completeness auto
termination
  by (relation "measure (\<lambda>(a, b). (if b < 0 then 2 else 0) + (if a < 0 then 1 else 0))")
     (auto simp: not_int_def)

declare int_divmod.simps [simp del]

section \<open>The recursive division is division\<close>

lemma raise_remainder_ok:
  assumes "0 < b" and "r < b"
  shows "raise_remainder b q r = Some (q + r div b, r mod b)"
proof (cases "0 \<le> r")
  case True
  then show ?thesis using assms by (simp add: raise_remainder.simps)
next
  case False
  from this assms show ?thesis
  proof (induction "nat (- r)" arbitrary: q r rule: less_induct)
    case less
    have step: "raise_remainder b q r = raise_remainder b (q - 1) (r + b)"
      using less.prems(1) by (subst raise_remainder.simps) simp
    have eq: "(r + b) div b = r div b + 1" "(r + b) mod b = r mod b"
      using less.prems by (simp_all add: div_add_self2)
    show ?case
    proof (cases "0 \<le> r + b")
      case True
      then have "raise_remainder b (q - 1) (r + b) = Some (q - 1, r + b)"
        by (simp add: raise_remainder.simps)
      moreover have "(r + b) div b = 0" "(r + b) mod b = r + b"
        using True less.prems div_pos_pos_trivial[of "r + b" b] mod_pos_pos_trivial[of "r + b" b] by linarith+
      ultimately show ?thesis using step eq by simp
    next
      case False
      then have "raise_remainder b (q - 1) (r + b) = Some (q - 1 + (r + b) div b, (r + b) mod b)"
        using less.prems by (intro less.hyps) auto
      then show ?thesis using step eq by simp
    qed
  qed
qed

text \<open>What \<^verbatim>\<open>_div2n1n\<close> asks of its arguments.\<close>

definition div_ready :: "int \<Rightarrow> int \<Rightarrow> nat \<Rightarrow> bool" where
  "div_ready a b n \<longleftrightarrow> 0 < n \<and> 2 ^ (n - 1) \<le> b \<and> b < 2 ^ n \<and> 0 \<le> a \<and> a < 2 ^ n * b"

lemma quotient_fits:
  fixes a12 a3 b :: int and h :: nat
  assumes "0 \<le> a12" and "a12 < b" and "0 \<le> a3" and "a3 < 2 ^ h"
  shows "0 \<le> (a12 * 2 ^ h + a3) div b" and "(a12 * 2 ^ h + a3) div b < 2 ^ h"
proof -
  have b: "0 < b" using assms by simp
  show "0 \<le> (a12 * 2 ^ h + a3) div b" using assms b by (simp add: pos_imp_zdiv_nonneg_iff)
  have "(a12 + 1) * 2 ^ h \<le> b * (2 ^ h :: int)" using assms by (intro mult_right_mono) auto
  then have "a12 * 2 ^ h + a3 < 2 ^ h * b" using assms by (simp add: algebra_simps)
  then show "(a12 * 2 ^ h + a3) div b < 2 ^ h" using b by (rule div_less_of_mult)
qed


lemma div3n2n_ok:
  assumes rec: "\<And>a b. div_ready a b h \<Longrightarrow> f a b h = Some (a div b, a mod b)"
    and b: "b = b1 * 2 ^ h + b2" "2 ^ (h - 1) \<le> b1" "b1 < 2 ^ h" "0 < h" "0 \<le> b2" "b2 < 2 ^ h"
    and a: "0 \<le> a12" "a12 < b" "0 \<le> a3" "a3 < 2 ^ h"
  shows "div3n2n f a12 a3 b b1 b2 h = Some ((a12 * 2 ^ h + a3) div b, (a12 * 2 ^ h + a3) mod b)"
proof -
  let ?A = "a12 * 2 ^ h + a3"
  have b1: "0 < b1" using b(2) by (metis less_le_trans zero_less_numeral zero_less_power)
  have bpos: "0 < b" using a by simp
  define qr where "qr = (if drop_bit h a12 = b1 then Some (push_bit h 1 - 1, a12 - push_bit h b1 + b1) else f a12 b1 h)"
  obtain q r where qr: "qr = Some (q, r)" and split: "a12 = q * b1 + r" and r: "0 \<le> r"
    and small: "r * 2 ^ h + a3 - q * b2 < b"
  proof (cases "drop_bit h a12 = b1")
    case True
    have "b1 * 2 ^ h \<le> a12" using True div_mult_le_self[of "2 ^ h" a12] by (simp add: drop_bit_arith)
    moreover have "(2 ^ h - 1) * b1 + (a12 - b1 * 2 ^ h + b1) = a12" by (simp add: algebra_simps)
    moreover have "(a12 - b1 * 2 ^ h + b1) * 2 ^ h + a3 - (2 ^ h - 1) * b2 < b"
    proof -
      have "(a12 + 1) * 2 ^ h \<le> b * 2 ^ h" using a by (intro mult_right_mono) auto
      moreover have "(a12 - b1 * 2 ^ h + b1) * 2 ^ h + a3 - (2 ^ h - 1) * b2 =
          (a12 + 1) * 2 ^ h + a3 - 2 ^ h - b * 2 ^ h + b"
        by (simp add: b(1) algebra_simps)
      ultimately show ?thesis using a by linarith
    qed
    ultimately show ?thesis using True b1 by (intro that[of "2 ^ h - 1" "a12 - b1 * 2 ^ h + b1"]) (simp_all add: qr_def bit_arith)
  next
    case False
    have "a12 div 2 ^ h \<le> b1"
    proof -
      have "a12 < (b1 + 1) * 2 ^ h" using a(2) b by (simp add: algebra_simps)
      then show ?thesis using div_less_of_mult[of a12 "b1 + 1" "2 ^ h"] by simp
    qed
    with False have "a12 div 2 ^ h < b1" by (simp add: drop_bit_arith)
    then have "a12 < 2 ^ h * b1" using less_mult_of_div[of a12 "2 ^ h" b1] by (simp add: mult.commute)
    then have "div_ready a12 b1 h" using a b by (simp add: div_ready_def)
    moreover have m: "0 \<le> a12 mod b1" "a12 mod b1 < b1" using b1 by simp_all
    moreover have "0 \<le> a12 div b1 * b2" using a b b1 by (simp add: pos_imp_zdiv_nonneg_iff)
    moreover have "(a12 mod b1 + 1) * 2 ^ h \<le> b1 * 2 ^ h" using m by (intro mult_right_mono) auto
    then have "a12 mod b1 * 2 ^ h + a3 < b" using a b by (simp add: algebra_simps)
    ultimately show ?thesis using False rec by (intro that[of "a12 div b1" "a12 mod b1"]) (simp_all add: qr_def)
  qed
  have A: "q * b + (r * 2 ^ h + a3 - q * b2) = ?A" by (simp add: b(1) split algebra_simps)
  have "div3n2n f a12 a3 b b1 b2 h = raise_remainder b q (r * 2 ^ h + a3 - q * b2)"
    using qr a by (simp add: div3n2n_def qr_def[symmetric] push_or_arith)
  also have "\<dots> = Some (q + (r * 2 ^ h + a3 - q * b2) div b, (r * 2 ^ h + a3 - q * b2) mod b)"
    by (rule raise_remainder_ok[OF bpos small])
  also have "\<dots> = Some (?A div b, ?A mod b)"
    using bpos by (simp flip: A)
  finally show ?thesis .
qed


text \<open>One level of the recursion on an even number of bits, over correct divisions of half the size.\<close>

lemma div_halves:
  assumes rec: "\<And>a b. div_ready a b h \<Longrightarrow> f a b h = Some (a div b, a mod b)"
    and ready: "div_ready a b (2 * h)" and h: "0 < h"
  defines "msk \<equiv> push_bit h 1 - 1"
  shows "Option.bind (div3n2n f (drop_bit (2 * h) a) (drop_bit h a AND msk) b (drop_bit h b) (b AND msk) h) (\<lambda>(q1, r).
         Option.bind (div3n2n f r (a AND msk) b (drop_bit h b) (b AND msk) h) (\<lambda>(q2, r).
         Some (push_bit h q1 OR q2, g r))) = Some (a div b, g (a mod b))"
proof -
  let ?p = "2 ^ h :: int"
  have b: "0 < b" "2 ^ (2 * h - 1) \<le> b" "b < 2 ^ (2 * h)" and a: "0 \<le> a" "a < 2 ^ (2 * h) * b"
    using ready h by (auto simp: div_ready_def intro: less_le_trans[of _ "2 ^ (2 * h - 1)"])
  have sq: "(2 :: int) ^ (2 * h) = ?p * ?p" by (simp add: mult_2 power_add)
  have half: "(2 :: int) ^ (2 * h - 1) = 2 ^ (h - 1) * ?p"
    using h by (simp add: power_add[symmetric] mult_2)
  have b1: "b = b div ?p * ?p + b mod ?p" "2 ^ (h - 1) \<le> b div ?p" "b div ?p < ?p" "0 \<le> b mod ?p" "b mod ?p < ?p"
    using b[unfolded sq half] div_less_of_mult[of b ?p ?p] zdiv_mono1[of "2 ^ (h - 1) * ?p" b ?p]
      div_mult_mod_eq[of b ?p] by simp_all
  note div3 = div3n2n_ok[where f = f and h = h and b = b, OF rec b1(1-3) h b1(4,5)]
  define hi where "hi = a div ?p"
  have hi: "drop_bit (2 * h) a = hi div ?p" "drop_bit h a AND msk = hi mod ?p" "a AND msk = a mod ?p"
    by (simp_all add: hi_def msk_def bit_arith sq zdiv_zmult2_eq)
  have a12: "0 \<le> hi div ?p" "hi div ?p < b"
  proof -
    have "hi div ?p = a div 2 ^ (2 * h)" by (simp add: hi_def sq zdiv_zmult2_eq)
    then show "0 \<le> hi div ?p" "hi div ?p < b"
      using a div_less_of_mult[of a b "2 ^ (2 * h)"] by (simp_all only: mult.commute) (simp_all add: pos_imp_zdiv_nonneg_iff)
  qed
  have first: "div3n2n f (hi div ?p) (hi mod ?p) b (b div ?p) (b mod ?p) h = Some (hi div b, hi mod b)"
    using div3[of "hi div ?p" "hi mod ?p", unfolded div_mult_mod_eq] a12 by simp
  let ?lo = "(hi mod b) * ?p + a mod ?p"
  have second: "div3n2n f (hi mod b) (a mod ?p) b (b div ?p) (b mod ?p) h = Some (?lo div b, ?lo mod b)"
    using div3[of "hi mod b" "a mod ?p"] b by simp
  have q2: "0 \<le> ?lo div b" "?lo div b < ?p"
    using quotient_fits[of "hi mod b" b "a mod ?p" h] b by simp_all
  have "a = hi * ?p + a mod ?p" unfolding hi_def div_mult_mod_eq ..
  also have "\<dots> = (hi div b * b + hi mod b) * ?p + a mod ?p" unfolding div_mult_mod_eq ..
  also have "\<dots> = (hi div b * ?p) * b + ?lo"
    by (simp only: distrib_right mult.assoc mult.commute[of b] add.assoc)
  finally have "a = (hi div b * ?p) * b + ?lo" .
  from div_mod_shift[OF this b(1)]
  have "a div b = hi div b * ?p + ?lo div b" "a mod b = ?lo mod b" .
  then show ?thesis
    unfolding hi using first second push_or_arith[OF q2] by (simp add: msk_def and_mask_arith drop_bit_arith)
qed


lemma div2n1n_ok: "div_ready a b n \<Longrightarrow> n \<le> fuel \<Longrightarrow> div2n1n fuel a b n = Some (a div b, a mod b)"
proof (induction fuel arbitrary: a b n)
  case 0
  then show ?case by (simp add: div_ready_def)
next
  case (Suc fuel)
  have b: "0 < b" "2 ^ (n - 1) \<le> b" "b < 2 ^ n" and a: "0 \<le> a" "a < 2 ^ n * b" and n: "0 < n"
    using Suc.prems(1) by (auto simp: div_ready_def intro: less_le_trans[of _ "2 ^ (n - 1)"])
  show ?case
  proof (cases "int (bit_length a) - int n \<le> DIV_LIMIT")
    case True
    then show ?thesis by simp
  next
    case False
    have "a < 2 ^ (n + n)"
      unfolding power_add by (rule less_trans[OF a(2)], rule mult_strict_left_mono[OF b(3)]) simp
    then have "bit_length a \<le> n + n" by (rule bit_length_le[OF a(1)])
    with False have big: "1 < n" by (simp add: DIV_LIMIT_def)
    define h where "h = (if odd n then n + 1 else n) div 2"
    have h: "0 < h" "h \<le> fuel" "h < n" using big Suc.prems(2) by (auto simp: h_def elim!: oddE)
    have rec: "div2n1n fuel a b h = Some (a div b, a mod b)" if "div_ready a b h" for a b
      using Suc.IH[OF that h(2)] .
    show ?thesis
    proof (cases "odd n")
      case True
      then have n': "n + 1 = 2 * h" by (auto simp: h_def)
      have "2 ^ n = 2 * (2 :: int) ^ (n - 1)" using n by (simp flip: power_Suc)
      moreover have "2 ^ (n + 1) * (2 * b) = 4 * (2 ^ n * b)" by simp
      then have "2 * a < 2 ^ (n + 1) * (2 * b)" using a by linarith
      ultimately have "div_ready (push_bit 1 a) (push_bit 1 b) (2 * h)"
        using a(1) b n unfolding div_ready_def n'[symmetric] by (simp add: push_bit_double)
      from div_halves[of h "div2n1n fuel", OF rec this h(1), where g = "drop_bit 1"]
      have "div2n1n (Suc fuel) a b n =
          Some (push_bit 1 a div push_bit 1 b, drop_bit 1 (push_bit 1 a mod push_bit 1 b))"
        unfolding div2n1n.simps Let_def if_not_P[OF False] if_P[OF True] n' by simp
      then show ?thesis by (simp add: bit_arith mult_mod_left[symmetric])
    next
      case even: False
      then have n': "n = 2 * h" by (auto simp: h_def)
      from div_halves[of h "div2n1n fuel", OF rec Suc.prems(1)[unfolded n'] h(1), where g = id]
      show ?thesis using False even by (simp add: n' Let_def)
    qed
  qed
qed

section \<open>Digits\<close>

lemma length_int2digits_inner [simp]: "length (int2digits_inner n x L R ds) = length ds"
  by (induction n x L R ds rule: int2digits_inner.induct) (subst int2digits_inner.simps, simp add: Let_def)

lemma int2digits_inner_nth:
  assumes "L < R" and "R \<le> length ds" and "0 \<le> x" and "x < 2 ^ ((R - L) * n)" and "i < length ds"
  shows "int2digits_inner n x L R ds ! i =
    (if L \<le> i \<and> i < R then x div 2 ^ ((i - L) * n) mod 2 ^ n else ds ! i)"
  using assms
proof (induction n x L R ds rule: int2digits_inner.induct)
  case (1 n x L R ds)
  show ?case
  proof (cases "R \<le> L + 1")
    case True
    then have "R = L + 1" using 1 by simp
    with True 1 show ?thesis by (subst int2digits_inner.simps) (auto simp: nth_list_update)
  next
    case False
    define mid where "mid = (L + R) div 2"
    have mid: "L < mid" "mid < R" using False by (auto simp: mid_def)
    define u l where "u = x div 2 ^ ((mid - L) * n)" and "l = x mod 2 ^ ((mid - L) * n)"
    have ul: "drop_bit ((mid - L) * n) x = u" "x XOR push_bit ((mid - L) * n) u = l"
      using xor_upper_arith[of x "(mid - L) * n"] by (simp_all add: u_def l_def drop_bit_arith)
    have step: "int2digits_inner n x L R ds = int2digits_inner n u mid R (int2digits_inner n l L mid ds)"
      using False by (subst int2digits_inner.simps) (simp add: Let_def ul flip: mid_def)
    have "(R - L) * n = (mid - L) * n + (R - mid) * n"
      using mid by (simp flip: distrib_right)
    then have ub: "u < 2 ^ ((R - mid) * n)"
      using "1.prems"(4) div_less_of_mult[of x "2 ^ ((R - mid) * n)" "2 ^ ((mid - L) * n)"]
      by (simp add: u_def power_add mult.commute)
    note lo = "1.IH"(1)[OF False mid_def refl ul(1)[symmetric] ul(2)[symmetric]]
    note hi = "1.IH"(2)[OF False mid_def refl ul(1)[symmetric] ul(2)[symmetric]]
    have hi': "int2digits_inner n u mid R (int2digits_inner n l L mid ds) ! i =
        (if mid \<le> i \<and> i < R then u div 2 ^ ((i - mid) * n) mod 2 ^ n else int2digits_inner n l L mid ds ! i)"
      using mid "1.prems" ub by (intro hi) (auto simp: u_def pos_imp_zdiv_nonneg_iff)
    have lo': "int2digits_inner n l L mid ds ! i =
        (if L \<le> i \<and> i < mid then l div 2 ^ ((i - L) * n) mod 2 ^ n else ds ! i)"
      using mid "1.prems" by (intro lo) (auto simp: l_def)
    have "u div 2 ^ ((i - mid) * n) = x div 2 ^ ((i - L) * n)" if "mid \<le> i"
    proof -
      have "(i - L) * n = (mid - L) * n + (i - mid) * n" using that mid by (simp flip: distrib_right)
      then show ?thesis by (simp add: u_def power_add zdiv_zmult2_eq)
    qed
    moreover have "l div 2 ^ ((i - L) * n) mod 2 ^ n = x div 2 ^ ((i - L) * n) mod 2 ^ n" if "L \<le> i" "i < mid"
    proof -
      have "Suc (i - L) \<le> mid - L" using that by arith
      then have "(i - L) * n + n \<le> (mid - L) * n" using mult_le_mono1[of "Suc (i - L)" "mid - L" n] by simp
      then show ?thesis
        by (auto simp: l_def bit_eq_iff bit_take_bit_iff bit_drop_bit_eq simp flip: take_bit_eq_mod drop_bit_eq_div)
    qed
    ultimately show ?thesis unfolding step hi' lo' using mid by auto
  qed
qed


text \<open>The value of little-endian digits in base \<open>2^n\<close>.\<close>

fun digits_val :: "nat \<Rightarrow> int list \<Rightarrow> int" where
  "digits_val n [] = 0"
| "digits_val n (d # ds) = d + 2 ^ n * digits_val n ds"

lemma digits_val_append: "digits_val n (xs @ ys) = digits_val n xs + 2 ^ (length xs * n) * digits_val n ys"
  by (induction xs) (auto simp: algebra_simps power_add)

lemma digits2int_inner_val:
  assumes "L < R" and "R \<le> length ds"
  shows "digits2int_inner ds n L R = digits_val n (py_slice ds L R)"
  using assms
proof (induction ds n L R rule: digits2int_inner.induct)
  case (1 ds n L R)
  show ?case
  proof (cases "R \<le> L + 1")
    case True
    then have "R = Suc L" using 1 by simp
    with 1 have "py_slice ds L R = [ds ! L]" by (intro nth_equalityI) (auto simp: slice_simps)
    with True show ?thesis by (subst digits2int_inner.simps) simp
  next
    case False
    define mid where "mid = (L + R) div 2"
    have mid: "L < mid" "mid < R" using False by (auto simp: mid_def)
    have "digits2int_inner ds n L R =
        push_bit ((mid - L) * n) (digits2int_inner ds n mid R) + digits2int_inner ds n L mid"
      using False by (subst digits2int_inner.simps) (simp add: Let_def flip: mid_def)
    also have "\<dots> = digits_val n (py_slice ds L mid) + 2 ^ ((mid - L) * n) * digits_val n (py_slice ds mid R)"
      using "1.IH"[OF False mid_def refl] "1.prems" mid by (simp add: bit_arith)
    also have "\<dots> = digits_val n (py_slice ds L mid @ py_slice ds mid R)"
      using mid "1.prems" by (simp add: digits_val_append length_py_slice)
    also have "\<dots> = digits_val n (py_slice ds L R)" using mid by (simp add: py_slice_append)
    finally show ?thesis .
  qed
qed

lemma digits2int_val: "digits2int ds n = digits_val n ds"
  using digits2int_inner_val[of 0 "length ds" ds n] by (auto simp: digits2int_def)

lemma digits_val_nth:
  assumes "\<And>i. i < length ds \<Longrightarrow> ds ! i = x div 2 ^ (i * n) mod 2 ^ n"
  shows "digits_val n ds = x mod 2 ^ (length ds * n)"
  using assms
proof (induction ds rule: rev_induct)
  case Nil
  then show ?case by simp
next
  case (snoc d ds)
  let ?k = "length ds * n"
  have "digits_val n ds = x mod 2 ^ ?k" using snoc.prems by (intro snoc.IH) (metis length_append_singleton less_SucI nth_append)
  moreover have "d = x div 2 ^ ?k mod 2 ^ n" using snoc.prems[of "length ds"] by simp
  moreover have "x mod 2 ^ (?k + n) = 2 ^ ?k * (x div 2 ^ ?k mod 2 ^ n) + x mod 2 ^ ?k"
    by (simp add: power_add zmod_zmult2_eq)
  ultimately show ?case by (simp add: digits_val_append add.commute)
qed

lemma int2digits_ok:
  assumes "0 \<le> a" and "0 < n"
  shows "digits_val n (int2digits a n) = a" and "d \<in> set (int2digits a n) \<Longrightarrow> 0 \<le> d \<and> d < 2 ^ n"
proof -
  let ?k = "(bit_length a + n - 1) div n"
  let ?ds = "replicate ?k (0 :: int)"
  have "bit_length a \<le> ?k * n"
  proof -
    have "(bit_length a + n - 1) mod n \<le> n - 1" using assms(2) by (simp add: less_Suc_eq_le[symmetric])
    then show ?thesis using div_mult_mod_eq[of "bit_length a + n - 1" n] assms(2) by linarith
  qed
  have a0: "int2digits 0 n = []" using assms(2) by (simp add: int2digits_def bit_length_def bit_length_nat.simps[of 0])
  have lt: "a < 2 ^ (?k * n)" if "a \<noteq> 0"
  proof -
    have "a < 2 ^ bit_length a" using assms that by (simp add: bit_length_bounds)
    also have "\<dots> \<le> 2 ^ (?k * n)" using \<open>bit_length a \<le> ?k * n\<close> by (simp add: power_increasing)
    finally show ?thesis .
  qed
  have nth: "int2digits a n ! i = a div 2 ^ (i * n) mod 2 ^ n" if "a \<noteq> 0" "i < ?k" for i
    using int2digits_inner_nth[of 0 ?k ?ds a n i] lt that assms by (simp add: int2digits_def)
  have len: "length (int2digits a n) = ?k" by (simp add: int2digits_def Let_def)
  show "digits_val n (int2digits a n) = a"
  proof (cases "a = 0")
    case False
    note lt[OF False]
    moreover have "digits_val n (int2digits a n) = a mod 2 ^ (?k * n)"
      using digits_val_nth[of "int2digits a n" a n] nth[OF False] len by simp
    ultimately show ?thesis using assms by simp
  qed (simp add: a0)
  show "0 \<le> d \<and> d < 2 ^ n" if "d \<in> set (int2digits a n)"
  proof -
    have "a \<noteq> 0" using that a0 by auto
    with that nth len show ?thesis by (auto simp: in_set_conv_nth)
  qed
qed


lemma digits_val_rev_step:
  "digits_val n (rev (d # ds)) = digits_val n (rev ds) + 2 ^ (length ds * n) * d"
  by (simp add: digits_val_append)

text \<open>
  The grade-school loop over the digits \<open>ds\<close>, most significant first: with remainder \<open>r\<close> it
  divides the number written \<open>r\<close> followed by \<open>ds\<close>.
\<close>

lemma divmod_digits_ok:
  assumes b: "0 < b" "n = bit_length b" and "0 \<le> r" "r < b" and "\<forall>d \<in> set ds. 0 \<le> d \<and> d < 2 ^ n"
  shows "\<exists>qs. divmod_digits b n ds q_digits r =
      Some (q_digits @ qs, (r * 2 ^ (length ds * n) + digits_val n (rev ds)) mod b) \<and>
    length qs = length ds \<and>
    digits_val n (rev qs) = (r * 2 ^ (length ds * n) + digits_val n (rev ds)) div b"
  using assms(3-5)
proof (induction ds arbitrary: q_digits r)
  case Nil
  then show ?case using b by simp
next
  case (Cons d ds)
  let ?x = "push_bit n r + d" and ?k = "length ds * n"
  have x: "?x = r * 2 ^ n + d" by (simp add: bit_arith)
  have d: "0 \<le> d" "d < 2 ^ n" using Cons.prems by simp_all
  have "(r + 1) * 2 ^ n \<le> b * 2 ^ n" using Cons.prems by (intro mult_right_mono) auto
  then have "?x < 2 ^ n * b" using d unfolding x by (simp add: algebra_simps)
  then have "div_ready ?x b n"
    using bit_length_bounds[OF b(1)] b Cons.prems d by (simp add: div_ready_def bit_arith)
  then have div: "div2n1n n ?x b n = Some (?x div b, ?x mod b)" by (rule div2n1n_ok) simp
  have "0 \<le> ?x mod b" "?x mod b < b" using b by simp_all
  from Cons.IH[OF this, of "q_digits @ [?x div b]"] Cons.prems obtain qs where
    IH: "divmod_digits b n ds (q_digits @ [?x div b]) (?x mod b) =
      Some (q_digits @ [?x div b] @ qs, (?x mod b * 2 ^ ?k + digits_val n (rev ds)) mod b)"
    "length qs = length ds" "digits_val n (rev qs) = (?x mod b * 2 ^ ?k + digits_val n (rev ds)) div b"
    by auto
  let ?rest = "?x mod b * 2 ^ ?k + digits_val n (rev ds)"
  have "r * 2 ^ (length (d # ds) * n) + digits_val n (rev (d # ds)) = ?x * 2 ^ ?k + digits_val n (rev ds)"
    unfolding digits_val_rev_step x by (simp add: power_add algebra_simps)
  also have "\<dots> = (?x div b * b + ?x mod b) * 2 ^ ?k + digits_val n (rev ds)" unfolding div_mult_mod_eq ..
  also have "\<dots> = (?x div b * 2 ^ ?k) * b + ?rest"
    by (simp only: distrib_right mult.assoc mult.commute[of b] add.assoc)
  finally have "r * 2 ^ (length (d # ds) * n) + digits_val n (rev (d # ds)) = (?x div b * 2 ^ ?k) * b + ?rest" .
  from div_mod_shift[OF this b(1)] have "(r * 2 ^ (length (d # ds) * n) + digits_val n (rev (d # ds))) div b = ?x div b * 2 ^ ?k + ?rest div b"
    "(r * 2 ^ (length (d # ds) * n) + digits_val n (rev (d # ds))) mod b = ?rest mod b"
    .
  then show ?case
    using div IH by (intro exI[of _ "?x div b # qs"]) (simp add: digits_val_append)
qed

lemma divmod_pos_ok:
  assumes "0 \<le> a" and "0 < b"
  shows "divmod_pos a b = Some (a div b, a mod b)"
proof -
  let ?n = "bit_length b" and ?ds = "int2digits a (bit_length b)"
  have n: "0 < ?n" using assms by (simp add: bit_length_bounds)
  have "\<forall>d \<in> set (rev ?ds). 0 \<le> d \<and> d < 2 ^ ?n" using int2digits_ok(2)[OF assms(1) n] by simp
  from divmod_digits_ok[OF assms(2) refl _ assms(2) this, of "[]"] int2digits_ok(1)[OF assms(1) n]
  show ?thesis by (auto simp: divmod_pos_def digits2int_val)
qed

section \<open>Properties\<close>

text \<open>
  C7: the fast division the interpreter uses for huge integers always returns, and returns the
  floor quotient and the remainder with the sign of the divisor for every pair of integers;
  a zero divisor raises \<^verbatim>\<open>ZeroDivisionError\<close>.
\<close>

theorem int_divmod_floor:
  "int_divmod a b = Some (if b = 0 then Inl ZeroDivisionError else Inr (a div b, a mod b))"
proof -
  have pos: "int_divmod a b = Some (Inr (a div b, a mod b))" if "0 < b" for a b
  proof (cases "a < 0")
    case True
    have nn: "0 \<le> NOT a" using True by (simp add: not_int_def)
    have "a div b = NOT (NOT a div b)" "a mod b = b + NOT (NOT a mod b)"
    proof -
      have "a = NOT (NOT a div b) * b + (b + NOT (NOT a mod b))"
        using div_mult_mod_eq[of "NOT a" b] by (simp add: not_int_def algebra_simps)
      moreover have "0 \<le> b + NOT (NOT a mod b)" "b + NOT (NOT a mod b) < b"
        using that pos_mod_bound[OF that, of "NOT a"] pos_mod_sign[OF that, of "NOT a"] by (simp_all add: not_int_def)
      ultimately show "a div b = NOT (NOT a div b)" "a mod b = b + NOT (NOT a mod b)"
        using div_mod_eqI[of a "NOT (NOT a div b)" b "b + NOT (NOT a mod b)"] by blast+
    qed
    moreover have "int_divmod (NOT a) b = Some (Inr (NOT a div b, NOT a mod b))"
      using nn that by (subst int_divmod.simps) (simp add: divmod_pos_ok)
    ultimately show ?thesis using that True by (subst int_divmod.simps) simp
  next
    case False
    then show ?thesis using that by (subst int_divmod.simps) (simp add: divmod_pos_ok)
  qed
  consider "b = 0" | "0 < b" | "b < 0" by linarith
  then show ?thesis
  proof cases
    case 1
    then show ?thesis by (subst int_divmod.simps) simp
  next
    case 2
    then show ?thesis using pos by simp
  next
    case 3
    then show ?thesis using pos[of "- b" "- a"] by (subst int_divmod.simps) (simp add: div_minus_minus mod_minus_minus)
  qed
qed

end
