(* ===== verification/Pkg.thy ===== *)
theory Pkg
  imports PyText "HOL-Library.Char_ord" "HOL-Library.List_Lexorder" "HOL-Library.Product_Lexorder"
begin

text \<open>
  Packages: \<^verbatim>\<open>tools/aeros-pkg.py\<close> builds them on the host (\<open>pkg_build\<close>), \<^verbatim>\<open>tools/make-pkg-vectors.py\<close>
  the test vectors (\<open>vector_build\<close>), and \<^verbatim>\<open>kernel/src/pkg.rs\<close> parses their header
  (\<open>parse_header\<close>).  Python text is a \<^typ>\<open>string\<close> of code points; Rust's \<^verbatim>\<open>&str\<close> is a \<^typ>\<open>string\<close>
  of the bytes of its UTF-8 encoding.  The directory walk is the list of pairs it yields, the
  files' contents and SHA-256 are parameters.
\<close>

section \<open>Text encodings\<close>

definition newline :: char where
  "newline = CHR 0x0A"

text \<open>\<^verbatim>\<open>str.encode()\<close>\<close>

definition utf8_char :: "char \<Rightarrow> bytes" where
  "utf8_char c = (let k = of_char c :: nat in
     if k < 128 then [of_nat k] else [of_nat (192 + k div 64), of_nat (128 + k mod 64)])"

definition utf8_encode :: "string \<Rightarrow> bytes" where
  "utf8_encode s = concat (map utf8_char s)"

text \<open>\<^verbatim>\<open>core::str::from_utf8\<close> accepts exactly the well-formed sequences.\<close>

definition cont_byte :: "byte \<Rightarrow> bool" where
  "cont_byte b \<longleftrightarrow> 0x80 \<le> b \<and> b \<le> 0xBF"

fun utf8_valid :: "bytes \<Rightarrow> bool" where
  "utf8_valid [] = True"
| "utf8_valid (a # rest) =
     (if a < 0x80 then utf8_valid rest
      else case rest of
        [] \<Rightarrow> False
      | b # rest1 \<Rightarrow>
          if 0xC2 \<le> a \<and> a \<le> 0xDF then cont_byte b \<and> utf8_valid rest1
          else case rest1 of
            [] \<Rightarrow> False
          | c # rest2 \<Rightarrow>
              if 0xE0 \<le> a \<and> a \<le> 0xEF then
                (if a = 0xE0 then 0xA0 \<le> b \<and> b \<le> 0xBF
                 else if a = 0xED then 0x80 \<le> b \<and> b \<le> 0x9F else cont_byte b)
                \<and> cont_byte c \<and> utf8_valid rest2
              else case rest2 of
                [] \<Rightarrow> False
              | d # rest3 \<Rightarrow>
                  0xF0 \<le> a \<and> a \<le> 0xF4 \<and>
                  (if a = 0xF0 then 0x90 \<le> b \<and> b \<le> 0xBF
                   else if a = 0xF4 then 0x80 \<le> b \<and> b \<le> 0x8F else cont_byte b)
                  \<and> cont_byte c \<and> cont_byte d \<and> utf8_valid rest3)"

text \<open>\<^verbatim>\<open>hexdigest()\<close> of a digest.\<close>

definition hex_byte :: "byte \<Rightarrow> string" where
  "hex_byte b = [digit_char (unat b div 16), digit_char (unat b mod 16)]"

definition hex_digest :: "bytes \<Rightarrow> string" where
  "hex_digest bs = concat (map hex_byte bs)"

section \<open>Building a package\<close>

definition ascii_alnum :: "char \<Rightarrow> bool" where
  "ascii_alnum c \<longleftrightarrow> CHR ''0'' \<le> c \<and> c \<le> CHR ''9'' \<or> CHR ''A'' \<le> c \<and> c \<le> CHR ''Z'' \<or>
     CHR ''a'' \<le> c \<and> c \<le> CHR ''z''"

definition PKG_MAX_FILES :: nat where
  "PKG_MAX_FILES = 16"

definition PKG_MAX_FILE :: nat where
  "PKG_MAX_FILE = 2 ^ 20"

text \<open>\<^verbatim>\<open>re.fullmatch(r"[A-Za-z0-9_-]{1,24}", name)\<close> and the pattern of versions.\<close>

definition name_pattern :: "string \<Rightarrow> bool" where
  "name_pattern s \<longleftrightarrow> 1 \<le> length s \<and> length s \<le> 24 \<and>
     list_all (\<lambda>c. ascii_alnum c \<or> c = CHR ''_'' \<or> c = CHR ''-'') s"

definition version_pattern :: "string \<Rightarrow> bool" where
  "version_pattern s \<longleftrightarrow> 1 \<le> length s \<and> length s \<le> 16 \<and>
     list_all (\<lambda>c. ascii_alnum c \<or> c = CHR ''.'' \<or> c = CHR ''_'' \<or> c = CHR ''-'') s"

definition file_line :: "string \<Rightarrow> nat \<Rightarrow> nat \<Rightarrow> string \<Rightarrow> string" where
  "file_line path mode n digest =
     ''file='' @ path @ '';'' @ show_base 8 mode @ '';'' @ show_base 10 n @ '';'' @ digest"

definition pkg_mode :: "string \<Rightarrow> nat" where
  "pkg_mode relative = (if take 4 relative = ''bin/'' then 493 else 420)"

definition pkg_file ::
  "(bytes \<Rightarrow> bytes) \<Rightarrow> (string \<Rightarrow> bytes) \<Rightarrow> string list \<times> bytes \<Rightarrow> string \<times> string \<Rightarrow> (string list \<times> bytes) result" where
  "pkg_file sha256 contents st file =
     (let (lines, data) = st; (relative, full) = file
      in if 96 < length relative \<or> 8 \<le> count_list relative CHR ''/'' \<or> CHR '';'' \<in> set relative
         then Inl (SystemExit (''unsupported path: '' @ relative))
         else let content = contents full
              in if PKG_MAX_FILE < length content then Inl (SystemExit (relative @ '' is larger than 1 MiB''))
                 else Inr (lines @ [file_line relative (pkg_mode relative) (length content) (hex_digest (sha256 content))],
                           data @ content))"

definition pkg_bytes :: "string list \<Rightarrow> bytes \<Rightarrow> bytes" where
  "pkg_bytes lines data = utf8_encode (py_join [newline] lines @ [newline] @ ''data'' @ [newline]) @ data"

definition pkg_build ::
  "(bytes \<Rightarrow> bytes) \<Rightarrow> (string \<Rightarrow> bytes) \<Rightarrow> string \<Rightarrow> string \<Rightarrow> (string \<times> string) list \<Rightarrow> bytes result" where
  "pkg_build sha256 contents name version walk =
     (if \<not> name_pattern name then Inl (SystemExit ''name must be 1-24 letters, digits, - or _'')
      else if \<not> version_pattern version then Inl (SystemExit ''version must be 1-16 letters, digits, . - or _'')
      else let files = sort walk
           in if \<not> (0 < length files \<and> length files \<le> PKG_MAX_FILES)
              then Inl (SystemExit ''a package needs between 1 and 16 files'')
              else bindE (foldE (pkg_file sha256 contents) ([''AEROSPKG1'', ''name='' @ name, ''version='' @ version], []) files)
                     (\<lambda>(lines, data). Inr (pkg_bytes lines data)))"

section \<open>Test vectors\<close>

definition vector_build ::
  "(bytes \<Rightarrow> bytes) \<Rightarrow> string \<Rightarrow> string \<Rightarrow> (string \<times> nat \<times> bytes) list \<Rightarrow> string option \<Rightarrow> nat option \<Rightarrow> bytes" where
  "vector_build sha256 name version files claimed_hash claimed_size =
     (let line = (\<lambda>(path, mode, content).
            file_line path mode (case claimed_size of None \<Rightarrow> length content | Some n \<Rightarrow> n)
              (case claimed_hash of Some (c # cs) \<Rightarrow> c # cs | _ \<Rightarrow> hex_digest (sha256 content)))
      in pkg_bytes ([''AEROSPKG1'', ''name='' @ name, ''version='' @ version] @ map line files)
           (concat (map (snd \<circ> snd) files)))"

definition rust_bytes :: "string \<Rightarrow> bytes \<Rightarrow> string \<Rightarrow> string" where
  "rust_bytes name data k =
     ''pub const '' @ name @ '': '' @ k @ '' = &['' @ py_join '', '' (map (show_base 10 \<circ> unat) data) @ ''];'' @ [newline]"

section \<open>The kernel's header parser\<close>

datatype pkg_failure =
    Malformed
  | BadName
  | BadPath
  | TooLarge

record pkg_entry =
  e_path :: string
  e_mode :: nat
  e_size :: nat
  e_hash :: bytes

record pkg_header =
  h_name :: string
  h_version :: string
  h_entries :: "pkg_entry list"
  data_start :: nat

definition NAME_MAX :: nat where "NAME_MAX = 24"

definition VERSION_MAX :: nat where "VERSION_MAX = 16"

definition PATH_MAX :: nat where "PATH_MAX = 96"

definition MAX_FILES :: nat where
  "MAX_FILES = 16"

definition FILE_MAX :: nat where "FILE_MAX = 2 ^ 20"

definition MAX_HEADER :: nat where "MAX_HEADER = 2048"

definition hex_digit :: "char \<Rightarrow> nat option" where
  "hex_digit c =
     (if CHR ''0'' \<le> c \<and> c \<le> CHR ''9'' then Some (of_char c - 48)
      else if CHR ''a'' \<le> c \<and> c \<le> CHR ''f'' then Some (of_char c - 97 + 10)
      else if CHR ''A'' \<le> c \<and> c \<le> CHR ''F'' then Some (of_char c - 65 + 10)
      else None)"

fun hex_pairs :: "string \<Rightarrow> bytes option" where
  "hex_pairs (a # b # rest) =
     (case (hex_digit a, hex_digit b) of
        (Some x, Some y) \<Rightarrow> map_option ((#) ((push_bit 4 (of_nat x)) OR of_nat y)) (hex_pairs rest)
      | _ \<Rightarrow> None)"
| "hex_pairs _ = Some []"

definition decode_hex :: "nat \<Rightarrow> string \<Rightarrow> bytes option" where
  "decode_hex n text = (if length text \<noteq> n * 2 then None else hex_pairs text)"

text \<open>\<^verbatim>\<open>from_str_radix\<close> and \<^verbatim>\<open>parse\<close> of an unsigned type of \<open>w\<close> bits: an optional plus sign, digits only.\<close>

definition rust_parse :: "nat \<Rightarrow> nat \<Rightarrow> string \<Rightarrow> nat option" where
  "rust_parse w radix s =
     (case parse_base radix (case s of c # cs \<Rightarrow> if c = CHR ''+'' then cs else s | [] \<Rightarrow> []) of
        Some n \<Rightarrow> if n < 2 ^ w then Some n else None
      | None \<Rightarrow> None)"

definition name_valid :: "string \<Rightarrow> nat \<Rightarrow> char list \<Rightarrow> bool" where
  "name_valid text limit extra \<longleftrightarrow> text \<noteq> [] \<and> length text \<le> limit \<and>
     list_all (\<lambda>c. ascii_alnum c \<or> c \<in> set extra) text"

definition ascii_graphic :: "char \<Rightarrow> bool" where
  "ascii_graphic c \<longleftrightarrow> CHR ''!'' \<le> c \<and> c \<le> CHR ''~''"

definition path_valid :: "string \<Rightarrow> bool" where
  "path_valid text \<longleftrightarrow>
     \<not> (text = [] \<or> PATH_MAX < length text \<or> take 1 text = ''/'') \<and>
     length (py_split CHR ''/'' text) \<le> 8 \<and>
     list_all (\<lambda>part. part \<noteq> [] \<and> part \<noteq> ''.'' \<and> part \<noteq> ''..'' \<and>
         list_all (\<lambda>c. ascii_graphic c \<and> c \<noteq> CHR '';'') part) (py_split CHR ''/'' text)"

definition parse_entry :: "string \<Rightarrow> pkg_failure + pkg_entry" where
  "parse_entry spec =
     (case py_split CHR '';'' spec of
        [path, mode, n, hash] \<Rightarrow>
          if \<not> path_valid path then Inl BadPath
          else (case rust_parse 16 8 mode of
            None \<Rightarrow> Inl Malformed
          | Some mode \<Rightarrow>
              (case rust_parse 64 10 n of
                 None \<Rightarrow> Inl Malformed
               | Some n \<Rightarrow>
                   if 511 < mode then Inl Malformed
                   else if FILE_MAX < n then Inl TooLarge
                   else (case decode_hex 32 hash of
                     None \<Rightarrow> Inl Malformed
                   | Some h \<Rightarrow> Inr \<lparr>e_path = path, e_mode = mode, e_size = n, e_hash = h\<rparr>)))
      | _ \<Rightarrow> Inl Malformed)"

definition strip_prefix :: "string \<Rightarrow> string \<Rightarrow> string option" where
  "strip_prefix pre s = (if take (length pre) s = pre then Some (drop (length pre) s) else None)"

text \<open>One line of the header; the state is the header with the two flags.\<close>

definition header_line :: "pkg_header \<times> bool \<times> bool \<Rightarrow> string \<Rightarrow> pkg_failure + (pkg_header \<times> bool \<times> bool)" where
  "header_line st line =
     (let (header, have_name, have_version) = st
      in case strip_prefix ''name='' line of
        Some name \<Rightarrow>
          if have_name \<or> \<not> name_valid name NAME_MAX [CHR ''-'', CHR ''_''] then Inl BadName
          else Inr (header\<lparr>h_name := name\<rparr>, True, have_version)
      | None \<Rightarrow>
        (case strip_prefix ''version='' line of
          Some version \<Rightarrow>
            if have_version \<or> \<not> name_valid version VERSION_MAX [CHR ''.'', CHR ''-'', CHR ''_''] then Inl BadName
            else Inr (header\<lparr>h_version := version\<rparr>, have_name, True)
        | None \<Rightarrow>
          (case strip_prefix ''file='' line of
            Some spec \<Rightarrow>
              if length (h_entries header) = MAX_FILES then Inl TooLarge
              else bindE (parse_entry spec) (\<lambda>e.
                Inr (header\<lparr>h_entries := h_entries header @ [e]\<rparr>, have_name, have_version))
          | None \<Rightarrow> Inl Malformed)))"

fun find_window :: "'a list \<Rightarrow> 'a list \<Rightarrow> nat option" where
  "find_window pat [] = (if pat = [] then Some 0 else None)"
| "find_window pat (x # xs) =
     (if take (length pat) (x # xs) = pat then Some 0 else map_option Suc (find_window pat xs))"

definition marker :: string where
  "marker = [newline] @ ''data'' @ [newline]"

definition parse_header :: "bytes \<Rightarrow> nat \<Rightarrow> pkg_failure + pkg_header" where
  "parse_header raw len =
     (case find_window (ascii marker) (take len raw) of
        None \<Rightarrow> Inl Malformed
      | Some end_pos \<Rightarrow>
          if \<not> utf8_valid (take end_pos raw) then Inl Malformed
          else (case py_split newline (unascii (take end_pos raw)) of
            [] \<Rightarrow> Inl Malformed
          | first # lines \<Rightarrow>
              if first \<noteq> ''AEROSPKG1'' then Inl Malformed
              else bindE (foldE header_line
                     (\<lparr>h_name = [], h_version = [], h_entries = [], data_start = end_pos + length marker\<rparr>, False, False) lines)
                   (\<lambda>(header, have_name, have_version).
                     if \<not> have_name \<or> \<not> have_version \<or> h_entries header = [] then Inl Malformed
                     else Inr header)))"


text \<open>\<^verbatim>\<open>install\<close> reads at most \<^verbatim>\<open>MAX_HEADER\<close> bytes of the package and parses those.\<close>

definition install_header :: "bytes \<Rightarrow> pkg_failure + pkg_header" where
  "install_header package = (let raw = take MAX_HEADER package in parse_header raw (length raw))"

section \<open>ASCII text\<close>

definition is_ascii :: "string \<Rightarrow> bool" where
  "is_ascii s \<longleftrightarrow> list_all (\<lambda>c. of_char c < (128 :: nat)) s"

lemma is_ascii_append [simp]: "is_ascii (s @ t) \<longleftrightarrow> is_ascii s \<and> is_ascii t"
  by (simp add: is_ascii_def)

lemma is_ascii_Cons [simp]: "is_ascii (c # s) \<longleftrightarrow> of_char c < (128 :: nat) \<and> is_ascii s"
  by (simp add: is_ascii_def)

lemma is_ascii_Nil [simp]: "is_ascii []"
  by (simp add: is_ascii_def)

lemma is_ascii_join: "is_ascii sep \<Longrightarrow> (\<And>p. p \<in> set ps \<Longrightarrow> is_ascii p) \<Longrightarrow> is_ascii (py_join sep ps)"
  by (induction sep ps rule: py_join.induct) auto

lemma utf8_encode_ascii: "is_ascii s \<Longrightarrow> utf8_encode s = ascii s"
  by (induction s) (simp_all add: utf8_encode_def ascii_def utf8_char_def Let_def)

lemma utf8_valid_ascii: "is_ascii s \<Longrightarrow> utf8_valid (ascii s)"
proof (induction s)
  case Nil
  then show ?case by (simp add: ascii_def)
next
  case (Cons c s)
  have "(of_nat (of_char c) :: byte) < 0x80"
    using Cons.prems by (simp add: word_less_nat_alt unat_of_nat)
  with Cons show ?case by (simp add: ascii_def)
qed

lemma char_range: "CHR ''0'' \<le> c \<and> c \<le> d \<Longrightarrow> of_char d < (128 :: nat) \<Longrightarrow> of_char c < (128 :: nat)"
  by (simp add: less_eq_char_def)

lemma digit_char_code: "d < 16 \<Longrightarrow> of_char (digit_char d) = (if d < 10 then 48 + d else 87 + d :: nat)"
  by (simp add: digit_char_def)

lemma show_base_code:
  assumes "c \<in> set (show_base b n)" and "2 \<le> b" and "b \<le> 16"
  shows "48 \<le> (of_char c :: nat)" and "(of_char c :: nat) < 103" and "of_char c \<noteq> (59 :: nat)"
proof -
  from assms obtain d where "c = digit_char d" "d < 16"
    by (auto simp: show_base_def dest!: to_base_digits[rotated])
  then show "48 \<le> (of_char c :: nat)" "(of_char c :: nat) < 103" "of_char c \<noteq> (59 :: nat)"
    by (auto simp: digit_char_code split: if_splits)
qed

lemma hex_digest_code:
  assumes "c \<in> set (hex_digest bs)"
  shows "48 \<le> (of_char c :: nat)" and "(of_char c :: nat) < 103" and "of_char c \<noteq> (59 :: nat)"
proof -
  from assms obtain d where "c = digit_char d" "d < 16"
    by (auto simp: hex_digest_def hex_byte_def less_mult_imp_div_less)
  then show "48 \<le> (of_char c :: nat)" "(of_char c :: nat) < 103" "of_char c \<noteq> (59 :: nat)"
    by (auto simp: digit_char_code split: if_splits)
qed

section \<open>Finding the end of the header\<close>

lemma find_window_skip:
  assumes "c \<notin> set p"
  shows "find_window (c # pat) (p @ c # ys) =
    (if take (length pat) ys = pat then Some (length p)
     else map_option (\<lambda>k. length p + Suc k) (find_window (c # pat) ys))"
  using assms
proof (induction p)
  case Nil
  then show ?case by simp
next
  case (Cons x p)
  then show ?case by (auto simp: option.map_comp comp_def)
qed

lemma line_start:
  assumes "c \<notin> set q" and "c \<notin> set d" and "take (length (d @ [c])) (q @ c # zs) = d @ [c]"
  shows "q = d"
proof -
  obtain w where "q @ c # zs = (d @ [c]) @ w" using assms(3) by (metis append_take_drop_id)
  then have "q @ c # zs = d @ c # w" by simp
  moreover have "takeWhile (\<lambda>x. x \<noteq> c) (p @ c # ys) = p" if "c \<notin> set p" for p ys
    using that by (induction p) auto
  ultimately show ?thesis using assms(1,2) by metis
qed

lemma find_window_lines:
  assumes "ps \<noteq> []" and "\<And>p. p \<in> set ps \<Longrightarrow> c \<notin> set p" and "c \<notin> set d" and "d \<notin> set (tl ps)"
  shows "find_window (c # d @ [c]) (py_join [c] ps @ (c # d @ [c]) @ rest) = Some (length (py_join [c] ps))"
  using assms
proof (induction "[c]" ps rule: py_join.induct)
  case 1
  then show ?case by simp
next
  case (2 p)
  then show ?case by (simp add: find_window_skip)
next
  case (3 p q ps)
  have q: "c \<notin> set q" using 3 by simp
  obtain zs where zs: "py_join [c] (q # ps) @ (c # d @ [c]) @ rest = q @ c # zs"
    by (cases ps) auto
  have "take (length (d @ [c])) (q @ c # zs) \<noteq> d @ [c]"
    using line_start[OF q "3.prems"(3)] "3.prems"(4) by auto
  moreover have "find_window (c # d @ [c]) (q @ c # zs) = Some (length (py_join [c] (q # ps)))"
    unfolding zs[symmetric] using 3 by (intro "3.hyps") (auto intro: list.set_sel(2))
  moreover have "py_join [c] (p # q # ps) @ (c # d @ [c]) @ rest = p @ c # (q @ c # zs)"
    using zs by simp
  ultimately show ?case
    using find_window_skip[of c p "d @ [c]" "q @ c # zs"] "3.prems"(2) by simp
qed

lemma find_window_take:
  assumes "find_window pat xs = Some k" and "pat \<noteq> []"
  shows "find_window pat (take n xs) = (if k + length pat \<le> n then Some k else None)"
  using assms(1)
proof (induction xs arbitrary: k n)
  case Nil
  then show ?case using assms(2) by (simp split: if_splits)
next
  case (Cons x xs)
  show ?case
  proof (cases n)
    case 0
    then show ?thesis using assms(2) by (cases pat) auto
  next
    case (Suc m)
    have whole: "take (length pat) (take n (x # xs)) = pat \<longleftrightarrow>
        take (length pat) (x # xs) = pat \<and> length pat \<le> n"
    proof
      assume l: "take (length pat) (take n (x # xs)) = pat"
      then have "length pat \<le> n" by (metis length_take min.cobounded2 min.bounded_iff)
      with l show "take (length pat) (x # xs) = pat \<and> length pat \<le> n" by (simp add: min_def)
    qed (simp add: min_def)
    show ?thesis
    proof (cases "take (length pat) (x # xs) = pat")
      case True
      have no: "find_window pat ys = None" if "length ys < length pat" for ys :: "'a list"
        using that
      proof (induction ys)
        case Nil
        then show ?case using assms(2) by simp
      next
        case (Cons y ys)
        have "take (length pat) (y # ys) \<noteq> pat" using Cons.prems by (metis length_take min.strict_order_iff not_less_iff_gr_or_eq)
        with Cons show ?case by simp
      qed
      have "k = 0" using Cons.prems True by simp
      with True whole no[of "take n (x # xs)"] show ?thesis
        by (cases "length pat \<le> n") (auto simp: Suc)
    next
      case False
      then obtain j where j: "find_window pat xs = Some j" "k = Suc j" using Cons.prems by auto
      have "take (length pat) (take n (x # xs)) \<noteq> pat" using whole False by blast
      with Cons.IH[OF j(1), of m] j Suc show ?thesis by simp
    qed
  qed
qed


section \<open>Entries\<close>

lemma hex_digit_digit_char: "d < 16 \<Longrightarrow> hex_digit (digit_char d) = Some d"
  by (auto simp: hex_digit_def digit_char_def less_eq_char_def)

lemma byte_halves: "push_bit 4 (of_nat (unat b div 16)) OR of_nat (unat b mod 16) = (b :: byte)"
proof (rule bit_word_eqI)
  fix n assume "n < LENGTH(8)"
  have hi: "unat b div 16 = drop_bit 4 (unat b)" and lo: "unat b mod 16 = take_bit 4 (unat b)"
    by (simp_all add: drop_bit_eq_div take_bit_eq_mod)
  from \<open>n < LENGTH(8)\<close> show "bit (push_bit 4 (of_nat (unat b div 16)) OR of_nat (unat b mod 16) :: byte) n = bit b n"
    unfolding hi lo
    by (auto simp: bit_or_iff bit_push_bit_iff bit_of_nat_iff bit_drop_bit_eq bit_take_bit_iff bit_unsigned_iff)
qed

lemma hex_pairs_digest: "hex_pairs (hex_digest bs) = Some bs"
proof (induction bs)
  case Nil
  then show ?case by (simp add: hex_digest_def)
next
  case (Cons b bs)
  have "unat b div 16 < 16" "unat b mod 16 < 16" by (simp_all add: less_mult_imp_div_less)
  with Cons show ?case
    by (simp add: hex_digest_def hex_byte_def hex_digit_digit_char byte_halves)
qed

lemma length_hex_digest: "length (hex_digest bs) = 2 * length bs"
  by (induction bs) (simp_all add: hex_digest_def hex_byte_def)

lemma rust_parse_show:
  assumes "2 \<le> b" "b \<le> 16" "n < 2 ^ w"
  shows "rust_parse w b (show_base b n) = Some n"
proof -
  obtain c cs where s: "show_base b n = c # cs" by (cases "show_base b n") (use show_base_nonempty(1) in auto)
  then have "c \<noteq> CHR ''+''" using show_base_code(1)[of c b n] assms by auto
  then show ?thesis
    using s assms parse_show_base[of b n] by (simp add: rust_parse_def)
qed

lemma path_valid_chars:
  assumes "path_valid p" and "c \<in> set p"
  shows "ascii_graphic c" and "c \<noteq> CHR '';''"
proof -
  have parts: "set (py_join [x] ps) \<subseteq> insert x (\<Union> (set ` set ps))" for x :: char and ps
    by (induction "[x]" ps rule: py_join.induct) auto
  have "c \<in> insert CHR ''/'' (\<Union> (set ` set (py_split CHR ''/'' p)))"
    using assms(2) parts[of "CHR ''/''" "py_split CHR ''/'' p"] unfolding py_join_split by blast
  moreover have ok: "ascii_graphic x \<and> x \<noteq> CHR '';''" if "part \<in> set (py_split CHR ''/'' p)" "x \<in> set part" for part x
    using assms(1) that unfolding path_valid_def list_all_iff by blast
  moreover have "ascii_graphic CHR ''/''" by (simp add: ascii_graphic_def less_eq_char_def)
  ultimately have "ascii_graphic c \<and> c \<noteq> CHR '';''" by auto
  then show "ascii_graphic c" "c \<noteq> CHR '';''" by blast+
qed

lemma path_valid_codes:
  assumes "path_valid p" and "c \<in> set p"
  shows "33 \<le> (of_char c :: nat)" and "(of_char c :: nat) < 128"
  using path_valid_chars(1)[OF assms] by (simp_all add: ascii_graphic_def less_eq_char_def)

lemma path_valid_ascii: "path_valid p \<Longrightarrow> is_ascii p"
  using path_valid_codes(2) by (simp add: is_ascii_def list_all_iff)

lemma path_valid_tool:
  assumes "path_valid p"
  shows "length p \<le> 96" "count_list p CHR ''/'' < 8" "CHR '';'' \<notin> set p"
proof -
  show "length p \<le> 96" using assms by (simp add: path_valid_def PATH_MAX_def)
  show "count_list p CHR ''/'' < 8" using assms by (simp add: path_valid_def length_py_split)
  show "CHR '';'' \<notin> set p" using path_valid_chars(2)[OF assms] by blast
qed

definition entry_of :: "string \<Rightarrow> nat \<Rightarrow> nat \<Rightarrow> bytes \<Rightarrow> pkg_entry" where
  "entry_of path mode n hash = \<lparr>e_path = path, e_mode = mode, e_size = n, e_hash = hash\<rparr>"

lemma parse_entry_line:
  assumes "path_valid path" and "mode \<le> 511" and "n \<le> FILE_MAX" and "length hash = 32"
  shows "parse_entry (path @ '';'' @ show_base 8 mode @ '';'' @ show_base 10 n @ '';'' @ hex_digest hash) =
    Inr (entry_of path mode n hash)"
proof -
  have no: "CHR '';'' \<notin> set path" "CHR '';'' \<notin> set (show_base 8 mode)" "CHR '';'' \<notin> set (show_base 10 n)"
      "CHR '';'' \<notin> set (hex_digest hash)"
    using path_valid_tool(3)[OF assms(1)] show_base_code(3)[of _ 8 mode] show_base_code(3)[of _ 10 n]
      hex_digest_code(3)[of _ hash] by fastforce+
  have "py_split CHR '';'' (path @ '';'' @ show_base 8 mode @ '';'' @ show_base 10 n @ '';'' @ hex_digest hash) =
      [path, show_base 8 mode, show_base 10 n, hex_digest hash]"
    using no by (simp add: py_split_append_sep py_split_no_sep)
  moreover have "rust_parse 16 8 (show_base 8 mode) = Some mode" using assms by (simp add: rust_parse_show)
  moreover have "rust_parse 64 10 (show_base 10 n) = Some n" using assms by (simp add: rust_parse_show FILE_MAX_def)
  moreover have "decode_hex 32 (hex_digest hash) = Some hash"
    using assms by (simp add: decode_hex_def length_hex_digest hex_pairs_digest)
  ultimately show ?thesis using assms by (simp add: parse_entry_def entry_of_def)
qed

lemma header_line_file:
  assumes "parse_entry spec = Inr e" and "length (h_entries h) < MAX_FILES"
  shows "header_line (h, a, b) (''file='' @ spec) = Inr (h\<lparr>h_entries := h_entries h @ [e]\<rparr>, a, b)"
  using assms by (simp add: header_line_def strip_prefix_def Let_def)

lemma header_lines_files:
  assumes "\<And>x. x \<in> set xs \<Longrightarrow> parse_entry (spec x) = Inr (g x)"
    and "length (h_entries h) + length xs \<le> MAX_FILES"
  shows "foldE header_line (h, a, b) (map (\<lambda>x. ''file='' @ spec x) xs) =
    Inr (h\<lparr>h_entries := h_entries h @ map g xs\<rparr>, a, b)"
  using assms
proof (induction xs arbitrary: h)
  case Nil
  then show ?case by simp
next
  case (Cons x xs)
  have "header_line (h, a, b) (''file='' @ spec x) = Inr (h\<lparr>h_entries := h_entries h @ [g x]\<rparr>, a, b)"
    using Cons.prems by (intro header_line_file) auto
  then show ?case using Cons.IH[of "h\<lparr>h_entries := h_entries h @ [g x]\<rparr>"] Cons.prems by simp
qed

lemma name_pattern_valid: "name_pattern s \<Longrightarrow> name_valid s NAME_MAX [CHR ''-'', CHR ''_'']"
  by (auto simp: name_pattern_def name_valid_def NAME_MAX_def list_all_iff)

lemma version_pattern_valid: "version_pattern s \<Longrightarrow> name_valid s VERSION_MAX [CHR ''.'', CHR ''-'', CHR ''_'']"
  by (auto simp: version_pattern_def name_valid_def VERSION_MAX_def list_all_iff)

lemma pattern_codes:
  assumes "name_pattern s \<or> version_pattern s" and "c \<in> set s"
  shows "45 \<le> (of_char c :: nat)" "(of_char c :: nat) < 123"
  using assms by (auto simp: name_pattern_def version_pattern_def list_all_iff ascii_alnum_def less_eq_char_def)


section \<open>Packages the tool builds\<close>

definition pkg_lines :: "string \<Rightarrow> string \<Rightarrow> string list \<Rightarrow> string list" where
  "pkg_lines name version specs =
     [''AEROSPKG1'', ''name='' @ name, ''version='' @ version] @ map (\<lambda>s. ''file='' @ s) specs"

definition plain_text :: "string \<Rightarrow> bool" where
  "plain_text s \<longleftrightarrow> is_ascii s \<and> newline \<notin> set s"

lemma plain_textI: "(\<And>c. c \<in> set s \<Longrightarrow> 33 \<le> (of_char c :: nat) \<and> (of_char c :: nat) < 128) \<Longrightarrow> plain_text s"
  by (fastforce simp: plain_text_def is_ascii_def list_all_iff newline_def)

lemma plain_text_append [simp]: "plain_text (s @ t) \<longleftrightarrow> plain_text s \<and> plain_text t"
  by (auto simp: plain_text_def)

lemma plain_text_pattern: "name_pattern s \<or> version_pattern s \<Longrightarrow> plain_text s"
  using pattern_codes by (intro plain_textI) fastforce

lemma pkg_lines_plain:
  assumes "name_pattern name" and "version_pattern version" and "\<And>s. s \<in> set specs \<Longrightarrow> plain_text s"
    and "l \<in> set (pkg_lines name version specs)"
  shows "plain_text l" and "l \<noteq> ''data''"
proof -
  have lit: "plain_text ''AEROSPKG1''" "plain_text ''name=''" "plain_text ''version=''" "plain_text ''file=''"
    by (simp_all add: plain_text_def newline_def)
  with assms plain_text_pattern[of name] plain_text_pattern[of version] show "plain_text l"
    by (auto simp: pkg_lines_def simp flip: append_Cons)
  show "l \<noteq> ''data''" using assms(4) by (auto simp: pkg_lines_def)
qed

lemma take_ascii: "take n (ascii s) = ascii (take n s)"
  by (simp only: ascii_def take_map)

lemma find_window_ascii: "find_window (ascii pat) (ascii s) = find_window pat s"
proof (induction s)
  case Nil
  then show ?case by (simp add: ascii_def)
next
  case (Cons c s)
  have "ascii (c # s) = of_nat (of_char c) # ascii s" by (simp add: ascii_def)
  then have "find_window (ascii pat) (ascii (c # s)) =
      (if take (length pat) (ascii (c # s)) = ascii pat then Some 0 else map_option Suc (find_window (ascii pat) (ascii s)))"
    by simp
  then show ?case by (simp only: take_ascii ascii_inject Cons find_window.simps)
qed

lemma pkg_header_position:
  assumes "name_pattern name" and "version_pattern version" and "\<And>s. s \<in> set specs \<Longrightarrow> plain_text s"
  defines "text \<equiv> py_join [newline] (pkg_lines name version specs)"
  shows "pkg_bytes (pkg_lines name version specs) data = ascii (text @ marker) @ data"
    and "find_window (ascii marker) (ascii (text @ marker) @ data) = Some (length text)"
    and "py_split newline text = pkg_lines name version specs" and "is_ascii text"
proof -
  note plain = pkg_lines_plain[OF assms(1-3)]
  have ascii_lines: "is_ascii text"
    unfolding text_def by (rule is_ascii_join) (use plain(1) in \<open>auto simp: plain_text_def newline_def\<close>)
  then show "is_ascii text" .
  have m: "is_ascii marker" by (simp add: marker_def newline_def)
  show "pkg_bytes (pkg_lines name version specs) data = ascii (text @ marker) @ data"
    using ascii_lines m unfolding pkg_bytes_def text_def[symmetric] marker_def
    by (simp add: utf8_encode_ascii)
  have "find_window marker (text @ marker @ unascii data) = Some (length text)"
  proof -
    have "find_window (newline # ''data'' @ [newline]) (text @ (newline # ''data'' @ [newline]) @ unascii data) =
        Some (length text)"
      unfolding text_def
      by (rule find_window_lines)
        (use plain in \<open>auto simp: plain_text_def pkg_lines_def newline_def\<close>)
    then show ?thesis by (simp add: marker_def)
  qed
  then have "find_window (ascii marker) (ascii (text @ marker @ unascii data)) = Some (length text)"
    by (simp only: find_window_ascii)
  then show "find_window (ascii marker) (ascii (text @ marker) @ data) = Some (length text)" by simp
  show "py_split newline text = pkg_lines name version specs"
    unfolding text_def by (rule py_split_join) (use plain(1) in \<open>auto simp: plain_text_def pkg_lines_def\<close>)
qed

lemma header_lines_ok:
  assumes "name_pattern name" and "version_pattern version"
    and "\<And>s. s \<in> set specs \<Longrightarrow> parse_entry s = Inr (g s)" and "length specs \<le> MAX_FILES"
  shows "foldE header_line (\<lparr>h_name = [], h_version = [], h_entries = [], data_start = d\<rparr>, False, False)
      (tl (pkg_lines name version specs)) =
    Inr (\<lparr>h_name = name, h_version = version, h_entries = map g specs, data_start = d\<rparr>, True, True)"
proof -
  have "header_line (h, False, b) (''name='' @ name) = Inr (h\<lparr>h_name := name\<rparr>, True, b)" for h b
    using name_pattern_valid[OF assms(1)] by (simp add: header_line_def strip_prefix_def)
  moreover have "header_line (h, a, False) (''version='' @ version) = Inr (h\<lparr>h_version := version\<rparr>, a, True)" for h a
    using version_pattern_valid[OF assms(2)] by (simp add: header_line_def strip_prefix_def)
  ultimately show ?thesis
    using header_lines_files[where xs = specs and spec = id and g = g and h = "\<lparr>h_name = name, h_version = version, h_entries = [], data_start = d\<rparr>"]
      assms(3,4) by (simp add: pkg_lines_def)
qed

lemma install_header_lines:
  assumes "name_pattern name" and "version_pattern version" and "specs \<noteq> []"
    and specs: "\<And>s. s \<in> set specs \<Longrightarrow> plain_text s" "\<And>s. s \<in> set specs \<Longrightarrow> parse_entry s = Inr (g s)"
    and "length specs \<le> MAX_FILES"
  defines "n \<equiv> length (py_join [newline] (pkg_lines name version specs)) + length marker"
  shows "install_header (pkg_bytes (pkg_lines name version specs) data) =
    (if n \<le> MAX_HEADER
     then Inr \<lparr>h_name = name, h_version = version, h_entries = map g specs, data_start = n\<rparr>
     else Inl Malformed)"
proof -
  let ?text = "py_join [newline] (pkg_lines name version specs)"
  define raw where "raw = take MAX_HEADER (ascii (?text @ marker) @ data)"
  have P: "pkg_bytes (pkg_lines name version specs) data = ascii (?text @ marker) @ data"
    and found: "find_window (ascii marker) (ascii (?text @ marker) @ data) = Some (length ?text)"
    and split: "py_split newline ?text = pkg_lines name version specs" and asc: "is_ascii ?text"
    using pkg_header_position[OF assms(1,2) specs(1)] by blast+
  have start: "install_header (pkg_bytes (pkg_lines name version specs) data) = parse_header raw (length raw)"
    unfolding P raw_def by (simp only: install_header_def Let_def)
  have "length (ascii marker) = length marker" "ascii marker \<noteq> []" by (simp_all add: marker_def ascii_def)
  then have win: "find_window (ascii marker) raw = (if n \<le> MAX_HEADER then Some (length ?text) else None)"
    unfolding raw_def using find_window_take[OF found] by (simp add: n_def)
  show ?thesis
  proof (cases "n \<le> MAX_HEADER")
    case True
    then have "take (length ?text) raw = ascii ?text" by (simp add: raw_def n_def min_def)
    moreover have "utf8_valid (ascii ?text)" by (rule utf8_valid_ascii[OF asc])
    moreover have "pkg_lines name version specs = ''AEROSPKG1'' # tl (pkg_lines name version specs)"
      by (simp add: pkg_lines_def)
    then have "py_split newline (unascii (ascii ?text)) = ''AEROSPKG1'' # tl (pkg_lines name version specs)"
      using split by simp
    ultimately show ?thesis
      using True win header_lines_ok[OF assms(1,2) specs(2) assms(6), where d = n] assms(3)
      unfolding start parse_header_def by (simp add: n_def[symmetric])
  next
    case False
    then show ?thesis using win unfolding start parse_header_def by simp
  qed
qed


definition file_spec :: "(bytes \<Rightarrow> bytes) \<Rightarrow> string \<Rightarrow> bytes \<Rightarrow> string" where
  "file_spec sha256 path content =
     path @ '';'' @ show_base 8 (pkg_mode path) @ '';'' @ show_base 10 (length content) @ '';'' @ hex_digest (sha256 content)"

lemma pkg_files_ok:
  assumes "\<And>r f. (r, f) \<in> set files \<Longrightarrow> path_valid r \<and> length (contents f) \<le> PKG_MAX_FILE"
  shows "foldE (pkg_file sha256 contents) (lines, data) files =
    Inr (lines @ map (\<lambda>(r, f). ''file='' @ file_spec sha256 r (contents f)) files,
         data @ concat (map (\<lambda>(r, f). contents f) files))"
  using assms
proof (induction files arbitrary: lines data)
  case Nil
  then show ?case by simp
next
  case (Cons x files)
  obtain r f where x: "x = (r, f)" by (cases x)
  have ok: "path_valid r" "length (contents f) \<le> PKG_MAX_FILE" using Cons.prems x by auto
  then have "pkg_file sha256 contents (lines, data) x =
      Inr (lines @ [''file='' @ file_spec sha256 r (contents f)], data @ contents f)"
    using path_valid_tool[OF ok(1)] by (simp add: pkg_file_def x Let_def file_line_def file_spec_def)
  moreover have "foldE (pkg_file sha256 contents) (l, d) files =
      Inr (l @ map (\<lambda>(r, f). ''file='' @ file_spec sha256 r (contents f)) files,
           d @ concat (map (\<lambda>(r, f). contents f) files))" for l d
    using Cons.prems by (intro Cons.IH) auto
  ultimately show ?case using x by simp
qed

lemma file_spec_plain: "path_valid path \<Longrightarrow> plain_text (file_spec sha256 path content)"
proof -
  assume "path_valid path"
  then have "plain_text path" using path_valid_codes by (intro plain_textI) blast
  moreover have "plain_text (show_base b n)" if "2 \<le> b" "b \<le> 16" for b n
    using show_base_code[of _ b n] that by (intro plain_textI) fastforce
  moreover have "plain_text (hex_digest bs)" for bs
    using hex_digest_code[of _ bs] by (intro plain_textI) fastforce
  moreover have "plain_text '';''" by (simp add: plain_text_def newline_def)
  ultimately show ?thesis unfolding file_spec_def by (simp flip: append_Cons)
qed

lemma parse_file_spec:
  assumes "path_valid path" and "length content \<le> PKG_MAX_FILE" and "length (sha256 content) = 32"
  shows "parse_entry (file_spec sha256 path content) = Inr (entry_of path (pkg_mode path) (length content) (sha256 content))"
  unfolding file_spec_def using assms
  by (intro parse_entry_line) (auto simp: pkg_mode_def FILE_MAX_def PKG_MAX_FILE_def)

text \<open>What an accepted entry is.\<close>

definition entry_safe :: "pkg_entry \<Rightarrow> bool" where
  "entry_safe e \<longleftrightarrow> path_valid (e_path e) \<and> e_mode e \<le> 511 \<and> e_size e \<le> FILE_MAX \<and> length (e_hash e) = 32"

lemma hex_pairs_length: "hex_pairs s = Some bs \<Longrightarrow> length bs = length s div 2"
  by (induction s arbitrary: bs rule: hex_pairs.induct) (auto split: option.splits)

lemma parse_entry_safe: "parse_entry spec = Inr e \<Longrightarrow> entry_safe e"
  by (auto simp: parse_entry_def entry_safe_def decode_hex_def hex_pairs_length
      split: list.splits if_splits option.splits)

lemma entry_safe_parts:
  assumes "entry_safe e"
  shows "e_mode e \<le> 511 \<and> e_size e \<le> FILE_MAX \<and> length (e_hash e) = 32 \<and>
    e_path e \<noteq> [] \<and> length (e_path e) \<le> 96 \<and> take 1 (e_path e) \<noteq> ''/'' \<and>
    (\<forall>c \<in> set (e_path e). CHR ''!'' \<le> c \<and> c \<le> CHR ''~'' \<and> c \<noteq> CHR '';'') \<and>
    length (py_split CHR ''/'' (e_path e)) \<le> 8 \<and>
    (\<forall>part \<in> set (py_split CHR ''/'' (e_path e)). part \<noteq> [] \<and> part \<noteq> ''.'' \<and> part \<noteq> ''..'')"
proof -
  have p: "path_valid (e_path e)" using assms by (simp add: entry_safe_def)
  have "CHR ''!'' \<le> c \<and> c \<le> CHR ''~'' \<and> c \<noteq> CHR '';''" if "c \<in> set (e_path e)" for c
    using path_valid_chars[OF p that] by (simp add: ascii_graphic_def)
  with p assms show ?thesis by (auto simp: entry_safe_def path_valid_def list_all_iff PATH_MAX_def)
qed

definition header_inv :: "nat \<Rightarrow> pkg_header \<times> bool \<times> bool \<Rightarrow> bool" where
  "header_inv d = (\<lambda>(h, have_name, have_version).
     data_start h = d \<and> length (h_entries h) \<le> MAX_FILES \<and> list_all entry_safe (h_entries h) \<and>
     (have_name \<longrightarrow> name_valid (h_name h) NAME_MAX [CHR ''-'', CHR ''_'']) \<and>
     (have_version \<longrightarrow> name_valid (h_version h) VERSION_MAX [CHR ''.'', CHR ''-'', CHR ''_'']))"

lemma header_line_inv: "header_inv d st \<Longrightarrow> header_line st line = Inr st' \<Longrightarrow> header_inv d st'"
  by (auto simp: header_inv_def header_line_def Let_def bindE_eq_Inr_iff dest: parse_entry_safe
      split: option.splits if_splits prod.splits)

lemma find_window_bound: "find_window pat xs = Some k \<Longrightarrow> k + length pat \<le> length xs"
proof (induction xs arbitrary: k)
  case Nil
  then show ?case by (auto split: if_splits)
next
  case (Cons x xs)
  show ?case
  proof (cases "take (length pat) (x # xs) = pat")
    case True
    then have "length pat \<le> length (x # xs)" by (metis length_take min.cobounded1)
    with True Cons.prems show ?thesis by simp
  next
    case False
    with Cons show ?thesis by auto
  qed
qed

section \<open>Properties\<close>

text \<open>
  C11: a package the tool builds from files the kernel allows is accepted when its text header
  fits the 2048 bytes the kernel reads, with exactly the name, version, paths, modes, sizes and
  hashes it was built from and with every file's bytes where the header says; and it is refused
  as malformed when the header is longer, although the tool builds it.
\<close>

theorem package_accepted_iff_header_fits:
  assumes "\<And>x. length (sha256 x) = 32" and "name_pattern name" and "version_pattern version"
    and "walk \<noteq> []" and "length walk \<le> PKG_MAX_FILES"
    and files: "\<forall>(r, f) \<in> set walk. path_valid r \<and> length (contents f) \<le> PKG_MAX_FILE"
  shows "\<exists>pkg n. pkg_build sha256 contents name version walk = Inr pkg \<and>
    drop n pkg = concat (map (\<lambda>(r, f). contents f) (sort walk)) \<and>
    install_header pkg =
      (if n \<le> MAX_HEADER
       then Inr \<lparr>h_name = name, h_version = version,
              h_entries = map (\<lambda>(r, f). entry_of r (pkg_mode r) (length (contents f)) (sha256 (contents f))) (sort walk),
              data_start = n\<rparr>
       else Inl Malformed)"
proof -
  define specs where "specs = map (\<lambda>(r, f). file_spec sha256 r (contents f)) (sort walk)"
  define g where "g = (\<lambda>s. case parse_entry s of Inr e \<Rightarrow> e)"
  let ?lines = "pkg_lines name version specs" and ?data = "concat (map (\<lambda>(r, f). contents f) (sort walk))"
  let ?n = "length (py_join [newline] ?lines) + length marker"
  have f: "path_valid r \<and> length (contents f) \<le> PKG_MAX_FILE" if "(r, f) \<in> set (sort walk)" for r f
    using files that by auto
  have ne: "sort walk \<noteq> []" using assms(4) by (metis length_0_conv length_sort)
  have pfs: "parse_entry (file_spec sha256 r c) = Inr (entry_of r (pkg_mode r) (length c) (sha256 c))"
    if "path_valid r" "length c \<le> PKG_MAX_FILE" for r c
    using parse_file_spec[OF that, of sha256] assms(1) by simp
  have plain: "plain_text s" and parse: "parse_entry s = Inr (g s)" if "s \<in> set specs" for s
    using that f file_spec_plain pfs by (force simp: specs_def g_def)+
  have "map g specs = map (\<lambda>(r, f). entry_of r (pkg_mode r) (length (contents f)) (sha256 (contents f))) (sort walk)"
    using f pfs by (auto simp: specs_def g_def)
  moreover have "install_header (pkg_bytes ?lines ?data) =
      (if ?n \<le> MAX_HEADER then Inr \<lparr>h_name = name, h_version = version, h_entries = map g specs, data_start = ?n\<rparr>
       else Inl Malformed)"
    using ne assms(5) by (intro install_header_lines[OF assms(2,3) _ plain parse]) (auto simp: specs_def MAX_FILES_def PKG_MAX_FILES_def)
  moreover have "pkg_build sha256 contents name version walk = Inr (pkg_bytes ?lines ?data)"
    using assms(2,3,5) ne pkg_files_ok[of "sort walk" contents sha256, OF f]
    by (simp add: pkg_build_def Let_def pkg_lines_def specs_def comp_def case_prod_unfold)
  moreover have "drop ?n (pkg_bytes ?lines ?data) = ?data"
    using pkg_header_position(1)[OF assms(2,3) plain] by simp
  ultimately show ?thesis by auto
qed

theorem package_accepted_witness:
  "\<exists>pkg n. pkg_build (\<lambda>_. replicate 32 0) (\<lambda>_. [1, 2, 3]) ''demo'' ''1.0'' [(''bin/hello'', ''d/bin/hello'')] = Inr pkg \<and>
    drop n pkg = [1, 2, 3]"
proof -
  have "name_pattern ''demo''" "version_pattern ''1.0''" "path_valid ''bin/hello''"
    by (simp_all add: name_pattern_def version_pattern_def path_valid_def PATH_MAX_def ascii_alnum_def ascii_graphic_def
        less_eq_char_def)
  then show ?thesis
    using package_accepted_iff_header_fits[of "\<lambda>_. replicate 32 0" "''demo''" "''1.0''" "[(''bin/hello'', ''d/bin/hello'')]"
        "\<lambda>_. [1, 2, 3]"]
    by (auto simp: PKG_MAX_FILES_def PKG_MAX_FILE_def)
qed

text \<open>
  C12: whatever bytes a package holds, a header the kernel accepts names at most sixteen files,
  each by a non-empty relative path of at most 96 characters, all of them printable ASCII other
  than the space and \<^verbatim>\<open>;\<close>, in at most eight components none of which is empty, \<^verbatim>\<open>.\<close> or \<^verbatim>\<open>..\<close>, so that
  no file is written outside the package's directory; sizes, modes, hashes, name and version are
  within their limits, and the data starts inside the bytes read.
\<close>

theorem accepted_header_safe:
  assumes "parse_header raw len = Inr h"
  shows "h_entries h \<noteq> [] \<and> length (h_entries h) \<le> MAX_FILES \<and>
    (\<forall>e \<in> set (h_entries h). e_mode e \<le> 511 \<and> e_size e \<le> FILE_MAX \<and> length (e_hash e) = 32 \<and>
       e_path e \<noteq> [] \<and> length (e_path e) \<le> 96 \<and> take 1 (e_path e) \<noteq> ''/'' \<and>
       (\<forall>c \<in> set (e_path e). CHR ''!'' \<le> c \<and> c \<le> CHR ''~'' \<and> c \<noteq> CHR '';'') \<and>
       length (py_split CHR ''/'' (e_path e)) \<le> 8 \<and>
       (\<forall>part \<in> set (py_split CHR ''/'' (e_path e)). part \<noteq> [] \<and> part \<noteq> ''.'' \<and> part \<noteq> ''..'')) \<and>
    name_valid (h_name h) NAME_MAX [CHR ''-'', CHR ''_''] \<and>
    name_valid (h_version h) VERSION_MAX [CHR ''.'', CHR ''-'', CHR ''_''] \<and> data_start h \<le> len"
proof -
  obtain k lines st where k: "find_window (ascii marker) (take len raw) = Some k"
    and fold: "foldE header_line (\<lparr>h_name = [], h_version = [], h_entries = [], data_start = k + length marker\<rparr>, False, False) lines
      = Inr (h, st)" and st: "fst st" "snd st" "h_entries h \<noteq> []"
    using assms by (auto simp: parse_header_def bindE_eq_Inr_iff split: option.splits if_splits list.splits)
  have "header_inv (k + length marker) (h, st)"
    by (rule foldE_invariant[OF fold, where P = "header_inv (k + length marker)"])
      (simp add: header_inv_def, rule header_line_inv)
  moreover have "k + length marker \<le> len" using find_window_bound[OF k] by simp
  ultimately show ?thesis
    using st by (fastforce simp: header_inv_def list_all_iff dest: entry_safe_parts)
qed


theorem accepted_header_safe_witness:
  "\<exists>raw h. parse_header raw (length raw) = Inr h \<and> length (h_entries h) \<le> MAX_FILES \<and> data_start h \<le> length raw"
proof -
  let ?spec = "file_spec (\<lambda>_. replicate 32 0) ''a'' []"
  let ?raw = "take MAX_HEADER (pkg_bytes (pkg_lines ''demo'' ''1'' [?spec]) [])"
  have ok: "name_pattern ''demo''" "version_pattern ''1''" "path_valid ''a''"
    by (simp_all add: name_pattern_def version_pattern_def path_valid_def PATH_MAX_def ascii_alnum_def ascii_graphic_def
        less_eq_char_def)
  have "length ?spec \<le> 200"
    using length_show_base_le(1)[of 8 420 3] length_show_base_le(1)[of 10 0 1]
    by (simp add: file_spec_def pkg_mode_def length_hex_digest)
  then have "length (py_join [newline] (pkg_lines ''demo'' ''1'' [?spec])) + length marker \<le> MAX_HEADER"
    by (simp add: pkg_lines_def marker_def MAX_HEADER_def)
  then obtain h where "parse_header ?raw (length ?raw) = Inr h"
    using install_header_lines[OF ok(1,2), of "[?spec]" "\<lambda>_. entry_of ''a'' (pkg_mode ''a'') 0 (replicate 32 0)" "[]"]
      file_spec_plain[OF ok(3)] parse_file_spec[OF ok(3), of "[]" "\<lambda>_. replicate 32 0"]
    by (auto simp: install_header_def Let_def MAX_FILES_def)
  with accepted_header_safe[OF this] show ?thesis by blast
qed

end
