(* ===== verification/IpText.thy ===== *)
theory IpText
  imports PyInt
begin

text \<open>
  The textual half of \<^verbatim>\<open>ipaddress.py\<close> of the shipped Python runtime: IPv4 and IPv6 addresses
  as objects, read from and printed to their standard notations (dotted quads, hextets with
  one run of zeros compressed, an embedded IPv4 suffix, scope identifiers), their exploded
  form and the names of their reverse DNS records.  The central lemmas are the round trips:
  what \<^verbatim>\<open>str\<close> prints is read back as the same address, and the dotted quads that are
  accepted are exactly the printed ones.
\<close>

section \<open>Addresses\<close>

datatype ipver = V4 | V6

fun max_prefixlen :: "ipver \<Rightarrow> nat" where
  "max_prefixlen V4 = 32"
| "max_prefixlen V6 = 128"

definition ALL_ONES :: "ipver \<Rightarrow> int" where
  "ALL_ONES v = 2 ^ max_prefixlen v - 1"

record ip_addr =
  version :: ipver
  ip_of :: int
  scope_id :: "string option"

datatype addr_arg = AInt int | ABytes bytes | AStr string

definition check_int_address :: "ipver \<Rightarrow> int \<Rightarrow> unit result" where
  "check_int_address v a =
     (if a < 0 then Inl AddressValueError
      else if ALL_ONES v < a then Inl AddressValueError
      else Inr ())"

definition check_packed_address :: "bytes \<Rightarrow> nat \<Rightarrow> unit result" where
  "check_packed_address bs expected_len = guardE (length bs = expected_len) AddressValueError"

definition v4_int_to_packed :: "int \<Rightarrow> bytes result" where
  "v4_int_to_packed a = (if 0 \<le> a \<and> a < 256 ^ 4 then Inr (be_bytes 4 (nat a)) else Inl ValueError)"

definition v6_int_to_packed :: "int \<Rightarrow> bytes result" where
  "v6_int_to_packed a = (if 0 \<le> a \<and> a < 256 ^ 16 then Inr (be_bytes 16 (nat a)) else Inl ValueError)"

section \<open>Dotted quads\<close>

definition is_ascii_digit :: "char \<Rightarrow> bool" where
  "is_ascii_digit c \<longleftrightarrow> (48 :: nat) \<le> of_char c \<and> of_char c \<le> (57 :: nat)"

text \<open>\<^verbatim>\<open>s.isascii() and s.isdigit()\<close>\<close>

definition ascii_isdigit :: "string \<Rightarrow> bool" where
  "ascii_isdigit s \<longleftrightarrow> s \<noteq> [] \<and> list_all is_ascii_digit s"

definition py_int :: "nat \<Rightarrow> string \<Rightarrow> nat result" where
  "py_int b s = (case parse_base b s of None \<Rightarrow> Inl ValueError | Some n \<Rightarrow> Inr n)"

definition parse_octet :: "string \<Rightarrow> nat result" where
  "parse_octet s =
     (if s = [] then Inl ValueError
      else if \<not> ascii_isdigit s then Inl ValueError
      else if 3 < length s then Inl ValueError
      else if s \<noteq> ''0'' \<and> hd s = CHR ''0'' then Inl ValueError
      else bindE (py_int 10 s) (\<lambda>octet. if 255 < octet then Inl ValueError else Inr octet))"

text \<open>\<^verbatim>\<open>except ValueError: raise AddressValueError\<close> around a step that raises nothing else.\<close>

definition as_address_error :: "'a result \<Rightarrow> 'a result" where
  "as_address_error r = (case r of Inl e \<Rightarrow> Inl AddressValueError | Inr x \<Rightarrow> Inr x)"

definition ip_int_from_string4 :: "string \<Rightarrow> int result" where
  "ip_int_from_string4 s =
     (if s = [] then Inl AddressValueError
      else let octets = py_split CHR ''.'' s in
        if length octets \<noteq> 4 then Inl AddressValueError
        else as_address_error (bindE (mapE parse_octet octets) (\<lambda>os. Inr (int (of_base 256 os)))))"

definition string_from_ip_int4 :: "int \<Rightarrow> string" where
  "string_from_ip_int4 a = py_join ''.'' (map (\<lambda>b. show_base 10 (unat b)) (be_bytes 4 (nat a)))"

definition reverse_pointer4 :: "int \<Rightarrow> string" where
  "reverse_pointer4 a =
     py_join ''.'' (rev (py_split CHR ''.'' (string_from_ip_int4 a))) @ ''.in-addr.arpa''"

definition IPv4Address :: "addr_arg \<Rightarrow> ip_addr result" where
  "IPv4Address arg =
     bindE (case arg of
         AInt a \<Rightarrow> bindE (check_int_address V4 a) (\<lambda>_. Inr a)
       | ABytes bs \<Rightarrow> bindE (check_packed_address bs 4) (\<lambda>_. Inr (int (be_val bs)))
       | AStr s \<Rightarrow> if CHR ''/'' \<in> set s then Inl AddressValueError else ip_int_from_string4 s)
       (\<lambda>a. Inr \<lparr>version = V4, ip_of = a, scope_id = None\<rparr>)"

section \<open>Hextets\<close>

definition HEXTET_COUNT :: nat where
  "HEXTET_COUNT = 8"

definition parse_hextet :: "string \<Rightarrow> nat result" where
  "parse_hextet s =
     (if \<not> list_all (\<lambda>c. case digit_val c of None \<Rightarrow> False | Some d \<Rightarrow> d < 16) s then Inl ValueError
      else if 4 < length s then Inl ValueError
      else py_int 16 s)"

text \<open>\<^verbatim>\<open>str.split(c, maxsplit=n)\<close>\<close>

fun py_split_max :: "'a \<Rightarrow> nat \<Rightarrow> 'a list \<Rightarrow> 'a list list" where
  "py_split_max c n [] = [[]]"
| "py_split_max c 0 xs = [xs]"
| "py_split_max c (Suc n) (x # xs) =
     (if x = c then [] # py_split_max c n xs
      else case py_split_max c (Suc n) xs of [] \<Rightarrow> [[x]] | p # ps \<Rightarrow> (x # p) # ps)"

text \<open>The index of \<^verbatim>\<open>::\<close> among the parts, the endpoints left out.\<close>

definition find_skip_index :: "string list \<Rightarrow> nat option result" where
  "find_skip_index parts =
     foldE (\<lambda>skip i.
       if parts ! i = [] then (if skip \<noteq> None then Inl AddressValueError else Inr (Some i))
       else Inr skip) None [1..<length parts - 1]"

text \<open>\<^verbatim>\<open>parts_hi\<close>, \<^verbatim>\<open>parts_lo\<close> and \<^verbatim>\<open>parts_skipped\<close>.\<close>

definition hextet_layout :: "string list \<Rightarrow> nat option \<Rightarrow> (nat \<times> nat \<times> nat) result" where
  "hextet_layout parts skip = (case skip of
     Some skip_index \<Rightarrow>
       let parts_hi = skip_index;
           parts_lo = length parts - skip_index - 1
       in bindE (if hd parts = [] then (if parts_hi - 1 \<noteq> 0 then Inl AddressValueError else Inr (parts_hi - 1))
                 else Inr parts_hi) (\<lambda>parts_hi.
          bindE (if last parts = [] then (if parts_lo - 1 \<noteq> 0 then Inl AddressValueError else Inr (parts_lo - 1))
                 else Inr parts_lo) (\<lambda>parts_lo.
          if int HEXTET_COUNT - int (parts_hi + parts_lo) < 1 then Inl AddressValueError
          else Inr (parts_hi, parts_lo, HEXTET_COUNT - (parts_hi + parts_lo))))
   | None \<Rightarrow>
       if length parts \<noteq> HEXTET_COUNT then Inl AddressValueError
       else if hd parts = [] then Inl AddressValueError
       else if last parts = [] then Inl AddressValueError
       else Inr (length parts, 0, 0))"

definition add_hextets :: "int \<Rightarrow> string list \<Rightarrow> int result" where
  "add_hextets a ss =
     foldE (\<lambda>ip_int s. bindE (parse_hextet s) (\<lambda>h. Inr (push_bit 16 ip_int OR int h))) a ss"

text \<open>The IPv4 suffix as two more hextets.\<close>

definition expand_ipv4_suffix :: "string list \<Rightarrow> string list result" where
  "expand_ipv4_suffix parts =
     (if CHR ''.'' \<in> set (last parts) then
        bindE (as_address_error (IPv4Address (AStr (last parts)))) (\<lambda>a.
          Inr (butlast parts @
            [show_base 16 (nat (drop_bit 16 (ip_of a) AND 0xFFFF)), show_base 16 (nat (ip_of a AND 0xFFFF))]))
      else Inr parts)"

text \<open>The value of the parts, once an IPv4 suffix is two hextets.\<close>

definition ip_int_from_parts :: "string list \<Rightarrow> int result" where
  "ip_int_from_parts parts =
     (if HEXTET_COUNT + 1 < length parts then Inl AddressValueError
      else bindE (find_skip_index parts) (\<lambda>skip.
        bindE (hextet_layout parts skip) (\<lambda>(parts_hi, parts_lo, parts_skipped).
          as_address_error
            (bindE (add_hextets 0 (take parts_hi parts)) (\<lambda>hi.
             add_hextets (push_bit (16 * parts_skipped) hi) (drop (length parts - parts_lo) parts))))))"

definition ip_int_from_string6 :: "string \<Rightarrow> int result" where
  "ip_int_from_string6 s =
     (if s = [] then Inl AddressValueError
      else if 45 < length s then Inl AddressValueError
      else let parts = py_split_max CHR '':'' (HEXTET_COUNT + 1) s in
        if length parts < 3 then Inl AddressValueError
        else bindE (expand_ipv4_suffix parts) ip_int_from_parts)"

text \<open>The loop of \<^verbatim>\<open>_compress_hextets\<close>: the longest run of zeros so far and the current one.\<close>

record zero_run =
  best_start :: int
  best_len :: nat
  run_start :: int
  run_len :: nat

definition zero_run_step :: "zero_run \<Rightarrow> nat \<times> string \<Rightarrow> zero_run" where
  "zero_run_step z ih = (case ih of (index, hextet) \<Rightarrow>
     if hextet = ''0'' then
       let len = run_len z + 1;
           start = (if run_start z = -1 then int index else run_start z)
       in if len > best_len z
          then \<lparr>best_start = start, best_len = len, run_start = start, run_len = len\<rparr>
          else z\<lparr>run_start := start, run_len := len\<rparr>
     else z\<lparr>run_len := 0, run_start := -1\<rparr>)"

definition zero_runs :: "string list \<Rightarrow> zero_run" where
  "zero_runs hextets =
     foldl zero_run_step \<lparr>best_start = -1, best_len = 0, run_start = -1, run_len = 0\<rparr> (enumerate 0 hextets)"

definition compress_hextets :: "string list \<Rightarrow> string list" where
  "compress_hextets hextets =
     (let z = zero_runs hextets in
      if best_len z > 1 then
        let e = nat (best_start z + int (best_len z));
            b = nat (best_start z);
            hs = (if e = length hextets then hextets @ [''''] else hextets);
            hs = set_slice hs b e ['''']
        in if best_start z = 0 then '''' # hs else hs
      else hextets)"

definition hex_str :: "int \<Rightarrow> string" where
  "hex_str a = zpad 32 (show_base 16 (nat a))"

definition hex_groups :: "string \<Rightarrow> string list" where
  "hex_groups s = map (\<lambda>i. py_slice s (4 * i) (4 * i + 4)) [0..<8]"

definition string_from_ip_int6 :: "int \<Rightarrow> string result" where
  "string_from_ip_int6 a =
     (if ALL_ONES V6 < a then Inl ValueError
      else bindE (mapE (\<lambda>g. bindE (py_int 16 g) (\<lambda>n. Inr (show_base 16 n))) (hex_groups (hex_str a)))
        (\<lambda>hextets. Inr (py_join '':'' (compress_hextets hextets))))"

text \<open>\<^verbatim>\<open>ip_str.partition('%')\<close>, then the checks on the scope.\<close>

definition split_scope_id :: "string \<Rightarrow> (string \<times> string option) result" where
  "split_scope_id s =
     (case py_split_max CHR ''%'' 1 s of
        [addr, scope] \<Rightarrow> if scope = [] \<or> CHR ''%'' \<in> set scope then Inl AddressValueError else Inr (addr, Some scope)
      | _ \<Rightarrow> Inr (s, None))"

definition IPv6Address :: "addr_arg \<Rightarrow> ip_addr result" where
  "IPv6Address arg = (case arg of
     AInt a \<Rightarrow> bindE (check_int_address V6 a) (\<lambda>_. Inr \<lparr>version = V6, ip_of = a, scope_id = None\<rparr>)
   | ABytes bs \<Rightarrow> bindE (check_packed_address bs 16) (\<lambda>_.
       Inr \<lparr>version = V6, ip_of = int (be_val bs), scope_id = None\<rparr>)
   | AStr s \<Rightarrow>
       if CHR ''/'' \<in> set s then Inl AddressValueError
       else bindE (split_scope_id s) (\<lambda>(addr, scope).
         bindE (ip_int_from_string6 addr) (\<lambda>a. Inr \<lparr>version = V6, ip_of = a, scope_id = scope\<rparr>)))"

fun address_class :: "ipver \<Rightarrow> addr_arg \<Rightarrow> ip_addr result" where
  "address_class V4 = IPv4Address"
| "address_class V6 = IPv6Address"

definition ip_address :: "addr_arg \<Rightarrow> ip_addr result" where
  "ip_address arg = (case IPv4Address arg of
     Inr a \<Rightarrow> Inr a
   | Inl e \<Rightarrow> if e = AddressValueError \<or> e = NetmaskValueError
       then (case IPv6Address arg of
               Inr a \<Rightarrow> Inr a
             | Inl e \<Rightarrow> if e = AddressValueError \<or> e = NetmaskValueError then Inl ValueError else Inl e)
       else Inl e)"

section \<open>Embedded addresses and printing\<close>

definition ipv4_mapped :: "ip_addr \<Rightarrow> ip_addr option result" where
  "ipv4_mapped a =
     (if drop_bit 32 (ip_of a) \<noteq> 0xFFFF then Inr None
      else bindE (IPv4Address (AInt (ip_of a AND 0xFFFFFFFF))) (\<lambda>b. Inr (Some b)))"

definition teredo :: "ip_addr \<Rightarrow> (ip_addr \<times> ip_addr) option result" where
  "teredo a =
     (if drop_bit 96 (ip_of a) \<noteq> 0x20010000 then Inr None
      else bindE (IPv4Address (AInt (drop_bit 64 (ip_of a) AND 0xFFFFFFFF))) (\<lambda>server.
           bindE (IPv4Address (AInt (NOT (ip_of a) AND 0xFFFFFFFF))) (\<lambda>client. Inr (Some (server, client)))))"

definition sixtofour :: "ip_addr \<Rightarrow> ip_addr option result" where
  "sixtofour a =
     (if drop_bit 112 (ip_of a) \<noteq> 0x2002 then Inr None
      else bindE (IPv4Address (AInt (drop_bit 80 (ip_of a) AND 0xFFFFFFFF))) (\<lambda>b. Inr (Some b)))"

definition ipv4_mapped_ipv6_to_str :: "ip_addr \<Rightarrow> string result" where
  "ipv4_mapped_ipv6_to_str a =
     bindE (ipv4_mapped a) (\<lambda>m. case m of
       None \<Rightarrow> Inl AddressValueError
     | Some b \<Rightarrow> bindE (string_from_ip_int6 (drop_bit 32 (ip_of a))) (\<lambda>hi.
         Inr (hi @ '':'' @ string_from_ip_int4 (ip_of b))))"

definition str_addr6 :: "ip_addr \<Rightarrow> string result" where
  "str_addr6 a =
     bindE (ipv4_mapped a) (\<lambda>m.
       bindE (case m of None \<Rightarrow> string_from_ip_int6 (ip_of a) | Some _ \<Rightarrow> ipv4_mapped_ipv6_to_str a) (\<lambda>ip_str.
         Inr (case scope_id a of
                Some s \<Rightarrow> if s = [] then ip_str else ip_str @ ''%'' @ s
              | None \<Rightarrow> ip_str)))"

definition str_addr :: "ip_addr \<Rightarrow> string result" where
  "str_addr a = (case version a of
     V4 \<Rightarrow> Inr (string_from_ip_int4 (ip_of a))
   | V6 \<Rightarrow> str_addr6 a)"

definition ipv6_mapped :: "ip_addr \<Rightarrow> ip_addr result" where
  "ipv6_mapped a = IPv6Address (AStr (''::ffff:'' @ string_from_ip_int4 (ip_of a)))"

text \<open>The exploded form over \<^verbatim>\<open>str(self)\<close>, and its IPv4-mapped variant.\<close>

definition explode_base6 :: "ip_addr \<Rightarrow> string result" where
  "explode_base6 a =
     bindE (str_addr6 a) (\<lambda>ip_str.
     bindE (ip_int_from_string6 ip_str) (\<lambda>ip_int.
       Inr (py_join '':'' (hex_groups (hex_str ip_int)))))"

definition exploded6 :: "ip_addr \<Rightarrow> string result" where
  "exploded6 a =
     bindE (ipv4_mapped a) (\<lambda>m. case m of
       None \<Rightarrow> explode_base6 a
     | Some b \<Rightarrow> bindE (explode_base6 a) (\<lambda>raw. Inr (take 30 raw @ string_from_ip_int4 (ip_of b))))"

definition exploded :: "ip_addr \<Rightarrow> string result" where
  "exploded a = (case version a of V4 \<Rightarrow> str_addr a | V6 \<Rightarrow> exploded6 a)"

definition nibble_name :: "string \<Rightarrow> string" where
  "nibble_name s = py_join ''.'' (map (\<lambda>c. [c]) (filter (\<lambda>c. c \<noteq> CHR '':'') (rev s))) @ ''.ip6.arpa''"

definition reverse_pointer6 :: "ip_addr \<Rightarrow> string result" where
  "reverse_pointer6 a =
     bindE (ipv4_mapped a) (\<lambda>m. case m of
       None \<Rightarrow> bindE (exploded6 a) (\<lambda>s. Inr (nibble_name s))
     | Some b \<Rightarrow> bindE (explode_base6 a) (\<lambda>raw.
         Inr (nibble_name (take 30 raw @ zpad 8 (show_base 16 (nat (ip_of b)))))))"

definition reverse_pointer :: "ip_addr \<Rightarrow> string result" where
  "reverse_pointer a = (case version a of V4 \<Rightarrow> Inr (reverse_pointer4 (ip_of a)) | V6 \<Rightarrow> reverse_pointer6 a)"

section \<open>Comparison and arithmetic\<close>

definition addr_eq :: "ip_addr \<Rightarrow> ip_addr \<Rightarrow> bool" where
  "addr_eq a b \<longleftrightarrow> (ip_of a = ip_of b \<and> version a = version b) \<and> (version a = V6 \<longrightarrow> scope_id a = scope_id b)"

definition addr_lt :: "ip_addr \<Rightarrow> ip_addr \<Rightarrow> bool result" where
  "addr_lt a b =
     (if version a \<noteq> version b then Inl TypeError
      else if ip_of a \<noteq> ip_of b then Inr (ip_of a < ip_of b)
      else Inr False)"

text \<open>\<^verbatim>\<open>functools.total_ordering\<close>: \<^verbatim>\<open>>\<close>, \<^verbatim>\<open><=\<close> and \<^verbatim>\<open>>=\<close> from \<^verbatim>\<open><\<close> and \<^verbatim>\<open>==\<close>.\<close>

definition addr_gt :: "ip_addr \<Rightarrow> ip_addr \<Rightarrow> bool result" where
  "addr_gt a b = bindE (addr_lt a b) (\<lambda>lt. Inr (\<not> lt \<and> \<not> addr_eq a b))"

definition addr_le :: "ip_addr \<Rightarrow> ip_addr \<Rightarrow> bool result" where
  "addr_le a b = bindE (addr_lt a b) (\<lambda>lt. Inr (lt \<or> addr_eq a b))"

definition addr_ge :: "ip_addr \<Rightarrow> ip_addr \<Rightarrow> bool result" where
  "addr_ge a b = bindE (addr_lt a b) (\<lambda>lt. Inr (\<not> lt))"

definition addr_add :: "ip_addr \<Rightarrow> int \<Rightarrow> ip_addr result" where
  "addr_add a n = address_class (version a) (AInt (ip_of a + n))"

definition addr_sub :: "ip_addr \<Rightarrow> int \<Rightarrow> ip_addr result" where
  "addr_sub a n = address_class (version a) (AInt (ip_of a - n))"

lemma as_address_error_Inr [simp]: "as_address_error r = Inr x \<longleftrightarrow> r = Inr x"
  by (simp add: as_address_error_def split: sum.splits)

lemma as_address_error_Inl: "as_address_error r = Inl e \<Longrightarrow> e = AddressValueError"
  by (simp add: as_address_error_def split: sum.splits)

section \<open>Canonical digits\<close>

lemma of_base_append_single: "of_base b [d] = d"
  by (simp add: of_base_def)

lemma to_base_of_base:
  assumes "2 \<le> b" and "ds \<noteq> []" and "list_all (\<lambda>d. d < b) ds" and "hd ds \<noteq> 0 \<or> length ds = 1"
  shows "to_base b (of_base b ds) = ds"
  using assms(2-)
proof (induction ds rule: rev_induct)
  case Nil
  then show ?case by simp
next
  case (snoc d ds)
  show ?case
  proof (cases "ds = []")
    case True
    then show ?thesis using snoc assms(1) by (simp add: of_base_append_single to_base.simps[of b d])
  next
    case False
    with snoc.prems have hd: "hd ds \<noteq> 0" and d: "d < b" and all: "list_all (\<lambda>d. d < b) ds" by auto
    have eq: "to_base b (of_base b ds) = ds" using snoc.IH False all hd by simp
    have "of_base b ds \<noteq> 0"
    proof
      assume "of_base b ds = 0"
      with eq have "ds = [0]" using assms(1) by (simp add: to_base.simps[of b 0])
      with hd show False by simp
    qed
    then have "b \<le> of_base b ds * b + d" by (cases "of_base b ds") auto
    then show ?thesis using eq d assms(1) by (simp add: to_base.simps[of b "of_base b ds * b + d"])
  qed
qed

lemma those_eq_Some: "those xs = Some ys \<longleftrightarrow> xs = map Some ys"
  by (induction xs arbitrary: ys) (auto split: option.splits)

lemma digits_of_lt: "digits_of b s = Some ds \<Longrightarrow> list_all (\<lambda>d. d < b) ds"
proof -
  assume "digits_of b s = Some ds"
  then have eq: "map (\<lambda>c. case digit_val c of Some d \<Rightarrow> if d < b then Some d else None | None \<Rightarrow> None) s = map Some ds"
    by (simp add: digits_of_def those_eq_Some)
  show ?thesis unfolding list_all_length
  proof (intro allI impI)
    fix i assume i: "i < length ds"
    from arg_cong[OF eq, of length] have len: "length s = length ds" by simp
    from arg_cong[OF eq, of "\<lambda>l. l ! i"] i len show "ds ! i < b"
      by (auto split: option.splits if_splits)
  qed
qed

lemma digit_char_decimal: "is_ascii_digit c \<Longrightarrow> digit_val c = Some (of_char c - 48) \<and> digit_char (of_char c - 48) = c"
  by (auto simp: is_ascii_digit_def digit_val_def digit_char_def)

lemma digits_of_decimal:
  "list_all is_ascii_digit s \<Longrightarrow> digits_of 10 s = Some (map (\<lambda>c. of_char c - 48) s)"
  unfolding digits_of_def
  by (rule those_map_Some) (auto simp: list_all_iff digit_char_decimal is_ascii_digit_def)

lemma is_ascii_digit_digit_char: "d < 10 \<Longrightarrow> is_ascii_digit (digit_char d)"
  by (simp add: is_ascii_digit_def digit_char_def)

lemma show_base_decimal: "ascii_isdigit (show_base 10 n)"
  using to_base_digits[of 10 _ n]
  by (auto simp: ascii_isdigit_def show_base_def list_all_iff is_ascii_digit_digit_char)

lemma digit_char_zero_iff: "d < 36 \<Longrightarrow> digit_char d = CHR ''0'' \<longleftrightarrow> d = 0"
  using digit_val_digit_char[of d] digit_val_digit_char[of 0] digit_char_lits(1) by fastforce

lemma show_base_zero: "2 \<le> b \<Longrightarrow> show_base b 0 = ''0''"
  by (simp add: show_base_def to_base.simps[of b 0] digit_char_lits(1))

lemma show_base_hd:
  assumes "0 < n" and "2 \<le> b" and "b \<le> 36"
  shows "hd (show_base b n) \<noteq> CHR ''0''"
proof -
  have "hd (to_base b n) \<noteq> 0" using assms by (simp add: to_base_leading)
  moreover have "hd (to_base b n) < b" using assms by (intro to_base_digits[of b _ n]) auto
  ultimately show ?thesis using assms by (simp add: show_base_def hd_map digit_char_zero_iff)
qed

lemma show_base_eq_zero_iff: "2 \<le> b \<Longrightarrow> b \<le> 36 \<Longrightarrow> show_base b n = ''0'' \<longleftrightarrow> n = 0"
  using show_base_hd[of n b] by (cases "n = 0") (auto simp: show_base_zero)

text \<open>A decimal text without a leading zero is the one that is printed for its value.\<close>

lemma show_parse_decimal:
  assumes "ascii_isdigit s" and "s = ''0'' \<or> hd s \<noteq> CHR ''0''" and "parse_base 10 s = Some n"
  shows "show_base 10 n = s"
proof -
  let ?ds = "map (\<lambda>c. of_char c - 48) s :: nat list"
  have s: "s \<noteq> []" and dig: "list_all is_ascii_digit s" using assms(1) by (auto simp: ascii_isdigit_def)
  have n: "n = of_base 10 ?ds" using assms(3) s by (simp add: parse_base_def digits_of_decimal[OF dig])
  have lt: "list_all (\<lambda>d. d < 10) ?ds"
    using dig by (auto simp: list_all_iff is_ascii_digit_def)
  have hd: "hd ?ds \<noteq> 0 \<or> length ?ds = 1"
  proof (cases "s = ''0''")
    case False
    then obtain c t where c: "s = c # t" and "c \<noteq> CHR ''0''" using assms(2) s by (cases s) auto
    moreover have "is_ascii_digit c" using dig c by simp
    ultimately show ?thesis using digit_char_decimal[of c] digit_char_lits(1) by auto
  qed simp
  have "to_base 10 n = ?ds" unfolding n using s lt hd by (intro to_base_of_base) auto
  then show ?thesis using dig
    by (auto simp: show_base_def list_all_iff digit_char_decimal intro!: map_idI)
qed

lemma of_base_bytes: "of_base 256 (map unat (bs :: bytes)) = be_val bs"
  by (induction bs rule: rev_induct) (auto simp: be_val_def)

section \<open>Dotted quads: round trips\<close>

lemma parse_octet_show:
  assumes "n < 256"
  shows "parse_octet (show_base 10 n) = Inr n"
proof -
  have "length (show_base 10 n) \<le> 3" using assms by (intro length_show_base_le) auto
  then show ?thesis
    using assms show_base_decimal[of n] show_base_hd[of n 10] parse_show_base[of 10 n]
    by (cases "n = 0") (auto simp: parse_octet_def py_int_def show_base_zero)
qed

lemma parse_octet_canonical:
  assumes "parse_octet s = Inr n"
  shows "n < 256" and "s = show_base 10 n"
proof -
  from assms have d: "ascii_isdigit s" and z: "s = ''0'' \<or> hd s \<noteq> CHR ''0''"
    and p: "parse_base 10 s = Some n" and "n < 256"
    by (auto simp: parse_octet_def py_int_def bindE_eq_Inr_iff split: if_splits option.splits)
  then show "n < 256" and "s = show_base 10 n" using show_parse_decimal[OF d z p] by auto
qed

lemma parse_octet_error: "parse_octet s = Inl e \<Longrightarrow> e = ValueError"
  by (auto simp: parse_octet_def py_int_def bindE_eq_Inl_iff split: if_splits option.splits)

lemma show_base_chars:
  assumes "c \<in> set (show_base b n)" and "2 \<le> b" and "b \<le> 16"
  shows "of_char c \<in> {48..57} \<union> {97..102 :: nat}"
proof -
  from assms obtain d where "c = digit_char d" and "d < b"
    by (auto simp: show_base_def dest: to_base_digits[of b _ n])
  then show ?thesis using assms by (auto simp: digit_char_def)
qed

lemma show_base_no_punct [simp]:
  assumes "2 \<le> b" and "b \<le> 16"
  shows "CHR ''.'' \<notin> set (show_base b n)" "CHR '':'' \<notin> set (show_base b n)"
    "CHR ''/'' \<notin> set (show_base b n)" "CHR ''%'' \<notin> set (show_base b n)"
  using show_base_chars[OF _ assms, of _ n] by fastforce+

lemma str_int_nat [simp]: "str_int (int n) = show_base 10 n"
  by (simp add: str_int_def)

lemma string_from_ip_int4_alt:
  "string_from_ip_int4 a = py_join ''.'' (map (show_base 10) (map unat (be_bytes 4 (nat a))))"
  by (simp add: string_from_ip_int4_def comp_def)

lemma be_bytes_nonempty: "0 < n \<Longrightarrow> be_bytes n v \<noteq> []"
  by (metis length_be_bytes length_greater_0_conv)

lemma split_quad:
  "py_split CHR ''.'' (string_from_ip_int4 a) = map (show_base 10) (map unat (be_bytes 4 (nat a)))"
  unfolding string_from_ip_int4_alt
  by (rule py_split_join) (auto simp: be_bytes_nonempty)

lemma py_join_nonempty: "\<exists>p\<in>set ps. p \<noteq> [] \<Longrightarrow> py_join sep ps \<noteq> []"
  by (induction sep ps rule: py_join.induct) auto

lemma string_from_ip_int4_nonempty: "string_from_ip_int4 a \<noteq> []"
proof
  assume "string_from_ip_int4 a = []"
  with arg_cong[OF split_quad[of a], of length] show False by simp
qed

lemma quad_roundtrip:
  assumes "0 \<le> a" and "a < 2 ^ 32"
  shows "ip_int_from_string4 (string_from_ip_int4 a) = Inr a"
proof -
  have "mapE parse_octet (map (show_base 10) (map unat (be_bytes 4 (nat a)))) =
      Inr (map unat (be_bytes 4 (nat a)))"
    by (rule trans[OF mapE_Inr_iff_map[where g = "the \<circ> parse_base 10"]])
       (auto simp: parse_octet_show parse_show_base comp_def)
  moreover have "of_base 256 (map unat (be_bytes 4 (nat a))) = nat a"
    using assms by (simp add: of_base_bytes nat_less_iff)
  ultimately show ?thesis
    using assms string_from_ip_int4_nonempty[of a]
    by (simp add: ip_int_from_string4_def split_quad as_address_error_def del: map_map)
qed

text \<open>Only the printed form of an address is accepted.\<close>

lemma quad_canonical:
  assumes "ip_int_from_string4 s = Inr a"
  shows "0 \<le> a" and "a < 2 ^ 32" and "s = string_from_ip_int4 a"
proof -
  let ?ps = "py_split CHR ''.'' s"
  from assms obtain os where len: "length ?ps = 4" and m: "mapE parse_octet ?ps = Inr os"
    and a: "a = int (of_base 256 os)"
    by (auto simp: ip_int_from_string4_def as_address_error_def Let_def bindE_eq_Inr_iff
        split: if_splits sum.splits)
  have los: "length os = 4" using mapE_length[OF m] len by simp
  have o: "os ! i < 256 \<and> ?ps ! i = show_base 10 (os ! i)" if "i < 4" for i
    using parse_octet_canonical[OF mapE_Inr_nth[OF m]] that len by auto
  define bs :: bytes where "bs = map of_nat os"
  have os: "os = map unat bs"
    using o los by (intro nth_equalityI) (auto simp: bs_def unat_of_nat)
  have lbs: "length bs = 4" using los by (simp add: bs_def)
  have val: "of_base 256 os = be_val bs" unfolding os by (rule of_base_bytes)
  have "be_val bs < 256 ^ 4" using le_val_bound[of "rev bs"] lbs by (simp add: be_val_def)
  then have "int (be_val bs) < int (256 ^ 4)" by (simp only: of_nat_less_iff)
  then show "a < 2 ^ 32" unfolding a val by simp
  show "0 \<le> a" unfolding a by simp
  have be: "be_bytes 4 (nat a) = bs" unfolding a val using lbs by (intro be_bytesI) auto
  have "?ps = map (show_base 10) os"
    using o los len by (intro nth_equalityI) auto
  then have "py_join ''.'' ?ps = string_from_ip_int4 a"
    unfolding string_from_ip_int4_alt be os by simp
  then show "s = string_from_ip_int4 a" by (simp add: py_join_split)
qed

section \<open>Groups of hexadecimal digits\<close>

lemma of_base_append: "of_base b (xs @ ys) = of_base b xs * b ^ length ys + of_base b ys"
proof (induction ys rule: rev_induct)
  case (snoc y ys)
  have "of_base b (xs @ ys @ [y]) = of_base b ((xs @ ys) @ [y])" by simp
  also have "\<dots> = of_base b (xs @ ys) * b + y" by (rule of_base_snoc)
  finally show ?case by (simp add: snoc algebra_simps)
qed simp

lemma of_base_groups:
  "list_all (\<lambda>g. length g = k) gs \<Longrightarrow> of_base b (concat gs) = of_base (b ^ k) (map (of_base b) gs)"
  by (induction gs rule: rev_induct) (auto simp: of_base_append of_base_append_single)

lemma of_base_lt: "0 < b \<Longrightarrow> list_all (\<lambda>d. d < b) ds \<Longrightarrow> of_base b ds < b ^ length ds"
proof (induction ds rule: rev_induct)
  case (snoc d ds)
  then have "of_base b ds + 1 \<le> b ^ length ds" and d: "d < b" by auto
  then have "(of_base b ds + 1) * b \<le> b ^ length ds * b" by (intro mult_right_mono) auto
  with d show ?case by (simp add: algebra_simps)
qed simp

lemma concat_slices: "concat (map (\<lambda>i. py_slice xs (4 * i) (4 * i + 4)) [0..<n]) = py_slice xs 0 (4 * n)"
proof (induction n)
  case 0
  show ?case by (simp add: py_slice_def)
next
  case (Suc n)
  then show ?case using py_slice_append[of 0 "4 * n" "4 * n + 4" xs] by (simp add: algebra_simps)
qed

lemma digits_of_take_drop:
  "digits_of b s = Some ds \<Longrightarrow> digits_of b (take m (drop k s)) = Some (take m (drop k ds))"
  by (simp add: digits_of_def those_eq_Some take_map drop_map flip: take_map drop_map)

lemma digits_of_length: "digits_of b s = Some ds \<Longrightarrow> length ds = length s"
  by (auto simp: digits_of_def dest: those_Some_length)

lemma parse_slice:
  assumes "digits_of b s = Some ds" and "i < j" and "j \<le> length s"
  shows "parse_base b (py_slice s i j) = Some (of_base b (py_slice ds i j))"
  using assms digits_of_take_drop[OF assms(1), of "j - i" i]
  by (auto simp: parse_base_def py_slice_def)

definition hextet_vals :: "int \<Rightarrow> nat list" where
  "hextet_vals a = map (\<lambda>g. the (parse_base 16 g)) (hex_groups (hex_str a))"

lemma length_hextet_vals [simp]: "length (hextet_vals a) = 8"
  by (simp add: hextet_vals_def hex_groups_def)

lemma hex_str_digits:
  assumes "0 \<le> a" and "a < 2 ^ 128"
  obtains ds where "digits_of 16 (hex_str a) = Some ds" and "length ds = 32" and "of_base 16 ds = nat a"
    and "length (hex_str a) = 32"
proof -
  have lt: "nat a < 16 ^ 32" using assms by (simp add: nat_less_iff)
  have "length (show_base 16 (nat a)) \<le> 32" by (rule length_show_base_le(1)[OF _ lt]) auto
  then have len: "length (hex_str a) = 32" by (simp add: hex_str_def length_zpad)
  have ne: "hex_str a \<noteq> []" using len by auto
  have p: "parse_base 16 (hex_str a) = Some (nat a)"
    by (simp add: hex_str_def parse_zpad parse_show_base)
  then obtain ds where "digits_of 16 (hex_str a) = Some ds" and "of_base 16 ds = nat a"
    using ne by (auto simp: parse_base_def)
  with that len digits_of_length[of 16 "hex_str a" ds] show ?thesis by simp
qed

lemma hex_group_parse:
  assumes "0 \<le> a" and "a < 2 ^ 128"
  shows "mapE (py_int 16) (hex_groups (hex_str a)) = Inr (hextet_vals a)"
    and "list_all (\<lambda>h. h < 65536) (hextet_vals a)"
    and "of_base 65536 (hextet_vals a) = nat a"
proof -
  obtain ds where ds: "digits_of 16 (hex_str a) = Some ds" and l: "length ds = 32"
    and v: "of_base 16 ds = nat a" and ls: "length (hex_str a) = 32"
    using hex_str_digits[OF assms] .
  let ?g = "\<lambda>i. py_slice ds (4 * i) (4 * i + 4)"
  have p: "parse_base 16 (py_slice (hex_str a) (4 * i) (4 * i + 4)) = Some (of_base 16 (?g i))" if "i < 8" for i
    using that ls by (intro parse_slice[OF ds]) auto
  have hv: "hextet_vals a = map (of_base 16) (map ?g [0..<8])"
    by (auto simp: hextet_vals_def hex_groups_def p)
  show "mapE (py_int 16) (hex_groups (hex_str a)) = Inr (hextet_vals a)"
    unfolding hextet_vals_def
    by (rule mapE_Inr_iff_map) (auto simp: hex_groups_def py_int_def p)
  have g4: "list_all (\<lambda>g. length g = 4) (map ?g [0..<8])" using l by (auto simp: list_all_iff length_py_slice)
  have "list_all (\<lambda>d. d < 16) (?g i)" for i
    using digits_of_lt[OF ds] by (auto simp: list_all_iff py_slice_def dest!: in_set_takeD in_set_dropD)
  then have "of_base 16 (?g i) < 16 ^ length (?g i)" for i by (intro of_base_lt) auto
  moreover have "length (?g i) = 4" if "i < 8" for i using that l by (auto simp: length_py_slice)
  ultimately have "of_base 16 (?g i) < 16 ^ 4" if "i < 8" for i using that by metis
  then show "list_all (\<lambda>h. h < 65536) (hextet_vals a)" unfolding hv by (auto simp: list_all_iff)
  have "of_base 65536 (hextet_vals a) = of_base (16 ^ 4) (map (of_base 16) (map ?g [0..<8]))"
    unfolding hv by simp
  also have "\<dots> = of_base 16 (concat (map ?g [0..<8]))"
    by (rule of_base_groups[OF g4, symmetric])
  also have "concat (map ?g [0..<8]) = ds" unfolding concat_slices using l by simp
  finally show "of_base 65536 (hextet_vals a) = nat a" using v by simp
qed

lemma string_from_ip_int6_eq:
  assumes "0 \<le> a" and "a < 2 ^ 128"
  shows "string_from_ip_int6 a = Inr (py_join '':'' (compress_hextets (map (show_base 16) (hextet_vals a))))"
  using assms mapE_compose[OF hex_group_parse(1)[OF assms], of "show_base 16"]
  by (simp add: string_from_ip_int6_def ALL_ONES_def)

section \<open>The longest run of zeros\<close>

definition zero_block :: "string list \<Rightarrow> nat \<Rightarrow> nat \<Rightarrow> bool" where
  "zero_block xs s l \<longleftrightarrow> s + l \<le> length xs \<and> (\<forall>i. s \<le> i \<and> i < s + l \<longrightarrow> xs ! i = ''0'')"

definition zero_run_inv :: "string list \<Rightarrow> zero_run \<Rightarrow> bool" where
  "zero_run_inv xs z \<longleftrightarrow>
     run_len z \<le> length xs \<and>
     run_start z = (if run_len z = 0 then -1 else int (length xs - run_len z)) \<and>
     zero_block xs (length xs - run_len z) (run_len z) \<and>
     (\<forall>l \<le> length xs. zero_block xs (length xs - l) l \<longrightarrow> l \<le> run_len z) \<and>
     (0 < best_len z \<longrightarrow> 0 \<le> best_start z \<and> zero_block xs (nat (best_start z)) (best_len z)) \<and>
     (\<forall>s l. 0 < l \<and> zero_block xs s l \<longrightarrow> l < best_len z \<or> l = best_len z \<and> best_start z \<le> int s)"

lemma zero_block_snoc:
  "zero_block (xs @ [x]) s l \<longleftrightarrow>
     (if s + l = Suc (length xs) then (l = 0 \<or> x = ''0'' \<and> zero_block xs s (l - 1)) else zero_block xs s l)"
  by (auto simp: zero_block_def nth_append less_Suc_eq)

lemma zero_run_step_hit:
  assumes inv: "zero_run_inv xs z"
  defines "r \<equiv> Suc (run_len z)"
  shows "zero_run_inv (xs @ [''0'']) (zero_run_step z (length xs, ''0''))"
proof -
  let ?n = "length xs" and ?b = "best_len z" and ?xs = "xs @ [''0'']"
  define st where "st = ?n - run_len z"
  from inv have rl: "run_len z \<le> ?n" and rs: "run_start z = (if run_len z = 0 then -1 else int st)"
    and rb: "zero_block xs st (run_len z)"
    and rm: "\<And>l. l \<le> ?n \<Longrightarrow> zero_block xs (?n - l) l \<Longrightarrow> l \<le> run_len z"
    and bb: "0 < ?b \<Longrightarrow> 0 \<le> best_start z \<and> zero_block xs (nat (best_start z)) ?b"
    and bm: "\<And>s l. 0 < l \<Longrightarrow> zero_block xs s l \<Longrightarrow> l < ?b \<or> l = ?b \<and> best_start z \<le> int s"
    by (auto simp: zero_run_inv_def st_def)
  have run: "zero_block ?xs st r" using rb rl by (auto simp: zero_block_snoc r_def st_def)
  have st: "(if run_start z = -1 then int ?n else run_start z) = int st"
    using rs by (auto simp: st_def)
  have run_max: "l \<le> r" if "l \<le> Suc ?n" and "zero_block ?xs (Suc ?n - l) l" for l
  proof (cases l)
    case (Suc k)
    with that rm[of k] show ?thesis by (auto simp: zero_block_snoc r_def)
  qed simp
  have block: "zero_block xs s l \<or> (s + l = Suc ?n \<and> l \<le> r)" if "zero_block ?xs s l" for s l
  proof (cases "s + l = Suc ?n")
    case True
    then have "s = Suc ?n - l" and "l \<le> Suc ?n" by auto
    with run_max[of l] that True show ?thesis by simp
  next
    case False
    with that show ?thesis by (simp add: zero_block_snoc)
  qed
  have old: "zero_block ?xs s l" if "zero_block xs s l" for s l
    using that by (auto simp: zero_block_def nth_append)
  have stn: "st + r = Suc ?n" using rl by (simp add: st_def r_def)
  show ?thesis
  proof (cases "r > ?b")
    case True
    have best: "l < r \<or> l = r \<and> st \<le> s" if "0 < l" and "zero_block ?xs s l" for s l
      using block[OF that(2)] bm[OF that(1), of s] True stn by auto
    have "zero_run_step z (?n, ''0'') = \<lparr>best_start = int st, best_len = r, run_start = int st, run_len = r\<rparr>"
      using True st by (simp add: zero_run_step_def Let_def r_def)
    then show ?thesis using run run_max best stn
      by (auto simp: zero_run_inv_def r_def st_def[symmetric])
  next
    case False
    have best: "l < ?b \<or> l = ?b \<and> best_start z \<le> int s" if "0 < l" and "zero_block ?xs s l" for s l
    proof (cases "zero_block xs s l")
      case True
      then show ?thesis using bm[OF that(1)] by simp
    next
      case nb: False
      with block[OF that(2)] have e: "s + l = Suc ?n" "l \<le> r" by auto
      show ?thesis
      proof (cases "l < ?b")
        case False
        with e \<open>\<not> r > ?b\<close> have "l = ?b" "l = r" by auto
        moreover have "best_start z + int ?b \<le> int ?n" using bb that(1) \<open>l = ?b\<close> by (auto simp: zero_block_def)
        ultimately show ?thesis using e by auto
      qed simp
    qed
    have "zero_run_step z (?n, ''0'') = z\<lparr>run_start := int st, run_len := r\<rparr>"
      using False st by (simp add: zero_run_step_def Let_def r_def)
    then show ?thesis using run run_max best stn bb old
      by (auto simp: zero_run_inv_def r_def st_def[symmetric])
  qed
qed

lemma zero_run_step_miss:
  assumes inv: "zero_run_inv xs z" and x: "x \<noteq> ''0''"
  shows "zero_run_inv (xs @ [x]) (zero_run_step z (length xs, x))"
proof -
  have 1: "zero_block (xs @ [x]) s l \<Longrightarrow> 0 < l \<Longrightarrow> zero_block xs s l" for s l
    using x by (auto simp: zero_block_snoc split: if_splits)
  have 2: "zero_block xs s l \<Longrightarrow> zero_block (xs @ [x]) s l" for s l
    by (auto simp: zero_block_def nth_append)
  have 3: "\<not> zero_block (xs @ [x]) (Suc (length xs) - l) l" if "0 < l" "l \<le> Suc (length xs)" for l
    using x that by (auto simp: zero_block_snoc)
  have 4: "zero_block (xs @ [x]) (Suc (length xs)) 0" by (auto simp: zero_block_def)
  have 5: "l \<le> Suc (length xs) \<Longrightarrow> zero_block (xs @ [x]) (Suc (length xs) - l) l \<Longrightarrow> l = 0" for l
    using 3[of l] by auto
  have z: "zero_run_step z (length xs, x) = z\<lparr>run_len := 0, run_start := -1\<rparr>"
    using x by (simp add: zero_run_step_def)
  from inv have "0 < best_len z \<longrightarrow> 0 \<le> best_start z \<and> zero_block xs (nat (best_start z)) (best_len z)"
    and "\<forall>s l. 0 < l \<and> zero_block xs s l \<longrightarrow> l < best_len z \<or> l = best_len z \<and> best_start z \<le> int s"
    by (simp_all add: zero_run_inv_def)
  with 1 2 have "0 < best_len z \<longrightarrow> 0 \<le> best_start z \<and> zero_block (xs @ [x]) (nat (best_start z)) (best_len z)"
    and "\<forall>s l. 0 < l \<and> zero_block (xs @ [x]) s l \<longrightarrow> l < best_len z \<or> l = best_len z \<and> best_start z \<le> int s"
    by blast+
  then show ?thesis unfolding zero_run_inv_def z using 4 5 by simp
qed

lemma zero_runs_inv: "zero_run_inv xs (zero_runs xs)"
proof (induction xs rule: rev_induct)
  case Nil
  then show ?case by (simp add: zero_runs_def zero_run_inv_def zero_block_def)
next
  case (snoc x xs)
  have "zero_runs (xs @ [x]) = zero_run_step (zero_runs xs) (length xs, x)"
    by (simp add: zero_runs_def enumerate_append_eq)
  then show ?case using zero_run_step_hit[OF snoc] zero_run_step_miss[OF snoc] by (cases "x = ''0''") auto
qed

text \<open>What compression does: nothing, when no two adjacent hextets are zero, or it takes out the
  first of the longest runs of zeros.\<close>

definition compressed :: "string list \<Rightarrow> string list \<Rightarrow> string list" where
  "compressed pre post = (if pre = [] then [''''] else pre) @ [''''] @ (if post = [] then [''''] else post)"

lemma zero_block_split:
  assumes "zero_block xs s l"
  shows "xs = take s xs @ replicate l ''0'' @ drop (s + l) xs"
proof -
  have "take l (drop s xs) = replicate l ''0''"
    using assms by (intro nth_equalityI) (auto simp: zero_block_def)
  then show ?thesis by (metis append_take_drop_id drop_drop add.commute)
qed

lemma compress_hextets_form:
  obtains (plain) "compress_hextets xs = xs" "\<And>s. \<not> zero_block xs s 2"
  | (run) pre l post where "xs = pre @ replicate l ''0'' @ post" "2 \<le> l"
      "compress_hextets xs = compressed pre post"
      "\<And>s k. zero_block xs s k \<Longrightarrow> 0 < k \<Longrightarrow> k < l \<or> k = l \<and> length pre \<le> s"
proof (cases "best_len (zero_runs xs) > 1")
  case False
  let ?z = "zero_runs xs"
  have "\<not> zero_block xs s 2" for s
    using zero_runs_inv[of xs] False unfolding zero_run_inv_def by (metis One_nat_def Suc_1 lessI less_trans not_less_iff_gr_or_eq zero_less_numeral)
  moreover have "compress_hextets xs = xs" using False by (simp add: compress_hextets_def Let_def)
  ultimately show ?thesis by (intro plain) auto
next
  case True
  let ?z = "zero_runs xs"
  define s l where "s = nat (best_start ?z)" and "l = best_len ?z"
  from zero_runs_inv[of xs] True have s0: "0 \<le> best_start ?z" and zb: "zero_block xs s l"
    and mx: "\<And>s k. 0 < k \<Longrightarrow> zero_block xs s k \<Longrightarrow> k < l \<or> k = l \<and> best_start ?z \<le> int s"
    by (auto simp: zero_run_inv_def s_def l_def)
  have e: "nat (best_start ?z + int l) = s + l" using s0 by (simp add: s_def nat_add_distrib)
  have len: "s + l \<le> length xs" using zb by (simp add: zero_block_def)
  let ?pre = "take s xs" and ?post = "drop (s + l) xs"
  have pre: "?pre = [] \<longleftrightarrow> best_start ?z = 0" using len True s0 by (auto simp: s_def l_def)
  have post: "?post = [] \<longleftrightarrow> s + l = length xs" using len by auto
  have l2: "2 \<le> l" using True by (simp add: l_def)
  have "compress_hextets xs =
      (if best_start ?z = 0 then [''''] else []) @ set_slice (if s + l = length xs then xs @ [''''] else xs) s (s + l) ['''']"
    unfolding compress_hextets_def Let_def l_def[symmetric] s_def[symmetric] e
    using l2 by (cases "best_start ?z = 0") simp_all
  also have "\<dots> = compressed ?pre ?post"
    using len pre post by (auto simp: compressed_def set_slice_def max_def)
  finally have c: "compress_hextets xs = compressed ?pre ?post" .
  have ls: "length ?pre = s" using len by simp
  have "k < l \<or> k = l \<and> length ?pre \<le> t" if "zero_block xs t k" "0 < k" for t k
    using mx[OF that(2,1)] unfolding ls nat_le_iff[symmetric] s_def[symmetric] .
  with run[OF zero_block_split[OF zb] l2 c] show ?thesis by blast
qed

section \<open>Hextets: reading back\<close>

lemma parse_hextet_show:
  assumes "h < 65536"
  shows "parse_hextet (show_base 16 h) = Inr h"
proof -
  have "length (show_base 16 h) \<le> 4" using assms by (intro length_show_base_le) auto
  moreover have "list_all (\<lambda>c. case digit_val c of None \<Rightarrow> False | Some d \<Rightarrow> d < 16) (show_base 16 h)"
    using digit_val_digit_char to_base_digits[of 16 _ h] by (fastforce simp: show_base_def list_all_iff)
  ultimately show ?thesis by (simp add: parse_hextet_def py_int_def parse_show_base)
qed

lemma add_hextets_val:
  assumes "mapE parse_hextet ss = Inr hs" and "list_all (\<lambda>h. h < 65536) hs" and "0 \<le> a"
  shows "add_hextets a ss = Inr (a * 65536 ^ length hs + int (of_base 65536 hs))"
  using assms
proof (induction ss arbitrary: hs a)
  case Nil
  then show ?case by (simp add: add_hextets_def)
next
  case (Cons s ss)
  then obtain h hs' where hs: "hs = h # hs'" and h: "parse_hextet s = Inr h" "h < 65536"
    and r: "mapE parse_hextet ss = Inr hs'" "list_all (\<lambda>h. h < 65536) hs'"
    by (auto simp: bindE_eq_Inr_iff)
  have "push_bit 16 a OR int h = a * 65536 + int h" using h by (subst push_or_arith) auto
  moreover have "of_base 65536 (h # hs') = h * 65536 ^ length hs' + of_base 65536 hs'"
    using of_base_append[of 65536 "[h]" hs'] by (simp add: of_base_append_single)
  ultimately show ?case
    using Cons.IH[OF r, of "a * 65536 + int h"] Cons.prems(3) h
    by (simp add: hs add_hextets_def algebra_simps)
qed

lemma mapE_parse_show: "list_all (\<lambda>h. h < 65536) hs \<Longrightarrow> mapE parse_hextet (map (show_base 16) hs) = Inr hs"
  by (induction hs) (auto simp: parse_hextet_show)

lemma add_hextets_show:
  "list_all (\<lambda>h. h < 65536) hs \<Longrightarrow> 0 \<le> a \<Longrightarrow>
     add_hextets a (map (show_base 16) hs) = Inr (a * 65536 ^ length hs + int (of_base 65536 hs))"
  by (rule add_hextets_val[OF mapE_parse_show])

lemma find_skip_index_none:
  "(\<And>i. 1 \<le> i \<Longrightarrow> i < length parts - 1 \<Longrightarrow> parts ! i \<noteq> []) \<Longrightarrow> find_skip_index parts = Inr None"
  unfolding find_skip_index_def by (rule foldE_idle) auto

lemma find_skip_index_one:
  assumes "1 \<le> k" and "k < length parts - 1" and "parts ! k = []"
    and "\<And>i. 1 \<le> i \<Longrightarrow> i < length parts - 1 \<Longrightarrow> i \<noteq> k \<Longrightarrow> parts ! i \<noteq> []"
  shows "find_skip_index parts = Inr (Some k)"
proof -
  have split: "[1..<length parts - 1] = [1..<k] @ k # [Suc k..<length parts - 1]"
    using assms(1,2) upt_add_eq_append[of 1 k "length parts - 1 - k"] by (simp add: upt_conv_Cons)
  show ?thesis
    unfolding find_skip_index_def split foldE_append
    using assms(3,4) assms(1,2)
    by (subst foldE_idle) (auto intro!: foldE_idle)
qed

lemma parts_plain:
  assumes m: "mapE parse_hextet ps = Inr hs" and hs: "list_all (\<lambda>h. h < 65536) hs" and len: "length ps = 8"
    and ne: "[] \<notin> set ps"
  shows "ip_int_from_parts ps = Inr (int (of_base 65536 hs))"
proof -
  have el: "ps ! i \<noteq> []" if "i < length ps" for i using ne nth_mem[OF that] by metis
  have p0: "ps \<noteq> []" using len by auto
  have "find_skip_index ps = Inr None"
    using el len by (intro find_skip_index_none) auto
  moreover have "hextet_layout ps None = Inr (8, 0, 0)"
    using len el[of 0] el[of 7] p0 by (simp add: hextet_layout_def HEXTET_COUNT_def hd_conv_nth last_conv_nth)
  moreover have "add_hextets 0 ps = Inr (int (of_base 65536 hs))"
    using add_hextets_val[OF m hs, of 0] by simp
  ultimately show ?thesis
    using len by (simp add: ip_int_from_parts_def HEXTET_COUNT_def as_address_error_def add_hextets_def)
qed

lemma parts_compressed:
  assumes "list_all (\<lambda>h. h < 65536) pre" and "list_all (\<lambda>h. h < 65536) post"
    and "length pre + length post \<le> 7"
  shows "ip_int_from_parts (compressed (map (show_base 16) pre) (map (show_base 16) post)) =
    Inr (int (of_base 65536 (pre @ replicate (8 - length pre - length post) 0 @ post)))"
proof -
  let ?pre = "map (show_base 16) pre" and ?post = "map (show_base 16) post"
  let ?ps = "compressed ?pre ?post"
  define a b where "a = (if ?pre = [] then [''''] else ?pre)" and "b = (if ?post = [] then [''''] else ?post)"
  have ps: "?ps = a @ [''''] @ b" by (simp add: compressed_def a_def b_def)
  have la: "length a = max 1 (length pre)" and lb: "length b = max 1 (length post)"
    by (auto simp: a_def b_def max_def Suc_le_eq)
  have a0: "a \<noteq> []" and b0: "b \<noteq> []" by (auto simp: a_def b_def)
  have hda: "hd a = [] \<longleftrightarrow> pre = []" by (auto simp: a_def hd_map)
  have lab: "last b = [] \<longleftrightarrow> post = []" by (auto simp: b_def last_map)
  let ?k = "length a"
  have skip: "find_skip_index ?ps = Inr (Some ?k)"
  proof (rule find_skip_index_one)
    fix i assume "1 \<le> i" and i: "i < length ?ps - 1" and ik: "i \<noteq> ?k"
    show "?ps ! i \<noteq> []"
    proof (cases "i < ?k")
      case True
      with \<open>1 \<le> i\<close> la have "pre \<noteq> []" by (cases pre) auto
      with True show ?thesis by (simp add: ps nth_append a_def)
    next
      case False
      define j where "j = i - Suc ?k"
      have j: "i = Suc ?k + j" and "j < length b" "j < length b - 1" using False ik i ps by (auto simp: j_def)
      with lb have "post \<noteq> []" by (cases post) auto
      with \<open>j < length b\<close> show ?thesis by (simp add: ps j nth_append b_def)
    qed
  qed (use a0 b0 in \<open>auto simp: ps nth_append Suc_le_eq\<close>)
  have lps: "length ?ps = length a + length b + 1" by (simp add: ps)
  have ends: "hd ?ps = hd a" "last ?ps = last b" using a0 b0 by (simp_all add: ps)
  let ?sk = "8 - (length pre + length post)"
  have lay: "hextet_layout ?ps (Some ?k) = Inr (length pre, length post, ?sk)"
    using assms(3) hda lab la lb ends unfolding hextet_layout_def lps
    by (cases "pre = []"; cases "post = []") (auto simp: HEXTET_COUNT_def max_def Suc_le_eq Let_def)
  have hi: "take (length pre) ?ps = ?pre" by (cases "pre = []") (auto simp: ps a_def)
  have lo: "drop (length ?ps - length post) ?ps = ?post"
    by (cases "post = []") (auto simp: ps b_def)
  have v1: "add_hextets 0 ?pre = Inr (int (of_base 65536 pre))"
    using add_hextets_show[OF assms(1), of 0] by simp
  have v2: "add_hextets (push_bit (16 * ?sk) (int (of_base 65536 pre))) ?post =
      Inr (int (of_base 65536 pre) * 2 ^ (16 * ?sk) * 65536 ^ length post + int (of_base 65536 post))"
    unfolding push_bit_arith by (rule add_hextets_show[OF assms(2)]) simp
  have "length ?ps \<le> 9" using assms(3) lps la lb by auto
  moreover have "int (of_base 65536 (pre @ replicate k 0 @ post)) =
      int (of_base 65536 pre) * 2 ^ (16 * k) * 65536 ^ length post + int (of_base 65536 post)" for k
    using of_base_zeros[of 65536 k "[]"] by (simp add: of_base_append power_mult power_add)
  ultimately show ?thesis
    unfolding ip_int_from_parts_def skip bindE_Inr lay split_conv hi lo v1 v2
    by (simp add: HEXTET_COUNT_def as_address_error_def)
qed

lemma py_split_max_eq:
  "length (py_split c xs) \<le> Suc n \<Longrightarrow> py_split_max c n xs = py_split c xs"
proof (induction c n xs rule: py_split_max.induct)
  case (2 c x xs)
  then have "count_list (x # xs) c = 0" using length_py_split[of c "x # xs"] by linarith
  then have "c \<notin> set (x # xs)" by (simp only: count_list_0_iff not_False_eq_True)
  then show ?case by (simp add: py_split_no_sep del: py_split.simps)
next
  case (3 c n x xs)
  then show ?case by (auto split: if_splits list.splits)
qed simp

lemma length_py_join:
  "ps \<noteq> [] \<Longrightarrow> length (py_join sep ps) = sum_list (map length ps) + (length ps - 1) * length sep"
  by (induction sep ps rule: py_join.induct) auto

lemma ip_int_from_joined:
  assumes "\<And>p. p \<in> set ps \<Longrightarrow> CHR '':'' \<notin> set p" and "3 \<le> length ps" and "length ps \<le> 9"
    and "CHR ''.'' \<notin> set (last ps)" and "sum_list (map length ps) \<le> 37"
  shows "ip_int_from_string6 (py_join '':'' ps) = ip_int_from_parts ps"
proof -
  have ne: "ps \<noteq> []" using assms(2) by auto
  have split: "py_split CHR '':'' (py_join '':'' ps) = ps"
    using assms(1) ne by (intro py_split_join) auto
  then have "py_split_max CHR '':'' 9 (py_join '':'' ps) = ps"
    using assms(3) by (subst py_split_max_eq) auto
  moreover have "length (py_join '':'' ps) \<le> 45" "2 \<le> length (py_join '':'' ps)"
    using length_py_join[OF ne, of "'':''"] assms by auto
  moreover have "py_join '':'' ps \<noteq> []" using calculation(3) by auto
  ultimately show ?thesis
    using assms(2,4) by (simp add: ip_int_from_string6_def HEXTET_COUNT_def expand_ipv4_suffix_def)
qed

lemma hextet_lengths:
  "list_all (\<lambda>h. h < 65536) hs \<Longrightarrow> sum_list (map length (map (show_base 16) hs)) \<le> 4 * length hs"
proof (induction hs)
  case (Cons h hs)
  have "length (show_base 16 h) \<le> 4" using Cons.prems by (intro length_show_base_le) auto
  with Cons show ?case by simp
qed simp

lemma sum_length_compressed:
  "sum_list (map length (compressed pre post)) = sum_list (map length pre) + sum_list (map length post)"
  by (simp add: compressed_def)

lemma map_show_split:
  assumes "map (show_base 16) hs = pre @ replicate l ''0'' @ post"
  obtains hp hq where "hs = hp @ replicate l 0 @ hq" and "pre = map (show_base 16) hp" and "post = map (show_base 16) hq"
proof -
  let ?hp = "take (length pre) hs" and ?hz = "take l (drop (length pre) hs)" and ?hq = "drop l (drop (length pre) hs)"
  have len: "length hs = length pre + l + length post" using arg_cong[OF assms, of length] by simp
  have hz: "map (show_base 16) ?hz = replicate l ''0''"
    using arg_cong[OF assms, of "\<lambda>xs. take l (drop (length pre) xs)"] by (simp add: take_map drop_map)
  have "h = 0" if "h \<in> set ?hz" for h
  proof -
    have "show_base 16 h \<in> set (map (show_base 16) ?hz)" using that by simp
    then have "show_base 16 h = ''0''" unfolding hz by simp
    then show ?thesis by (simp add: show_base_eq_zero_iff)
  qed
  moreover have "length ?hz = l" using len by simp
  ultimately have "?hz = replicate l 0" by (blast intro: replicate_eqI)
  then have "hs = ?hp @ replicate l 0 @ ?hq" by (metis append_take_drop_id)
  moreover have "pre = map (show_base 16) ?hp"
    using arg_cong[OF assms, of "take (length pre)"] by (simp add: take_map)
  moreover have "post = map (show_base 16) ?hq"
    using arg_cong[OF assms, of "\<lambda>xs. drop l (drop (length pre) xs)"] by (simp add: drop_map)
  ultimately show ?thesis by (rule that)
qed

lemma hextets_roundtrip:
  assumes hs: "list_all (\<lambda>h. h < 65536) hs" and len: "length hs = 8"
  shows "ip_int_from_string6 (py_join '':'' (compress_hextets (map (show_base 16) hs))) = Inr (int (of_base 65536 hs))"
proof (cases rule: compress_hextets_form[of "map (show_base 16) hs"])
  case plain
  have "sum_list (map length (map (show_base 16) hs)) \<le> 32" using hextet_lengths[OF hs] len by simp
  moreover have "hs \<noteq> []" using len by auto
  ultimately have "ip_int_from_string6 (py_join '':'' (map (show_base 16) hs)) = ip_int_from_parts (map (show_base 16) hs)"
    using len by (intro ip_int_from_joined) (auto simp: last_map)
  moreover have "[] \<notin> set (map (show_base 16) hs)" by (auto dest: sym)
  ultimately show ?thesis using plain parts_plain[OF mapE_parse_show[OF hs] hs] len by simp
next
  case (run pre l post)
  obtain hp hq where h: "hs = hp @ replicate l 0 @ hq" and p: "pre = map (show_base 16) hp"
    and q: "post = map (show_base 16) hq"
    using map_show_split[OF run(1)] by blast
  have l: "l = 8 - length hp - length hq" and le: "length hp + length hq \<le> 6" using len run(2) h by auto
  have lt: "list_all (\<lambda>h. h < 65536) hp" "list_all (\<lambda>h. h < 65536) hq" using hs h by auto
  have "sum_list (map length (compressed pre post)) \<le> 32"
    using hextet_lengths[OF lt(1)] hextet_lengths[OF lt(2)] le unfolding sum_length_compressed p q by linarith
  moreover have "\<And>r. r \<in> set (compressed pre post) \<Longrightarrow> CHR '':'' \<notin> set r \<and> CHR ''.'' \<notin> set r"
    by (auto simp: compressed_def p q split: if_splits)
  moreover have "3 \<le> length (compressed pre post)" "length (compressed pre post) \<le> 9"
    using le by (cases hp; cases hq; simp add: compressed_def p q)+
  ultimately have "ip_int_from_string6 (py_join '':'' (compressed pre post)) = ip_int_from_parts (compressed pre post)"
    by (intro ip_int_from_joined) (auto simp: compressed_def)
  then show ?thesis using parts_compressed[OF lt] le unfolding run(3) unfolding p q h l by simp
qed

lemma string6_roundtrip:
  assumes "0 \<le> a" and "a < 2 ^ 128"
  obtains s where "string_from_ip_int6 a = Inr s" and "ip_int_from_string6 s = Inr a"
  using assms string_from_ip_int6_eq[OF assms] hextets_roundtrip[OF hex_group_parse(2)[OF assms]]
    hex_group_parse(3)[OF assms] by simp

section \<open>Well-formed addresses\<close>

definition wf_addr :: "ip_addr \<Rightarrow> bool" where
  "wf_addr a \<longleftrightarrow> 0 \<le> ip_of a \<and> ip_of a < 2 ^ max_prefixlen (version a) \<and>
     (case scope_id a of
        None \<Rightarrow> True
      | Some s \<Rightarrow> version a = V6 \<and> s \<noteq> [] \<and> CHR ''%'' \<notin> set s \<and> CHR ''/'' \<notin> set s)"

lemma parse_hextet_bound:
  assumes "parse_hextet s = Inr h"
  shows "h < 65536" and "s \<noteq> []" and "\<And>c. c \<in> set s \<Longrightarrow> \<exists>d. digit_val c = Some d \<and> d < 16"
proof -
  from assms obtain ds where l: "length s \<le> 4" and d: "digits_of 16 s = Some ds" and h: "h = of_base 16 ds"
    and ne: "s \<noteq> []"
    and all: "list_all (\<lambda>c. case digit_val c of None \<Rightarrow> False | Some d \<Rightarrow> d < 16) s"
    by (auto simp: parse_hextet_def py_int_def parse_base_def split: if_splits option.splits)
  show "s \<noteq> []" by (rule ne)
  show "\<exists>d. digit_val c = Some d \<and> d < 16" if "c \<in> set s" for c
    using all that by (auto simp: list_all_iff split: option.splits)
  have "h < 16 ^ length ds" unfolding h by (rule of_base_lt[OF _ digits_of_lt[OF d]]) simp
  also have "\<dots> \<le> 16 ^ 4" using digits_of_length[OF d] l by (intro power_increasing) auto
  finally show "h < 65536" by simp
qed

lemma add_hextets_bound:
  assumes "add_hextets a ss = Inr v" and "0 \<le> a" and "a < 2 ^ (16 * k)"
  shows "0 \<le> v \<and> v < 2 ^ (16 * (k + length ss))"
  using assms
proof (induction ss arbitrary: a k)
  case Nil
  then show ?case by (simp add: add_hextets_def)
next
  case (Cons s ss)
  then obtain h where h: "parse_hextet s = Inr h" and r: "add_hextets (push_bit 16 a OR int h) ss = Inr v"
    by (auto simp: add_hextets_def bindE_eq_Inr_iff)
  have hb: "h < 65536" using parse_hextet_bound(1)[OF h] .
  then have eq: "push_bit 16 a OR int h = a * 65536 + int h" by (subst push_or_arith) auto
  have "(a + 1) * 65536 \<le> 2 ^ (16 * k) * (65536 :: int)" using Cons.prems(3) by (intro mult_right_mono) auto
  then have "a * 65536 + int h < 2 ^ (16 * Suc k)" using hb by (simp add: power_add algebra_simps)
  with Cons.IH[OF r[unfolded eq], of "Suc k"] Cons.prems(2) show ?case by simp
qed

lemma add_hextets_parts: "add_hextets a ss = Inr v \<Longrightarrow> s \<in> set ss \<Longrightarrow> \<exists>h. parse_hextet s = Inr h"
  by (induction ss arbitrary: a) (auto simp: add_hextets_def bindE_eq_Inr_iff)

lemma find_skip_index_Some:
  assumes "find_skip_index parts = Inr (Some k)"
  shows "1 \<le> k \<and> k < length parts - 1 \<and> parts ! k = []"
proof -
  have "\<forall>j. Some k = Some j \<longrightarrow> 1 \<le> j \<and> j < length parts - 1 \<and> parts ! j = []"
    using assms unfolding find_skip_index_def
    by (rule foldE_invariant[where P = "\<lambda>s. \<forall>j. s = Some j \<longrightarrow> 1 \<le> j \<and> j < length parts - 1 \<and> parts ! j = []"])
       (auto split: if_splits)
  then show ?thesis by simp
qed

text \<open>The layout covers all parts but the empty ones at \<^verbatim>\<open>::\<close>, and adds up to eight hextets.\<close>

lemma hextet_layout_ok:
  assumes f: "find_skip_index parts = Inr skip" and l: "hextet_layout parts skip = Inr (hi, lo, sk)"
    and len: "3 \<le> length parts"
  shows "hi + lo + sk = 8" and "hi \<le> length parts" and "lo \<le> length parts"
    and "\<And>p. p \<in> set parts \<Longrightarrow> p \<noteq> [] \<Longrightarrow> p \<in> set (take hi parts) \<union> set (drop (length parts - lo) parts)"
proof -
  have "hi + lo + sk = 8 \<and> hi \<le> length parts \<and> lo \<le> length parts \<and>
    (\<forall>p\<in>set parts. p \<noteq> [] \<longrightarrow> p \<in> set (take hi parts) \<union> set (drop (length parts - lo) parts))"
  proof (cases skip)
    case None
    with l show ?thesis by (auto simp: hextet_layout_def HEXTET_COUNT_def split: if_splits)
  next
    case (Some k)
    with find_skip_index_Some f have k: "1 \<le> k" "k < length parts - 1" "parts ! k = []" by auto
    let ?n = "length parts"
    have hi: "hi = (if hd parts = [] then 0 else k)" and lo: "lo = (if last parts = [] then 0 else ?n - k - 1)"
      and hk: "hd parts = [] \<Longrightarrow> k = 1" and lk: "last parts = [] \<Longrightarrow> ?n - k - 1 = 1"
      and sk: "hi + lo + sk = 8"
      using l Some k by (auto simp: hextet_layout_def HEXTET_COUNT_def Let_def bindE_eq_Inr_iff split: if_splits)
    have "p \<in> set (take hi parts) \<union> set (drop (?n - lo) parts)" if p: "p \<in> set parts" "p \<noteq> []" for p
    proof -
      from p obtain i where i: "i < ?n" "p = parts ! i" by (auto simp: in_set_conv_nth)
      consider "i < k" | "i = k" | "k < i" by linarith
      then show ?thesis
      proof cases
        case 1
        show ?thesis
        proof (cases "hd parts = []")
          case True
          with hk 1 have "i = 0" by simp
          with True i p len show ?thesis by (auto simp: hd_conv_nth)
        next
          case False
          with 1 i hi show ?thesis by (auto simp: in_set_conv_nth)
        qed
      next
        case 2
        with k i p show ?thesis by simp
      next
        case 3
        show ?thesis
        proof (cases "last parts = []")
          case True
          with lk 3 i have "i = ?n - 1" by simp
          with True i p last_conv_nth[of parts] show ?thesis by fastforce
        next
          case False
          then have "?n - lo = Suc k" using lo k by simp
          moreover have "parts ! i = drop (Suc k) parts ! (i - Suc k)" "i - Suc k < length (drop (Suc k) parts)"
            using 3 i by auto
          ultimately show ?thesis using i by (metis UnI2 nth_mem)
        qed
      qed
    qed
    then show ?thesis using sk hi lo k by auto
  qed
  then show "hi + lo + sk = 8" and "hi \<le> length parts" and "lo \<le> length parts"
    and "\<And>p. p \<in> set parts \<Longrightarrow> p \<noteq> [] \<Longrightarrow> p \<in> set (take hi parts) \<union> set (drop (length parts - lo) parts)"
    by blast+
qed

definition hex_char :: "char \<Rightarrow> bool" where
  "hex_char c \<longleftrightarrow> (\<exists>d. digit_val c = Some d \<and> d < 16)"

lemma ip_int_from_parts_ok:
  assumes p: "ip_int_from_parts parts = Inr v" and len: "3 \<le> length parts"
  shows "0 \<le> v" and "v < 2 ^ 128" and "\<And>q c. q \<in> set parts \<Longrightarrow> c \<in> set q \<Longrightarrow> hex_char c"
proof -
  from p obtain skip hi lo sk u where f: "find_skip_index parts = Inr skip"
    and l: "hextet_layout parts skip = Inr (hi, lo, sk)"
    and u: "add_hextets 0 (take hi parts) = Inr u"
    and w: "add_hextets (push_bit (16 * sk) u) (drop (length parts - lo) parts) = Inr v"
    by (auto simp: ip_int_from_parts_def bindE_eq_Inr_iff split: if_splits)
  note lay = hextet_layout_ok[OF f l len]
  have u0: "0 \<le> u \<and> u < 2 ^ (16 * hi)"
    using add_hextets_bound[OF u, of 0] lay(2) by (simp add: min.absorb2)
  then have "u * 2 ^ (16 * sk) < 2 ^ (16 * hi) * 2 ^ (16 * sk)" by (intro mult_strict_right_mono) auto
  also have "\<dots> = 2 ^ (16 * (hi + sk))" by (simp add: power_add[symmetric])
  finally have "0 \<le> v \<and> v < 2 ^ (16 * (hi + sk + length (drop (length parts - lo) parts)))"
    using u0 by (intro add_hextets_bound[OF w]) (auto simp: push_bit_arith)
  moreover have "hi + sk + length (drop (length parts - lo) parts) = 8" using lay(1,3) by simp
  ultimately show "0 \<le> v" and "v < 2 ^ 128" by simp_all
  fix q c assume q: "q \<in> set parts" and c: "c \<in> set q"
  then have "q \<in> set (take hi parts) \<union> set (drop (length parts - lo) parts)" by (intro lay(4)) auto
  then obtain h where "parse_hextet q = Inr h" using add_hextets_parts[OF u] add_hextets_parts[OF w] by blast
  then show "hex_char c" using parse_hextet_bound(3) c by (simp add: hex_char_def)
qed

lemma py_split_max_chars:
  "c \<in> set xs \<Longrightarrow> c = d \<or> (\<exists>p\<in>set (py_split_max d n xs). c \<in> set p)"
  by (induction d n xs rule: py_split_max.induct) (auto split: list.splits)

lemma IPv4Address_ok:
  assumes "IPv4Address arg = Inr a"
  shows "wf_addr a" and "version a = V4" and "scope_id a = None"
proof -
  have "0 \<le> ip_of a \<and> ip_of a < 2 ^ 32 \<and> version a = V4 \<and> scope_id a = None"
  proof (cases arg)
    case (AInt x)
    with assms show ?thesis
      by (auto simp: IPv4Address_def check_int_address_def ALL_ONES_def bindE_eq_Inr_iff split: if_splits)
  next
    case (ABytes bs)
    with assms have "length bs = 4" and a: "a = \<lparr>version = V4, ip_of = int (be_val bs), scope_id = None\<rparr>"
      by (auto simp: IPv4Address_def check_packed_address_def bindE_eq_Inr_iff)
    then have "be_val bs < 256 ^ 4" using le_val_bound[of "rev bs"] by (simp add: be_val_def)
    then have "int (be_val bs) < int (256 ^ 4)" by (simp only: of_nat_less_iff)
    with a show ?thesis by simp
  next
    case (AStr s)
    with assms show ?thesis
      using quad_canonical(1,2)[of s] by (force simp: IPv4Address_def bindE_eq_Inr_iff split: if_splits)
  qed
  then show "wf_addr a" and "version a = V4" and "scope_id a = None" by (auto simp: wf_addr_def)
qed

lemma show_base_hex_char: "c \<in> set (show_base 10 n) \<Longrightarrow> hex_char c"
  using to_base_digits[of 10 _ n] digit_val_digit_char
  by (fastforce simp: show_base_def hex_char_def)

lemma set_py_join: "set (py_join sep ps) \<subseteq> set sep \<union> (\<Union>p\<in>set ps. set p)"
  by (induction sep ps rule: py_join.induct) auto

lemma string_from_ip_int4_chars: "c \<in> set (string_from_ip_int4 a) \<Longrightarrow> hex_char c \<or> c = CHR ''.''"
  using set_py_join[of "''.''" "map (show_base 10) (map unat (be_bytes 4 (nat a)))"]
  by (auto simp: string_from_ip_int4_alt show_base_hex_char)

lemma expand_ipv4_suffix_ok:
  assumes "expand_ipv4_suffix parts = Inr ps" and "3 \<le> length parts"
  shows "3 \<le> length ps" and "\<And>q c. q \<in> set parts \<Longrightarrow> c \<in> set q \<Longrightarrow> q \<in> set ps \<or> hex_char c \<or> c = CHR ''.''"
proof -
  have "3 \<le> length ps \<and> (\<forall>q c. q \<in> set parts \<and> c \<in> set q \<longrightarrow> q \<in> set ps \<or> hex_char c \<or> c = CHR ''.'')"
  proof (cases "CHR ''.'' \<in> set (last parts)")
    case True
    then obtain a where a: "IPv4Address (AStr (last parts)) = Inr a"
      and ps: "ps = butlast parts @ [show_base 16 (nat (drop_bit 16 (ip_of a) AND 0xFFFF)), show_base 16 (nat (ip_of a AND 0xFFFF))]"
      using assms(1) by (auto simp: expand_ipv4_suffix_def bindE_eq_Inr_iff)
    from a have "\<exists>x. last parts = string_from_ip_int4 x"
      by (auto simp: IPv4Address_def bindE_eq_Inr_iff split: if_splits dest: quad_canonical(3))
    then have "c \<in> set (last parts) \<Longrightarrow> hex_char c \<or> c = CHR ''.''" for c
      using string_from_ip_int4_chars by metis
    moreover have "q = last parts \<or> q \<in> set (butlast parts)" if "q \<in> set parts" for q
      using that by (metis append_butlast_last_id empty_iff list.set(1) rotate1.simps(2) set_ConsD set_rotate1)
    ultimately show ?thesis using ps assms(2) by auto
  next
    case False
    with assms show ?thesis by (auto simp: expand_ipv4_suffix_def)
  qed
  then show "3 \<le> length ps" and "\<And>q c. q \<in> set parts \<Longrightarrow> c \<in> set q \<Longrightarrow> q \<in> set ps \<or> hex_char c \<or> c = CHR ''.''"
    by blast+
qed

text \<open>An accepted text is an address, and holds only hexadecimal digits, colons and dots.\<close>

lemma ip_int_from_string6_ok:
  assumes "ip_int_from_string6 s = Inr v"
  shows "0 \<le> v" and "v < 2 ^ 128" and "\<And>c. c \<in> set s \<Longrightarrow> hex_char c \<or> c = CHR ''.'' \<or> c = CHR '':''"
proof -
  let ?parts = "py_split_max CHR '':'' 9 s"
  from assms obtain ps where len: "3 \<le> length ?parts" and e: "expand_ipv4_suffix ?parts = Inr ps"
    and p: "ip_int_from_parts ps = Inr v"
    by (auto simp: ip_int_from_string6_def HEXTET_COUNT_def Let_def bindE_eq_Inr_iff split: if_splits)
  note ps = expand_ipv4_suffix_ok[OF e len]
  note v = ip_int_from_parts_ok[OF p ps(1)]
  show "0 \<le> v" and "v < 2 ^ 128" by (rule v)+
  show "hex_char c \<or> c = CHR ''.'' \<or> c = CHR '':''" if "c \<in> set s" for c
    using py_split_max_chars[OF that, of "CHR '':''" 9] ps(2) v(3) by blast
qed

section \<open>Constructors\<close>

lemma ip_int_from_string4_error: "ip_int_from_string4 s = Inl e \<Longrightarrow> e = AddressValueError"
  by (auto simp: ip_int_from_string4_def Let_def split: if_splits dest: as_address_error_Inl)

lemma find_skip_index_error: "find_skip_index parts = Inl e \<Longrightarrow> e = AddressValueError"
  unfolding find_skip_index_def by (drule foldE_Inl) (auto split: if_splits)

lemma hextet_layout_error: "hextet_layout parts skip = Inl e \<Longrightarrow> e = AddressValueError"
  by (auto simp: hextet_layout_def Let_def bindE_eq_Inl_iff split: if_splits option.splits)

lemma ip_int_from_parts_error: "ip_int_from_parts ps = Inl e \<Longrightarrow> e = AddressValueError"
  by (auto simp: ip_int_from_parts_def bindE_eq_Inl_iff split: if_splits
      dest: find_skip_index_error hextet_layout_error as_address_error_Inl)

lemma ip_int_from_string6_error: "ip_int_from_string6 s = Inl e \<Longrightarrow> e = AddressValueError"
  by (auto simp: ip_int_from_string6_def expand_ipv4_suffix_def Let_def bindE_eq_Inl_iff
      split: if_splits dest: ip_int_from_parts_error as_address_error_Inl)

lemma IPv4Address_error: "IPv4Address arg = Inl e \<Longrightarrow> e = AddressValueError"
  by (auto simp: IPv4Address_def check_int_address_def check_packed_address_def bindE_eq_Inl_iff
      split: if_splits addr_arg.splits dest: ip_int_from_string4_error)

lemma split_scope_id_error: "split_scope_id s = Inl e \<Longrightarrow> e = AddressValueError"
  by (auto simp: split_scope_id_def split: if_splits list.splits)

lemma IPv6Address_error: "IPv6Address arg = Inl e \<Longrightarrow> e = AddressValueError"
  by (auto simp: IPv6Address_def check_int_address_def check_packed_address_def bindE_eq_Inl_iff
      split: if_splits addr_arg.splits dest: ip_int_from_string6_error split_scope_id_error)

lemma address_class_error: "address_class v arg = Inl e \<Longrightarrow> e = AddressValueError"
  by (cases v) (auto dest: IPv4Address_error IPv6Address_error)

lemma py_split_max_part_set: "p \<in> set (py_split_max c n xs) \<Longrightarrow> set p \<subseteq> set xs"
proof (induction c n xs arbitrary: p rule: py_split_max.induct)
  case (3 c n x xs)
  then show ?case by (fastforce split: if_splits list.splits)
qed auto

lemma split_scope_id_ok:
  assumes "split_scope_id s = Inr (addr, scope)"
  shows "case scope of None \<Rightarrow> True | Some t \<Rightarrow> t \<noteq> [] \<and> CHR ''%'' \<notin> set t \<and> set t \<subseteq> set s"
proof (cases scope)
  case (Some t)
  with assms have "py_split_max CHR ''%'' 1 s = [addr, t]" and "t \<noteq> []" "CHR ''%'' \<notin> set t"
    by (auto simp: split_scope_id_def split: list.splits if_splits)
  moreover from this have "set t \<subseteq> set s" using py_split_max_part_set[of t "CHR ''%''" 1 s] by simp
  ultimately show ?thesis using Some by simp
qed simp

lemma IPv6Address_ok:
  assumes "IPv6Address arg = Inr a"
  shows "wf_addr a" and "version a = V6"
proof -
  have "wf_addr a \<and> version a = V6"
  proof (cases arg)
    case (AInt x)
    with assms show ?thesis
      by (auto simp: IPv6Address_def check_int_address_def ALL_ONES_def wf_addr_def bindE_eq_Inr_iff split: if_splits)
  next
    case (ABytes bs)
    with assms have "length bs = 16" and a: "a = \<lparr>version = V6, ip_of = int (be_val bs), scope_id = None\<rparr>"
      by (auto simp: IPv6Address_def check_packed_address_def bindE_eq_Inr_iff)
    then have "be_val bs < 256 ^ 16" using le_val_bound[of "rev bs"] by (simp add: be_val_def)
    then have "int (be_val bs) < int (256 ^ 16)" by (simp only: of_nat_less_iff)
    with a show ?thesis by (simp add: wf_addr_def)
  next
    case (AStr s)
    with assms obtain addr scope x where sl: "CHR ''/'' \<notin> set s" and sp: "split_scope_id s = Inr (addr, scope)"
      and x: "ip_int_from_string6 addr = Inr x" and a: "a = \<lparr>version = V6, ip_of = x, scope_id = scope\<rparr>"
      by (auto simp: IPv6Address_def bindE_eq_Inr_iff split: if_splits)
    show ?thesis
      using split_scope_id_ok[OF sp] ip_int_from_string6_ok(1,2)[OF x] sl
      by (auto simp: a wf_addr_def split: option.splits)
  qed
  then show "wf_addr a" and "version a = V6" by auto
qed

lemma address_class_ok: "address_class v arg = Inr a \<Longrightarrow> wf_addr a \<and> version a = v"
  using IPv4Address_ok IPv6Address_ok by (cases v) auto

lemma address_class_int:
  "0 \<le> a \<Longrightarrow> a < 2 ^ max_prefixlen v \<Longrightarrow> address_class v (AInt a) = Inr \<lparr>version = v, ip_of = a, scope_id = None\<rparr>"
  by (cases v) (auto simp: IPv4Address_def IPv6Address_def check_int_address_def ALL_ONES_def)

section \<open>Printing and reading addresses\<close>

definition text_char :: "char \<Rightarrow> bool" where
  "text_char c \<longleftrightarrow> hex_char c \<or> c = CHR ''.'' \<or> c = CHR '':''"

lemma not_text_char: "\<not> text_char CHR ''%''" "\<not> text_char CHR ''/''"
  by (auto simp: text_char_def hex_char_def digit_val_def)

lemma string_from_ip_int6_char:
  assumes "0 \<le> a" and "a < 2 ^ 128" and "string_from_ip_int6 a = Inr s" and "c \<in> set s"
  shows "text_char c"
proof -
  obtain t where "string_from_ip_int6 a = Inr t" and "ip_int_from_string6 t = Inr a"
    using string6_roundtrip[OF assms(1,2)] .
  with assms(3,4) show ?thesis using ip_int_from_string6_ok(3) by (auto simp: text_char_def)
qed

lemma mapped_prefix: "string_from_ip_int6 0xFFFF = Inr ''::ffff''"
proof -
  have z: "replicate 28 CHR ''0'' = ''0000000000000000000000000000''" by code_simp
  have h: "hex_str 65535 = ''0000000000000000000000000000ffff''"
    by (simp add: hex_str_def show_base_lits zpad_def z)
  have g: "hex_groups ''0000000000000000000000000000ffff'' =
      [''0000'', ''0000'', ''0000'', ''0000'', ''0000'', ''0000'', ''0000'', ''ffff'']" by code_simp
  have i: "py_int 16 ''0000'' = Inr 0" "py_int 16 ''ffff'' = Inr 65535"
    by (simp_all add: py_int_def parse_base_lits)
  have c: "compress_hextets [''0'', ''0'', ''0'', ''0'', ''0'', ''0'', ''0'', ''ffff''] = [[], [], ''ffff'']"
    by code_simp
  show ?thesis
    by (simp add: string_from_ip_int6_def ALL_ONES_def h g i show_base_lits c)
qed

lemma and_16: "(x :: int) AND 0xFFFF = x mod 65536"
  using and_mask_arith(2)[of x 16] by simp

lemma and_32: "(x :: int) AND 0xFFFFFFFF = x mod 4294967296"
  using and_mask_arith(2)[of x 32] by simp

lemma quad_length: "length (string_from_ip_int4 a) \<le> 15"
proof -
  have b: "length (show_base 10 (unat b)) \<le> 3" for b :: byte
    by (rule length_show_base_le(1)) (auto intro: less_trans[OF unat_byte_less])
  have "sum_list (map length (map (show_base 10) (map unat bs))) \<le> 3 * length bs" for bs :: bytes
  proof (induction bs)
    case (Cons c bs)
    then show ?case using b[of c] by simp
  qed simp
  from this[of "be_bytes 4 (nat a)"] show ?thesis
    unfolding string_from_ip_int4_alt by (subst length_py_join) (auto simp: be_bytes_nonempty)
qed

lemma mapped_text:
  assumes "0 \<le> x" and "x < 2 ^ 32"
  shows "ip_int_from_string6 (''::ffff:'' @ string_from_ip_int4 x) = Inr (0xFFFF * 2 ^ 32 + x)"
proof -
  let ?q = "string_from_ip_int4 x"
  let ?h = "x div 65536" and ?l = "x mod 65536"
  have noc: "CHR '':'' \<notin> set ?q"
    using string_from_ip_int4_chars[of "CHR '':''" x] by (auto simp: hex_char_def digit_val_def)
  have dot: "CHR ''.'' \<in> set ?q"
  proof (rule ccontr)
    assume "CHR ''.'' \<notin> set ?q"
    then have "py_split CHR ''.'' ?q = [?q]" by (rule py_split_no_sep)
    with arg_cong[OF split_quad[of x], of length] show False by simp
  qed
  have sl: "CHR ''/'' \<notin> set ?q"
    using string_from_ip_int4_chars[of "CHR ''/''" x] by (auto simp: hex_char_def digit_val_def)
  have join: "''::ffff:'' @ ?q = py_join '':'' ['''', '''', ''ffff'', ?q]" by simp
  have split: "py_split CHR '':'' (''::ffff:'' @ ?q) = ['''', '''', ''ffff'', ?q]"
    unfolding join using noc by (intro py_split_join) auto
  have m: "py_split_max CHR '':'' 9 (''::ffff:'' @ ?q) = ['''', '''', ''ffff'', ?q]"
    using split by (subst py_split_max_eq) auto
  have v4: "IPv4Address (AStr ?q) = Inr \<lparr>version = V4, ip_of = x, scope_id = None\<rparr>"
    using quad_roundtrip[OF assms] sl by (simp add: IPv4Address_def)
  have h: "0 \<le> ?h" "?h < 65536" using assms by auto
  have f: "show_base 16 65535 = ''ffff''" by (simp add: show_base_lits)
  have "drop_bit 16 x AND 0xFFFF = ?h" using h by (simp add: drop_bit_arith and_16)
  then have e: "expand_ipv4_suffix ['''', '''', ''ffff'', ?q] =
      Inr (compressed [] (map (show_base 16) [65535, nat ?h, nat ?l]))"
    using dot v4 by (simp add: expand_ipv4_suffix_def as_address_error_def compressed_def f and_16)
  have p: "ip_int_from_parts (compressed [] (map (show_base 16) [65535, nat ?h, nat ?l])) =
      Inr (int (of_base 65536 (replicate 5 0 @ [65535, nat ?h, nat ?l])))"
    using parts_compressed[of "[]" "[65535, nat ?h, nat ?l]"] h by (simp add: nat_less_iff)
  have "int (of_base 65536 (replicate 5 0 @ [65535, nat ?h, nat ?l])) = 0xFFFF * 2 ^ 32 + (?h * 65536 + ?l)"
    using h by (simp add: of_base_zeros) (simp add: of_base_def algebra_simps)
  then have v: "int (of_base 65536 (replicate 5 0 @ [65535, nat ?h, nat ?l])) = 0xFFFF * 2 ^ 32 + x"
    by (simp only: div_mult_mod_eq)
  show ?thesis
    unfolding ip_int_from_string6_def HEXTET_COUNT_def
    using quad_length[of x] m e p v by (simp add: Let_def)
qed

definition scope_suffix :: "ip_addr \<Rightarrow> string" where
  "scope_suffix a = (case scope_id a of None \<Rightarrow> [] | Some s \<Rightarrow> ''%'' @ s)"

lemma ipv4_mapped_eq:
  assumes "0 \<le> ip_of a"
  shows "ipv4_mapped a =
    (if ip_of a div 2 ^ 32 = 0xFFFF then Inr (Some \<lparr>version = V4, ip_of = ip_of a mod 2 ^ 32, scope_id = None\<rparr>)
     else Inr None)"
  using address_class_int[of "ip_of a mod 2 ^ 32" V4]
  by (simp add: ipv4_mapped_def drop_bit_arith and_32)

lemma str_addr6_text:
  assumes "wf_addr a" and "version a = V6"
  obtains t where "str_addr6 a = Inr (t @ scope_suffix a)" and "ip_int_from_string6 t = Inr (ip_of a)"
proof -
  let ?x = "ip_of a"
  from assms have x: "0 \<le> ?x" "?x < 2 ^ 128"
    and sc: "\<And>s. scope_id a = Some s \<Longrightarrow> s \<noteq> []" by (auto simp: wf_addr_def split: option.splits)
  have suf: "(case scope_id a of Some s \<Rightarrow> if s = [] then t else t @ ''%'' @ s | None \<Rightarrow> t) = t @ scope_suffix a" for t
    using sc by (auto simp: scope_suffix_def split: option.splits)
  show ?thesis
  proof (cases "?x div 2 ^ 32 = 0xFFFF")
    case True
    let ?q = "string_from_ip_int4 (?x mod 2 ^ 32)"
    have "ipv4_mapped_ipv6_to_str a = Inr (''::ffff:'' @ ?q)"
      using True ipv4_mapped_eq[OF x(1)] mapped_prefix
      by (simp add: ipv4_mapped_ipv6_to_str_def drop_bit_arith)
    then have "str_addr6 a = Inr ((''::ffff:'' @ ?q) @ scope_suffix a)"
      using True ipv4_mapped_eq[OF x(1)] suf by (simp add: str_addr6_def)
    moreover have "ip_int_from_string6 (''::ffff:'' @ ?q) = Inr (0xFFFF * 2 ^ 32 + ?x mod 2 ^ 32)"
      by (rule mapped_text) auto
    moreover have "0xFFFF * 2 ^ 32 + ?x mod 2 ^ 32 = ?x"
      using True div_mult_mod_eq[of ?x "2 ^ 32"] by simp
    ultimately show ?thesis by (intro that) simp_all
  next
    case False
    obtain t where t: "string_from_ip_int6 ?x = Inr t" "ip_int_from_string6 t = Inr ?x"
      using string6_roundtrip[OF x] .
    have "str_addr6 a = Inr (t @ scope_suffix a)"
      using False ipv4_mapped_eq[OF x(1)] suf t by (simp add: str_addr6_def)
    with t(2) that show ?thesis by blast
  qed
qed

lemma py_split_max_at: "c \<notin> set p \<Longrightarrow> py_split_max c (Suc n) (p @ c # xs) = p # py_split_max c n xs"
  by (induction p) auto

lemma py_split_max_0: "py_split_max c 0 xs = [xs]"
  by (cases xs) auto

lemma py_split_max_none: "c \<notin> set p \<Longrightarrow> py_split_max c n p = [p]"
  by (subst py_split_max_eq) (auto simp: py_split_no_sep)

lemma IPv6Address_text:
  assumes "wf_addr a" and "version a = V6"
    and "ip_int_from_string6 t = Inr (ip_of a)"
  shows "IPv6Address (AStr (t @ scope_suffix a)) = Inr a"
proof -
  have "c \<in> set t \<Longrightarrow> text_char c" for c
    using ip_int_from_string6_ok(3)[OF assms(3)] by (auto simp: text_char_def)
  then have t: "CHR ''%'' \<notin> set t" "CHR ''/'' \<notin> set t" using not_text_char by blast+
  have "CHR ''/'' \<notin> set (t @ scope_suffix a)"
    using t assms(1) by (auto simp: scope_suffix_def wf_addr_def split: option.splits)
  moreover have "split_scope_id (t @ scope_suffix a) = Inr (t, scope_id a)"
    using t assms(1) py_split_max_at[of "CHR ''%''" t 0]
    by (auto simp: scope_suffix_def wf_addr_def split_scope_id_def py_split_max_0 py_split_max_none split: option.splits)
  ultimately show ?thesis using assms(2,3) by (simp add: IPv6Address_def)
qed

lemma hex_groups_ok:
  assumes "0 \<le> a" and "a < 2 ^ 128"
  defines "gs \<equiv> hex_groups (hex_str a)"
  shows "length gs = 8" and "map length gs = replicate 8 4" and "[] \<notin> set gs"
    and "mapE parse_hextet gs = Inr (hextet_vals a)"
    and "\<And>p. p \<in> set gs \<Longrightarrow> CHR '':'' \<notin> set p" and "CHR ''.'' \<notin> set (last gs)"
proof -
  show l8: "length gs = 8" by (simp add: gs_def hex_groups_def)
  have ls: "length (hex_str a) = 32" using hex_str_digits[OF assms(1,2)] .
  have l4: "length p = 4" if "p \<in> set gs" for p
    using that ls by (auto simp: gs_def hex_groups_def length_py_slice)
  show "map length gs = replicate 8 4" using l4 l8 by (intro replicate_eqI) auto
  show "[] \<notin> set gs" using l4 by fastforce
  have hc: "hex_char c" if "p \<in> set gs" "c \<in> set p" for p c
  proof -
    have "c \<in> set (hex_str a)"
      using that by (auto simp: gs_def hex_groups_def py_slice_def dest: in_set_takeD in_set_dropD)
    then have "c = CHR ''0'' \<or> c \<in> set (show_base 16 (nat a))" by (auto simp: hex_str_def zpad_def)
    then show ?thesis
      using to_base_digits[of 16 _ "nat a"] digit_val_digit_char
      by (fastforce simp: hex_char_def show_base_def digit_val_def[of "CHR ''0''"])
  qed
  have py: "mapE (py_int 16) gs = Inr (hextet_vals a)"
    unfolding gs_def by (rule hex_group_parse(1)[OF assms(1,2)])
  have "parse_hextet p = py_int 16 p" if "p \<in> set gs" for p
    using l4[OF that] hc[OF that] by (auto simp: parse_hextet_def list_all_iff hex_char_def split: option.splits)
  then show "mapE parse_hextet gs = Inr (hextet_vals a)" using py by (simp cong: mapE_cong)
  show "CHR '':'' \<notin> set p" if "p \<in> set gs" for p
    using hc[OF that, of "CHR '':''"] by (auto simp: hex_char_def digit_val_def)
  have "last gs \<in> set gs" using l8 by (intro last_in_set) auto
  then show "CHR ''.'' \<notin> set (last gs)"
    using hc[of "last gs" "CHR ''.''"] by (auto simp: hex_char_def digit_val_def)
qed

lemma str_addr_reads_back:
  assumes "wf_addr a"
  shows "\<exists>s. str_addr a = Inr s \<and> address_class (version a) (AStr s) = Inr a"
proof (cases "version a")
  case V4
  let ?s = "string_from_ip_int4 (ip_of a)"
  from assms V4 have x: "0 \<le> ip_of a" "ip_of a < 2 ^ 32" and sc: "scope_id a = None"
    by (auto simp: wf_addr_def split: option.splits)
  have "CHR ''/'' \<notin> set ?s"
    using string_from_ip_int4_chars[of "CHR ''/''"] by (auto simp: hex_char_def digit_val_def)
  then have "IPv4Address (AStr ?s) = Inr a"
    using quad_roundtrip[OF x] V4 sc by (simp add: IPv4Address_def)
  then show ?thesis using V4 by (simp add: str_addr_def)
next
  case V6
  obtain t where "str_addr6 a = Inr (t @ scope_suffix a)" and t: "ip_int_from_string6 t = Inr (ip_of a)"
    using str_addr6_text[OF assms V6] .
  with IPv6Address_text[OF assms V6 t] V6 show ?thesis by (simp add: str_addr_def)
qed

lemma address_class_no_slash: "address_class v (AStr s) = Inr a \<Longrightarrow> CHR ''/'' \<notin> set s"
  by (cases v) (auto simp: IPv4Address_def IPv6Address_def split: if_splits)

text \<open>
  The exploded form of an IPv6 address without scope that is not IPv4-mapped is eight groups
  of exactly four hexadecimal digits, and is read back as the address.
\<close>

lemma exploded_roundtrip:
  assumes "wf_addr a" and "version a = V6" and "scope_id a = None" and "ip_of a div 2 ^ 32 \<noteq> 0xFFFF"
  shows "\<exists>s. exploded a = Inr s \<and> length s = 39 \<and> ip_int_from_string6 s = Inr (ip_of a)"
proof -
  let ?g = "hex_groups (hex_str (ip_of a))"
  from assms have x: "0 \<le> ip_of a" "ip_of a < 2 ^ 128" by (auto simp: wf_addr_def)
  obtain t where t: "str_addr6 a = Inr t" "ip_int_from_string6 t = Inr (ip_of a)"
    using str_addr6_text[OF assms(1,2)] assms(3) by (auto simp: scope_suffix_def)
  note g = hex_groups_ok[OF x]
  have "exploded a = Inr (py_join '':'' ?g)"
    using assms(2,4) ipv4_mapped_eq[OF x(1)] t by (simp add: exploded_def exploded6_def explode_base6_def)
  moreover have "length (py_join '':'' ?g) = 39"
    using length_py_join[of ?g "'':''"] g(1,2) by (cases "?g = []") (simp_all add: sum_list_replicate)
  moreover have "ip_int_from_string6 (py_join '':'' ?g) = ip_int_from_parts ?g"
    using g by (intro ip_int_from_joined) (auto simp: sum_list_replicate)
  moreover have "ip_int_from_parts ?g = Inr (int (of_base 65536 (hextet_vals (ip_of a))))"
    using g hex_group_parse(2)[OF x] by (intro parts_plain) auto
  ultimately show ?thesis using hex_group_parse(3)[OF x] x by simp
qed

section \<open>Properties\<close>

text \<open>
  C13: \<^verbatim>\<open>str\<close> and the constructors of \<^verbatim>\<open>IPv4Address\<close> and \<^verbatim>\<open>IPv6Address\<close> are inverse: the text an
  address prints as (dotted quad, compressed hextets, IPv4-mapped form, scope identifier) is
  accepted and read back as the same address.
\<close>

theorem address_text_roundtrip:
  assumes "wf_addr a"
  shows "\<exists>s. str_addr a = Inr s \<and> address_class (version a) (AStr s) = Inr a"
  by (rule str_addr_reads_back[OF assms])

theorem address_text_roundtrip_witness:
  "\<exists>s. str_addr \<lparr>version = V6, ip_of = 0xFE800000000000000000000000000001, scope_id = Some ''eth0''\<rparr> = Inr s \<and>
     address_class V6 (AStr s) = Inr \<lparr>version = V6, ip_of = 0xFE800000000000000000000000000001, scope_id = Some ''eth0''\<rparr>"
  using address_text_roundtrip[of "\<lparr>version = V6, ip_of = 0xFE800000000000000000000000000001, scope_id = Some ''eth0''\<rparr>"]
  by (simp add: wf_addr_def)

text \<open>
  C14: The dotted quads that are accepted are exactly the ones that are printed: no leading
  zeros, no signs or blanks, four octets below 256, and one text per address.
\<close>

theorem dotted_quad_canonical:
  "ip_int_from_string4 s = Inr a \<longleftrightarrow> 0 \<le> a \<and> a < 2 ^ 32 \<and> s = string_from_ip_int4 a"
  using quad_canonical[of s a] quad_roundtrip[of a] by auto

text \<open>
  C15: \<^verbatim>\<open>ip_address\<close> on any integer, packed bytes or text either returns a well-formed address
  that one of the two classes accepts, or raises \<^verbatim>\<open>ValueError\<close> after both have raised
  \<^verbatim>\<open>AddressValueError\<close>; nothing else escapes the parsers.
\<close>

theorem ip_address_outcomes:
  "case ip_address arg of
     Inr a \<Rightarrow> wf_addr a \<and> address_class (version a) arg = Inr a
   | Inl e \<Rightarrow> e = ValueError \<and> IPv4Address arg = Inl AddressValueError \<and> IPv6Address arg = Inl AddressValueError"
proof (cases "IPv4Address arg")
  case (Inr a)
  then show ?thesis using IPv4Address_ok[OF Inr] by (simp add: ip_address_def)
next
  case (Inl e)
  then have 4: "IPv4Address arg = Inl AddressValueError" using IPv4Address_error by auto
  show ?thesis
  proof (cases "IPv6Address arg")
    case (Inr a)
    then show ?thesis using 4 IPv6Address_ok[OF Inr] by (simp add: ip_address_def)
  next
    case (Inl e)
    then have "IPv6Address arg = Inl AddressValueError" using IPv6Address_error by auto
    then show ?thesis using 4 by (simp add: ip_address_def)
  qed
qed

text \<open>
  C16: \<^verbatim>\<open>exploded\<close> of an IPv6 address with a scope identifier always raises
  \<^verbatim>\<open>AddressValueError\<close>: the exploded form is computed by reading \<^verbatim>\<open>str(self)\<close> back with the
  parser that does not know scopes.
\<close>

theorem exploded_scoped_fails:
  assumes "wf_addr a" and "scope_id a \<noteq> None"
  shows "exploded a = Inl AddressValueError"
proof -
  from assms have V6: "version a = V6" and x: "0 \<le> ip_of a" by (auto simp: wf_addr_def split: option.splits)
  obtain t where t: "str_addr6 a = Inr (t @ scope_suffix a)"
    using str_addr6_text[OF assms(1) V6] by blast
  have pc: "CHR ''%'' \<in> set (t @ scope_suffix a)" using assms(2) by (auto simp: scope_suffix_def)
  have "ip_int_from_string6 (t @ scope_suffix a) \<noteq> Inr v" for v
  proof
    assume "ip_int_from_string6 (t @ scope_suffix a) = Inr v"
    from ip_int_from_string6_ok(3)[OF this pc] have "text_char CHR ''%''" unfolding text_char_def .
    with not_text_char(1) show False ..
  qed
  then have "ip_int_from_string6 (t @ scope_suffix a) = Inl AddressValueError"
    using ip_int_from_string6_error by (cases "ip_int_from_string6 (t @ scope_suffix a)") auto
  then have "explode_base6 a = Inl AddressValueError" using t by (simp add: explode_base6_def)
  then show ?thesis using V6 ipv4_mapped_eq[OF x] by (simp add: exploded_def exploded6_def)
qed

theorem exploded_scoped_fails_witness:
  "exploded \<lparr>version = V6, ip_of = 0xFE800000000000000000000000000001, scope_id = Some ''eth0''\<rparr> = Inl AddressValueError"
  using exploded_scoped_fails[of "\<lparr>version = V6, ip_of = 0xFE800000000000000000000000000001, scope_id = Some ''eth0''\<rparr>"]
  by (simp add: wf_addr_def)

text \<open>
  C17: Two addresses of one version with the same scope, or none, are ordered by their value:
  \<^verbatim>\<open><\<close>, \<^verbatim>\<open>==\<close>, \<^verbatim>\<open>>\<close> and \<^verbatim>\<open><=\<close> are those of the two integers.  Two IPv6 addresses that differ only in their scope are neither
  equal nor less than one another, and \<^verbatim>\<open>functools.total_ordering\<close> makes each greater than the
  other.
\<close>

theorem address_order:
  assumes "version a = version b" and "version a = V4 \<longrightarrow> scope_id a = None \<and> scope_id b = None"
  shows "if scope_id a = scope_id b
    then addr_lt a b = Inr (ip_of a < ip_of b) \<and> (addr_eq a b \<longleftrightarrow> ip_of a = ip_of b) \<and>
      addr_gt a b = Inr (ip_of b < ip_of a) \<and> addr_le a b = Inr (ip_of a \<le> ip_of b)
    else ip_of a = ip_of b \<longrightarrow>
      addr_lt a b = Inr False \<and> addr_lt b a = Inr False \<and> \<not> addr_eq a b \<and>
      addr_gt a b = Inr True \<and> addr_gt b a = Inr True"
  using assms by (cases "version a") (auto simp: addr_lt_def addr_eq_def addr_gt_def addr_le_def)

theorem address_order_witness:
  "addr_gt \<lparr>version = V6, ip_of = 1, scope_id = Some ''a''\<rparr> \<lparr>version = V6, ip_of = 1, scope_id = Some ''b''\<rparr> = Inr True \<and>
   addr_gt \<lparr>version = V6, ip_of = 1, scope_id = Some ''b''\<rparr> \<lparr>version = V6, ip_of = 1, scope_id = Some ''a''\<rparr> = Inr True"
  using address_order[of "\<lparr>version = V6, ip_of = 1, scope_id = Some ''a''\<rparr>" "\<lparr>version = V6, ip_of = 1, scope_id = Some ''b''\<rparr>"]
  by simp

end
