(* ===== verification/IpNet.thy ===== *)
theory IpNet
  imports IpText
begin

text \<open>
  The network half of \<^verbatim>\<open>ipaddress.py\<close>: networks of either version with their masks, membership,
  subnets and supernets, exclusion of a subnet and the summary of an address range as networks.  A well-formed network is the interval of the
  addresses that share its prefix; the lemmas reduce the bit operations to that interval, and
  the properties say which addresses the results cover.
\<close>

section \<open>Masks\<close>

datatype mask_arg = MInt int | MStr string

definition count_righthand_zero_bits :: "int \<Rightarrow> nat \<Rightarrow> nat" where
  "count_righthand_zero_bits number bits =
     (if number = 0 then bits else min bits (bit_length (NOT number AND (number - 1))))"

definition ip_int_from_prefix :: "ipver \<Rightarrow> nat \<Rightarrow> int" where
  "ip_int_from_prefix v p = ALL_ONES v XOR (drop_bit p (ALL_ONES v))"

definition prefix_from_ip_int :: "ipver \<Rightarrow> int \<Rightarrow> nat result" where
  "prefix_from_ip_int v ip_int =
     (let trailing_zeroes = count_righthand_zero_bits ip_int (max_prefixlen v);
          prefixlen = max_prefixlen v - trailing_zeroes;
          leading_ones = drop_bit trailing_zeroes ip_int;
          all_ones = push_bit prefixlen 1 - 1
      in if leading_ones \<noteq> all_ones then Inl ValueError else Inr prefixlen)"

definition prefix_from_prefix_string :: "ipver \<Rightarrow> string \<Rightarrow> nat result" where
  "prefix_from_prefix_string v s =
     (if \<not> ascii_isdigit s then Inl NetmaskValueError
      else case py_int 10 s of
        Inl _ \<Rightarrow> Inl NetmaskValueError
      | Inr p \<Rightarrow> if \<not> p \<le> max_prefixlen v then Inl NetmaskValueError else Inr p)"

definition prefix_from_ip_string :: "ipver \<Rightarrow> string \<Rightarrow> nat result" where
  "prefix_from_ip_string v s =
     (case (case v of V4 \<Rightarrow> ip_int_from_string4 s | V6 \<Rightarrow> ip_int_from_string6 s) of
        Inl e \<Rightarrow> Inl (if e = AddressValueError then NetmaskValueError else e)
      | Inr ip_int \<Rightarrow>
          (case prefix_from_ip_int v ip_int of
             Inr p \<Rightarrow> Inr p
           | Inl _ \<Rightarrow>
               (case prefix_from_ip_int v (ip_int XOR ALL_ONES v) of
                  Inr p \<Rightarrow> Inr p
                | Inl _ \<Rightarrow> Inl NetmaskValueError)))"

definition make_netmask :: "ipver \<Rightarrow> mask_arg \<Rightarrow> (int \<times> nat) result" where
  "make_netmask v arg =
     bindE (case arg of
         MInt p \<Rightarrow> if \<not> (0 \<le> p \<and> p \<le> int (max_prefixlen v)) then Inl NetmaskValueError else Inr (nat p)
       | MStr s \<Rightarrow>
           (case v of
              V4 \<Rightarrow> (case prefix_from_prefix_string v s of
                       Inr p \<Rightarrow> Inr p
                     | Inl e \<Rightarrow> if e = NetmaskValueError then prefix_from_ip_string v s else Inl e)
            | V6 \<Rightarrow> prefix_from_prefix_string v s))
       (\<lambda>p. bindE (address_class v (AInt (ip_int_from_prefix v p))) (\<lambda>netmask. Inr (ip_of netmask, p)))"

section \<open>Networks\<close>

record network =
  n_version :: ipver
  network_address :: ip_addr
  netmask :: int
  prefixlen :: nat

datatype net_arg = NAddr addr_arg | NTuple addr_arg "mask_arg option"

definition split_optional_netmask :: "string \<Rightarrow> string list result" where
  "split_optional_netmask s =
     (let addr = py_split CHR ''/'' s in if 2 < length addr then Inl AddressValueError else Inr addr)"

definition split_addr_prefix :: "ipver \<Rightarrow> net_arg \<Rightarrow> (addr_arg \<times> mask_arg) result" where
  "split_addr_prefix v arg = (case arg of
     NAddr (AStr s) \<Rightarrow> bindE (split_optional_netmask s) (\<lambda>parts.
       if 1 < length parts then Inr (AStr (parts ! 0), MStr (parts ! 1))
       else Inr (AStr (parts ! 0), MInt (int (max_prefixlen v))))
   | NAddr a \<Rightarrow> Inr (a, MInt (int (max_prefixlen v)))
   | NTuple a (Some m) \<Rightarrow> Inr (a, m)
   | NTuple a None \<Rightarrow> Inr (a, MInt (int (max_prefixlen v))))"

text \<open>\<^verbatim>\<open>IPv4Network.__init__\<close> and \<^verbatim>\<open>IPv6Network.__init__\<close>\<close>

definition new_network :: "ipver \<Rightarrow> bool \<Rightarrow> net_arg \<Rightarrow> network result" where
  "new_network v strict arg =
     bindE (split_addr_prefix v arg) (\<lambda>(addr, mask).
     bindE (address_class v addr) (\<lambda>a.
     bindE (make_netmask v mask) (\<lambda>(nm, p).
       let packed = ip_of a in
       if packed AND nm \<noteq> packed then
         (if strict then Inl ValueError
          else bindE (address_class v (AInt (packed AND nm))) (\<lambda>a'.
            Inr \<lparr>n_version = v, network_address = a', netmask = nm, prefixlen = p\<rparr>))
       else Inr \<lparr>n_version = v, network_address = a, netmask = nm, prefixlen = p\<rparr>)))"

definition ip_network :: "net_arg \<Rightarrow> bool \<Rightarrow> network result" where
  "ip_network arg strict = (case new_network V4 strict arg of
     Inr n \<Rightarrow> Inr n
   | Inl e \<Rightarrow> if e = AddressValueError \<or> e = NetmaskValueError
       then (case new_network V6 strict arg of
               Inr n \<Rightarrow> Inr n
             | Inl e \<Rightarrow> if e = AddressValueError \<or> e = NetmaskValueError then Inl ValueError else Inl e)
       else Inl e)"

definition hostmask :: "network \<Rightarrow> int" where
  "hostmask n = netmask n XOR ALL_ONES (n_version n)"

definition broadcast_address :: "network \<Rightarrow> int" where
  "broadcast_address n = ip_of (network_address n) OR hostmask n"

definition num_addresses :: "network \<Rightarrow> int" where
  "num_addresses n = broadcast_address n - ip_of (network_address n) + 1"

definition net_str :: "network \<Rightarrow> string result" where
  "net_str n = bindE (str_addr (network_address n)) (\<lambda>s. Inr (s @ ''/'' @ show_base 10 (prefixlen n)))"

definition with_netmask :: "network \<Rightarrow> string result" where
  "with_netmask n =
     bindE (str_addr (network_address n)) (\<lambda>s.
     bindE (str_addr \<lparr>version = n_version n, ip_of = netmask n, scope_id = None\<rparr>) (\<lambda>m. Inr (s @ ''/'' @ m)))"

definition with_hostmask :: "network \<Rightarrow> string result" where
  "with_hostmask n =
     bindE (str_addr (network_address n)) (\<lambda>s.
     bindE (str_addr \<lparr>version = n_version n, ip_of = hostmask n, scope_id = None\<rparr>) (\<lambda>m. Inr (s @ ''/'' @ m)))"

text \<open>\<^verbatim>\<open>range(a, b, s)\<close> for a positive step.\<close>

definition py_range :: "int \<Rightarrow> int \<Rightarrow> int \<Rightarrow> int list" where
  "py_range a b s = map (\<lambda>i. a + int i * s) [0..<nat (ceil_div (b - a) s)]"

definition iter_network :: "network \<Rightarrow> ip_addr list result" where
  "iter_network n =
     mapE (\<lambda>x. address_class (n_version n) (AInt x))
       (py_range (ip_of (network_address n)) (broadcast_address n + 1) 1)"

definition hosts :: "network \<Rightarrow> ip_addr list result" where
  "hosts n =
     (if prefixlen n = max_prefixlen (n_version n) - 1 then iter_network n
      else if prefixlen n = max_prefixlen (n_version n) then Inr [network_address n]
      else mapE (\<lambda>x. address_class (n_version n) (AInt x))
        (py_range (ip_of (network_address n) + 1)
           (case n_version n of V4 \<Rightarrow> broadcast_address n | V6 \<Rightarrow> broadcast_address n + 1) 1))"

definition getitem :: "network \<Rightarrow> int \<Rightarrow> ip_addr result" where
  "getitem n i =
     (let network = ip_of (network_address n); broadcast = broadcast_address n in
      if 0 \<le> i then
        (if broadcast < network + i then Inl IndexError
         else address_class (n_version n) (AInt (network + i)))
      else
        (if broadcast + (i + 1) < network then Inl IndexError
         else address_class (n_version n) (AInt (broadcast + (i + 1)))))"

definition net_eq :: "network \<Rightarrow> network \<Rightarrow> bool" where
  "net_eq m n \<longleftrightarrow> n_version m = n_version n \<and> addr_eq (network_address m) (network_address n) \<and> netmask m = netmask n"

definition net_lt :: "network \<Rightarrow> network \<Rightarrow> bool result" where
  "net_lt m n =
     (if n_version m \<noteq> n_version n then Inl TypeError
      else if \<not> addr_eq (network_address m) (network_address n) then addr_lt (network_address m) (network_address n)
      else if netmask m \<noteq> netmask n then Inr (netmask m < netmask n)
      else Inr False)"

definition compare_networks :: "network \<Rightarrow> network \<Rightarrow> int result" where
  "compare_networks m n =
     (if n_version m \<noteq> n_version n then Inl TypeError
      else bindE (addr_lt (network_address m) (network_address n)) (\<lambda>lt.
        if lt then Inr (- 1)
        else bindE (addr_gt (network_address m) (network_address n)) (\<lambda>gt.
          if gt then Inr 1
          else if netmask m < netmask n then Inr (- 1)
          else if netmask m > netmask n then Inr 1
          else Inr 0)))"

text \<open>\<^verbatim>\<open>a in n\<close> for an address; a network is never in a network.\<close>

definition contains :: "network \<Rightarrow> ipver \<Rightarrow> int \<Rightarrow> bool" where
  "contains n v a \<longleftrightarrow> n_version n = v \<and> a AND netmask n = ip_of (network_address n)"

definition overlaps :: "network \<Rightarrow> network \<Rightarrow> bool" where
  "overlaps m n \<longleftrightarrow>
     contains n (n_version m) (ip_of (network_address m)) \<or>
     contains n (n_version m) (broadcast_address m) \<or>
     contains m (n_version n) (ip_of (network_address n)) \<or>
     contains m (n_version n) (broadcast_address n)"

definition is_subnet_of :: "network \<Rightarrow> network \<Rightarrow> bool result" where
  "is_subnet_of a b =
     (if n_version a \<noteq> n_version b then Inl TypeError
      else bindE (addr_le (network_address b) (network_address a)) (\<lambda>le.
        Inr (le \<and> broadcast_address b \<ge> broadcast_address a)))"

definition subnet_of :: "network \<Rightarrow> network \<Rightarrow> bool result" where
  "subnet_of n other = is_subnet_of n other"

definition supernet_of :: "network \<Rightarrow> network \<Rightarrow> bool result" where
  "supernet_of n other = is_subnet_of other n"

definition subnets :: "network \<Rightarrow> int \<Rightarrow> int option \<Rightarrow> network list result" where
  "subnets n prefixlen_diff new_prefix =
     (if prefixlen n = max_prefixlen (n_version n) then Inr [n]
      else bindE (case new_prefix of
          None \<Rightarrow> Inr prefixlen_diff
        | Some np \<Rightarrow>
            if np < int (prefixlen n) then Inl ValueError
            else if prefixlen_diff \<noteq> 1 then Inl ValueError
            else Inr (np - int (prefixlen n))) (\<lambda>diff.
        if diff < 0 then Inl ValueError
        else let new_prefixlen = int (prefixlen n) + diff in
          if new_prefixlen > int (max_prefixlen (n_version n)) then Inl ValueError
          else mapE (\<lambda>a. new_network (n_version n) True (NTuple (AInt a) (Some (MInt new_prefixlen))))
            (py_range (ip_of (network_address n)) (broadcast_address n + 1)
              (drop_bit (nat diff) (hostmask n + 1)))))"

definition supernet :: "network \<Rightarrow> int \<Rightarrow> int option \<Rightarrow> network result" where
  "supernet n prefixlen_diff new_prefix =
     (if prefixlen n = 0 then Inr n
      else bindE (case new_prefix of
          None \<Rightarrow> Inr prefixlen_diff
        | Some np \<Rightarrow>
            if np > int (prefixlen n) then Inl ValueError
            else if prefixlen_diff \<noteq> 1 then Inl ValueError
            else Inr (int (prefixlen n) - np)) (\<lambda>diff.
        let new_prefixlen = int (prefixlen n) - diff in
        if new_prefixlen < 0 then Inl ValueError
        else if diff < 0 then Inl ValueError
        else new_network (n_version n) True
          (NTuple (AInt (ip_of (network_address n) AND push_bit (nat diff) (netmask n))) (Some (MInt new_prefixlen)))))"

text \<open>The two halves \<^verbatim>\<open>s1, s2 = n.subnets()\<close>.\<close>

definition halves :: "network \<Rightarrow> (network \<times> network) result" where
  "halves n = bindE (subnets n 1 None) (\<lambda>ns. case ns of [s1, s2] \<Rightarrow> Inr (s1, s2) | _ \<Rightarrow> Inl ValueError)"

text \<open>The loop of \<^verbatim>\<open>address_exclude\<close>; each turn lengthens the prefix, so that as many turns as the
  version has bits are enough.\<close>

fun exclude_loop :: "nat \<Rightarrow> network \<Rightarrow> network \<Rightarrow> network \<Rightarrow> network list \<Rightarrow> network list result" where
  "exclude_loop 0 other s1 s2 acc = Inl RuntimeError"
| "exclude_loop (Suc fuel) other s1 s2 acc =
     (if \<not> net_eq s1 other \<and> \<not> net_eq s2 other then
        bindE (is_subnet_of other s1) (\<lambda>in1.
          if in1 then bindE (halves s1) (\<lambda>(t1, t2). exclude_loop fuel other t1 t2 (acc @ [s2]))
          else bindE (is_subnet_of other s2) (\<lambda>in2.
            if in2 then bindE (halves s2) (\<lambda>(t1, t2). exclude_loop fuel other t1 t2 (acc @ [s1]))
            else Inl (AssertionError ''Error performing exclusion'')))
      else if net_eq s1 other then Inr (acc @ [s2])
      else if net_eq s2 other then Inr (acc @ [s1])
      else Inl (AssertionError ''Error performing exclusion''))"

definition address_exclude :: "network \<Rightarrow> network \<Rightarrow> network list result" where
  "address_exclude n other =
     (if n_version n \<noteq> n_version other then Inl TypeError
      else bindE (is_subnet_of other n) (\<lambda>sub.
        if \<not> sub then Inl ValueError
        else if net_eq other n then Inr []
        else bindE (net_str other) (\<lambda>s.
          bindE (new_network (n_version other) True (NAddr (AStr s))) (\<lambda>other.
          bindE (halves n) (\<lambda>(s1, s2).
            exclude_loop (Suc (max_prefixlen (n_version n))) other s1 s2 [])))))"

section \<open>Ranges\<close>

function summarize_loop :: "ipver \<Rightarrow> int \<Rightarrow> int \<Rightarrow> network list result" where
  "summarize_loop v first_int last_int =
     (if first_int \<le> last_int then
        let nbits = min (count_righthand_zero_bits first_int (max_prefixlen v))
                        (bit_length (last_int - first_int + 1) - 1)
        in bindE (new_network v True (NTuple (AInt first_int) (Some (MInt (int (max_prefixlen v) - int nbits))))) (\<lambda>net.
           let first_int = first_int + push_bit nbits 1 in
           if first_int - 1 = ALL_ONES v then Inr [net]
           else bindE (summarize_loop v first_int last_int) (\<lambda>nets. Inr (net # nets)))
      else Inr [])"
  by pat_completeness auto
termination
  by (relation "measure (\<lambda>(v, f, l). nat (l - f + 1))") (auto simp: push_bit_eq_mult)

declare summarize_loop.simps [simp del]

definition summarize_address_range :: "ip_addr \<Rightarrow> ip_addr \<Rightarrow> network list result" where
  "summarize_address_range f l =
     (if version f \<noteq> version l then Inl TypeError
      else bindE (addr_gt f l) (\<lambda>gt.
        if gt then Inl ValueError else summarize_loop (version f) (ip_of f) (ip_of l)))"

section \<open>Masks as arithmetic\<close>

abbreviation host_bits :: "ipver \<Rightarrow> nat \<Rightarrow> nat" where
  "host_bits v p \<equiv> max_prefixlen v - p"

lemma mask_xor_mask:
  assumes "k \<le> m"
  shows "(2 ^ m - 1 :: int) XOR (2 ^ k - 1) = 2 ^ m - 2 ^ k"
proof -
  have "mask m XOR (mask k :: int) = push_bit k (mask (m - k))"
    using assms by (intro bit_eqI) (auto simp: bit_xor_iff bit_mask_iff bit_push_bit_iff)
  also have "\<dots> = 2 ^ m - 2 ^ k"
    using assms by (simp add: push_bit_eq_mult mask_eq_exp_minus_1 algebra_simps power_add[symmetric])
  finally show ?thesis by (simp add: mask_eq_exp_minus_1)
qed

lemma drop_bit_ones: "p \<le> m \<Longrightarrow> drop_bit p (2 ^ m - 1 :: int) = 2 ^ (m - p) - 1"
  using drop_bit_mask_eq[of p m, where ?'a = int] by (simp add: mask_eq_exp_minus_1)

lemma ip_int_from_prefix_val: "p \<le> max_prefixlen v \<Longrightarrow> ip_int_from_prefix v p = 2 ^ max_prefixlen v - 2 ^ host_bits v p"
  by (simp add: ip_int_from_prefix_def ALL_ONES_def drop_bit_ones mask_xor_mask)

lemma and_upper_mask:
  assumes "k \<le> m" and "0 \<le> a" and "a < 2 ^ m"
  shows "a AND (2 ^ m - 2 ^ k) = (a :: int) div 2 ^ k * 2 ^ k"
proof -
  have a: "j < m" if "bit a j" for j
    using assms that by (metis bit_take_bit_iff take_bit_int_eq_self)
  have "(2 ^ m - 2 ^ k :: int) = push_bit k (mask (m - k))"
    using assms(1) by (simp add: push_bit_eq_mult mask_eq_exp_minus_1 algebra_simps power_add[symmetric])
  also have "a AND \<dots> = push_bit k (drop_bit k a)"
    using a by (intro bit_eqI) (auto simp: bit_and_iff bit_push_bit_iff bit_mask_iff bit_drop_bit_eq diff_less_mono)
  finally show ?thesis by (simp add: bit_arith)
qed

lemma mask_xor_ones: "k \<le> m \<Longrightarrow> (2 ^ m - 2 ^ k :: int) XOR (2 ^ m - 1) = 2 ^ k - 1"
  using mask_xor_mask[of k m] by (metis xor.commute xor.left_commute xor_self_eq xor.right_neutral)

lemma or_ones: "(2 :: int) ^ k dvd a \<Longrightarrow> a OR (2 ^ k - 1) = a + (2 ^ k - 1)"
  using push_or_arith[of "2 ^ k - 1" k "a div 2 ^ k"] by (simp add: push_bit_arith)

lemma aligned_iff: "(a :: int) div 2 ^ k * 2 ^ k = a \<longleftrightarrow> 2 ^ k dvd a"
  by (metis dvd_div_mult_self dvd_triv_right)

lemma aligned_gap:
  fixes x y d :: int
  assumes "d dvd x" and "d dvd y" and "x < y"
  shows "x + d \<le> y"
  using zdvd_imp_le[of d "y - x"] assms by simp

section \<open>Well-formed networks\<close>

abbreviation lo :: "network \<Rightarrow> int" where
  "lo n \<equiv> ip_of (network_address n)"

definition wf_net :: "network \<Rightarrow> bool" where
  "wf_net n \<longleftrightarrow> wf_addr (network_address n) \<and> version (network_address n) = n_version n \<and>
     prefixlen n \<le> max_prefixlen (n_version n) \<and>
     netmask n = ip_int_from_prefix (n_version n) (prefixlen n) \<and> lo n AND netmask n = lo n"

definition unscoped :: "network \<Rightarrow> bool" where
  "unscoped n \<longleftrightarrow> scope_id (network_address n) = None"

definition without_scope :: "network \<Rightarrow> network" where
  "without_scope n = n\<lparr>network_address := (network_address n)\<lparr>scope_id := None\<rparr>\<rparr>"

definition addrs :: "network \<Rightarrow> int set" where
  "addrs n = {lo n..broadcast_address n}"

definition mk_net :: "ipver \<Rightarrow> int \<Rightarrow> nat \<Rightarrow> network" where
  "mk_net v a p = \<lparr>n_version = v, network_address = \<lparr>version = v, ip_of = a, scope_id = None\<rparr>,
     netmask = 2 ^ max_prefixlen v - 2 ^ host_bits v p, prefixlen = p\<rparr>"

definition block :: "ipver \<Rightarrow> int \<Rightarrow> nat \<Rightarrow> bool" where
  "block v a p \<longleftrightarrow> p \<le> max_prefixlen v \<and> 0 \<le> a \<and> a < 2 ^ max_prefixlen v \<and> 2 ^ host_bits v p dvd a"

lemma mk_net_simps [simp]:
  "n_version (mk_net v a p) = v" "ip_of (network_address (mk_net v a p)) = a" "prefixlen (mk_net v a p) = p"
  "netmask (mk_net v a p) = 2 ^ max_prefixlen v - 2 ^ host_bits v p"
  "network_address (mk_net v a p) = \<lparr>version = v, ip_of = a, scope_id = None\<rparr>"
  by (simp_all add: mk_net_def)

lemma mk_net_inject [simp]: "mk_net v a p = mk_net w b q \<longleftrightarrow> v = w \<and> a = b \<and> p = q"
  by (auto simp: mk_net_def)

lemma mk_net_wf: "block v a p \<Longrightarrow> wf_net (mk_net v a p) \<and> unscoped (mk_net v a p)"
  by (simp add: block_def wf_net_def unscoped_def wf_addr_def ip_int_from_prefix_val and_upper_mask)

lemma wf_net_block: "wf_net n \<Longrightarrow> block (n_version n) (lo n) (prefixlen n)"
  by (auto simp: wf_net_def block_def wf_addr_def ip_int_from_prefix_val and_upper_mask aligned_iff)

lemma wf_net_mk: "wf_net n \<Longrightarrow> unscoped n \<Longrightarrow> n = mk_net (n_version n) (lo n) (prefixlen n)"
  by (auto simp: wf_net_def unscoped_def mk_net_def ip_int_from_prefix_val intro!: network.equality ip_addr.equality)

lemma wf_net_cases:
  assumes "wf_net n" and "unscoped n"
  obtains v a p where "n = mk_net v a p" and "block v a p"
  using wf_net_block[OF assms(1)] wf_net_mk[OF assms] by blast

lemma without_scope_mk: "wf_net n \<Longrightarrow> without_scope n = mk_net (n_version n) (lo n) (prefixlen n)"
  by (simp add: wf_net_def without_scope_def mk_net_def ip_int_from_prefix_val)

lemma without_scope_id: "unscoped n \<Longrightarrow> without_scope n = n"
  by (simp add: unscoped_def without_scope_def)

text \<open>A network with the scope of a link.\<close>

definition with_scope :: "string \<Rightarrow> network \<Rightarrow> network" where
  "with_scope s n = n\<lparr>network_address := (network_address n)\<lparr>scope_id := Some s\<rparr>\<rparr>"

lemma with_scope_simps [simp]:
  "n_version (with_scope s n) = n_version n" "lo (with_scope s n) = lo n" "prefixlen (with_scope s n) = prefixlen n"
  "netmask (with_scope s n) = netmask n" "scope_id (network_address (with_scope s n)) = Some s"
  by (simp_all add: with_scope_def)

lemma with_scope_wf:
  "wf_net n \<Longrightarrow> n_version n = V6 \<Longrightarrow> s \<noteq> [] \<Longrightarrow> CHR ''%'' \<notin> set s \<Longrightarrow> CHR ''/'' \<notin> set s \<Longrightarrow> wf_net (with_scope s n)"
  by (auto simp: with_scope_def wf_net_def wf_addr_def)

lemma wf_net_hostmask: "wf_net n \<Longrightarrow> hostmask n = 2 ^ host_bits (n_version n) (prefixlen n) - 1"
  by (simp add: wf_net_def hostmask_def ip_int_from_prefix_val ALL_ONES_def mask_xor_ones)

lemma wf_net_broadcast:
  assumes "wf_net n"
  shows "broadcast_address n = lo n + 2 ^ host_bits (n_version n) (prefixlen n) - 1"
  using wf_net_hostmask[OF assms] or_ones[of _ "lo n"] wf_net_block[OF assms]
  by (simp add: broadcast_address_def block_def)

lemma wf_net_addrs: "wf_net n \<Longrightarrow> addrs n = {lo n..<lo n + 2 ^ host_bits (n_version n) (prefixlen n)}"
  by (auto simp: addrs_def wf_net_broadcast)

lemma mk_net_broadcast: "block v a p \<Longrightarrow> broadcast_address (mk_net v a p) = a + 2 ^ host_bits v p - 1"
  using wf_net_broadcast[of "mk_net v a p"] mk_net_wf[of v a p] by simp

lemma mk_net_hostmask: "block v a p \<Longrightarrow> hostmask (mk_net v a p) = 2 ^ host_bits v p - 1"
  using wf_net_hostmask[of "mk_net v a p"] mk_net_wf[of v a p] by simp

lemma mk_net_addrs: "block v a p \<Longrightarrow> addrs (mk_net v a p) = {a..<a + 2 ^ host_bits v p}"
  by (auto simp: addrs_def mk_net_broadcast)

lemma block_end:
  assumes "block v a p"
  shows "a + 2 ^ host_bits v p \<le> 2 ^ max_prefixlen v"
  using assms by (intro aligned_gap) (auto simp: block_def le_imp_power_dvd)

lemma block_0: "block v a 0 \<Longrightarrow> a = 0"
  using zdvd_imp_le[of "2 ^ max_prefixlen v" a] by (force simp: block_def)

lemma new_network_int:
  assumes "p \<le> max_prefixlen v" and "0 \<le> a" and "a < 2 ^ max_prefixlen v"
  shows "new_network v True (NTuple (AInt a) (Some (MInt (int p)))) =
    (if 2 ^ host_bits v p dvd a then Inr (mk_net v a p) else Inl ValueError)"
proof -
  let ?m = "2 ^ max_prefixlen v - 2 ^ host_bits v p :: int"
  have "0 \<le> ?m" "?m < 2 ^ max_prefixlen v" by (simp_all add: power_increasing)
  then have "make_netmask v (MInt (int p)) = Inr (?m, p)"
    using assms(1) address_class_int[of ?m v] by (simp add: make_netmask_def ip_int_from_prefix_val)
  moreover have "a AND ?m = a \<longleftrightarrow> 2 ^ host_bits v p dvd a"
    using assms by (simp add: and_upper_mask aligned_iff)
  ultimately show ?thesis
    using assms address_class_int[of a v]
    by (simp add: new_network_def split_addr_prefix_def mk_net_def)
qed

lemma new_network_block:
  "block v a p \<Longrightarrow> new_network v True (NTuple (AInt a) (Some (MInt (int p)))) = Inr (mk_net v a p)"
  by (simp add: block_def new_network_int)

lemma net_ends:
  assumes "wf_net n"
  shows "0 \<le> lo n \<and> lo n < 2 ^ max_prefixlen (n_version n)"
    and "0 \<le> broadcast_address n \<and> broadcast_address n < 2 ^ max_prefixlen (n_version n)"
    and "lo n \<le> broadcast_address n"
proof -
  have b: "block (n_version n) (lo n) (prefixlen n)" by (rule wf_net_block[OF assms])
  have k: "(1 :: int) \<le> 2 ^ host_bits (n_version n) (prefixlen n)" by simp
  show "0 \<le> lo n \<and> lo n < 2 ^ max_prefixlen (n_version n)" using b by (simp add: block_def)
  then show "lo n \<le> broadcast_address n" and "0 \<le> broadcast_address n \<and> broadcast_address n < 2 ^ max_prefixlen (n_version n)"
    using block_end[OF b] k unfolding wf_net_broadcast[OF assms] by linarith+
qed

text \<open>Prefix blocks are nested or disjoint.\<close>

lemma block_inside:
  assumes "block v a p" and "block v b q" and "q \<le> p" and "b \<le> a" and "a < b + 2 ^ host_bits v q"
  shows "a + 2 ^ host_bits v p \<le> b + 2 ^ host_bits v q"
proof (rule aligned_gap)
  have "(2 :: int) ^ host_bits v p dvd 2 ^ host_bits v q" using assms(3) by (intro le_imp_power_dvd) simp
  then show "2 ^ host_bits v p dvd b + 2 ^ host_bits v q" using assms(2) by (auto simp: block_def intro: dvd_trans)
qed (use assms in \<open>auto simp: block_def\<close>)

lemma contains_interval:
  assumes "wf_net n" and "0 \<le> a" and "a < 2 ^ max_prefixlen (n_version n)"
  shows "contains n v a \<longleftrightarrow> v = n_version n \<and> a \<in> addrs n"
proof -
  let ?k = "host_bits (n_version n) (prefixlen n)"
  have b: "2 ^ ?k dvd lo n" using wf_net_block[OF assms(1)] by (simp add: block_def)
  have "a AND netmask n = a div 2 ^ ?k * 2 ^ ?k"
    using assms by (simp add: wf_net_def ip_int_from_prefix_val and_upper_mask)
  moreover have "a div 2 ^ ?k * 2 ^ ?k = lo n \<longleftrightarrow> lo n \<le> a \<and> a < lo n + 2 ^ ?k"
  proof
    assume "a div 2 ^ ?k * 2 ^ ?k = lo n"
    moreover have "0 \<le> a mod 2 ^ ?k" "a mod 2 ^ ?k < 2 ^ ?k" by simp_all
    ultimately show "lo n \<le> a \<and> a < lo n + 2 ^ ?k"
      using div_mult_mod_eq[of a "2 ^ ?k"] by (intro conjI) linarith+
  next
    assume i: "lo n \<le> a \<and> a < lo n + 2 ^ ?k"
    have "a = lo n div 2 ^ ?k * 2 ^ ?k + (a - lo n)" using b by simp
    then have "a div 2 ^ ?k = lo n div 2 ^ ?k" using i by (intro div_mod_eqI(1)[where r = "a - lo n"]) auto
    then show "a div 2 ^ ?k * 2 ^ ?k = lo n" using b by simp
  qed
  ultimately show ?thesis by (auto simp: contains_def addrs_def wf_net_broadcast[OF assms(1)])
qed

section \<open>Subnets and supernets\<close>

lemma py_range_exact: "0 < s \<Longrightarrow> py_range a (a + int n * s) s = map (\<lambda>i. a + int i * s) [0..<n]"
  by (simp add: py_range_def ceil_div_def flip: mult_minus_left)

lemma host_bits_split: "p + d \<le> max_prefixlen v \<Longrightarrow> host_bits v p = d + host_bits v (p + d)"
  by simp

lemma block_sub:
  assumes "block v a p" and "p + d \<le> max_prefixlen v" and "i < 2 ^ d"
  shows "block v (a + int i * 2 ^ host_bits v (p + d)) (p + d)"
proof -
  let ?k = "host_bits v (p + d)"
  have hb: "host_bits v p = d + ?k" using assms(2) by simp
  have "int i + 1 \<le> 2 ^ d" using assms(3) by (metis Suc_leI of_nat_Suc of_nat_le_iff of_nat_numeral of_nat_power add.commute)
  then have "(int i + 1) * 2 ^ ?k \<le> 2 ^ d * 2 ^ ?k" by (intro mult_right_mono) auto
  then have "int i * 2 ^ ?k + 2 ^ ?k \<le> 2 ^ host_bits v p" unfolding hb power_add by (simp add: algebra_simps)
  moreover have "(0 :: int) < 2 ^ ?k" by simp
  ultimately have "a + int i * 2 ^ ?k < 2 ^ max_prefixlen v" using block_end[OF assms(1)] by linarith
  moreover have "2 ^ ?k dvd a"
    using assms(1) hb by (metis block_def dvd_mult_right dvd_trans dvd_triv_right power_add)
  ultimately show ?thesis
    using assms(1,2) unfolding block_def by simp
qed

definition nth_subnet :: "ipver \<Rightarrow> int \<Rightarrow> nat \<Rightarrow> nat \<Rightarrow> network" where
  "nth_subnet v a q i = mk_net v (a + int i * 2 ^ host_bits v q) q"

lemma subnets_eq:
  assumes b: "block v a p" and "p < max_prefixlen v" and d: "p + d \<le> max_prefixlen v"
  shows "subnets (mk_net v a p) (int d) None = Inr (map (nth_subnet v a (p + d)) [0..<2 ^ d])"
proof -
  let ?k = "host_bits v (p + d)"
  have hb: "host_bits v p = d + ?k" using d by simp
  have "drop_bit d (hostmask (mk_net v a p) + 1) = 2 ^ ?k"
    unfolding mk_net_hostmask[OF b] hb by (simp add: drop_bit_arith power_add)
  moreover have "broadcast_address (mk_net v a p) + 1 = a + int (2 ^ d) * 2 ^ ?k"
    unfolding mk_net_broadcast[OF b] hb by (simp add: power_add)
  ultimately have r: "py_range a (broadcast_address (mk_net v a p) + 1) (drop_bit d (hostmask (mk_net v a p) + 1)) =
      map (\<lambda>i. a + int i * 2 ^ ?k) [0..<2 ^ d]"
    by (simp only: py_range_exact zero_less_power zero_less_numeral)
  have "new_network v True (NTuple (AInt (a + int i * 2 ^ ?k)) (Some (MInt (int (p + d))))) =
      Inr (nth_subnet v a (p + d) i)" if "i < 2 ^ d" for i
    unfolding nth_subnet_def by (rule new_network_block[OF block_sub[OF b d that]])
  then have "mapE (\<lambda>x. new_network v True (NTuple (AInt x) (Some (MInt (int (p + d)))))) (map (\<lambda>i. a + int i * 2 ^ ?k) [0..<2 ^ d]) =
      Inr (map (nth_subnet v a (p + d)) [0..<2 ^ d])"
    unfolding mapE_map by (intro mapE_Inr_iff_map) auto
  with r assms(2) d show ?thesis by (simp add: subnets_def)
qed

lemma subnets_without_scope:
  assumes "prefixlen n < max_prefixlen (n_version n)"
  shows "subnets n d None = subnets (without_scope n) d None"
  using assms by (simp add: subnets_def without_scope_def broadcast_address_def hostmask_def Let_def)

lemma halves_eq:
  assumes "block v a p" and "p < max_prefixlen v"
  shows "halves (mk_net v a p) = Inr (mk_net v a (Suc p), mk_net v (a + 2 ^ host_bits v (Suc p)) (Suc p))"
  using subnets_eq[OF assms, of 1] assms(2) by (simp add: halves_def nth_subnet_def numeral_2_eq_2)

lemma block_super:
  assumes "block v a p" and "q \<le> p"
  shows "block v (a div 2 ^ host_bits v q * 2 ^ host_bits v q) q"
proof -
  have "a div 2 ^ host_bits v q * 2 ^ host_bits v q \<le> a" by (intro div_mult_le_self) simp
  then show ?thesis using assms by (auto simp: block_def pos_imp_zdiv_nonneg_iff)
qed

lemma supernet_eq:
  assumes b: "block v a p" and "0 < p" and "d \<le> p"
  shows "supernet (mk_net v a p) (int d) None =
    Inr (mk_net v (a div 2 ^ host_bits v (p - d) * 2 ^ host_bits v (p - d)) (p - d))"
proof -
  let ?m = "max_prefixlen v"
  have p: "p \<le> ?m" and a: "0 \<le> a" "a < 2 ^ ?m" using b by (auto simp: block_def)
  have hb: "host_bits v p + d = host_bits v (p - d)" using assms(3) p by simp
  have "push_bit d (2 ^ ?m - 2 ^ host_bits v p :: int) = 2 ^ (?m + d) - 2 ^ host_bits v (p - d)"
    unfolding hb[symmetric] by (simp add: push_bit_arith power_add algebra_simps)
  moreover have "a < 2 ^ (?m + d)" using a by (metis less_le_trans le_add1 power_increasing one_le_numeral)
  ultimately have "a AND push_bit d (2 ^ ?m - 2 ^ host_bits v p) = a div 2 ^ host_bits v (p - d) * 2 ^ host_bits v (p - d)"
    using a p by (simp add: and_upper_mask)
  moreover have "int p - int d = int (p - d)" using assms(3) by simp
  ultimately show ?thesis
    using assms(2,3) new_network_block[OF block_super[OF b, of "p - d"]] by (simp add: supernet_def)
qed

section \<open>Network text\<close>

lemma prefix_string: "p \<le> max_prefixlen v \<Longrightarrow> prefix_from_prefix_string v (show_base 10 p) = Inr p"
  using show_base_decimal[of p] by (simp add: prefix_from_prefix_string_def py_int_def parse_show_base)

lemma make_netmask_string:
  assumes "p \<le> max_prefixlen v"
  shows "make_netmask v (MStr (show_base 10 p)) = Inr (ip_int_from_prefix v p, p)"
proof -
  have "0 \<le> ip_int_from_prefix v p" "ip_int_from_prefix v p < 2 ^ max_prefixlen v"
    using assms by (simp_all add: ip_int_from_prefix_val power_increasing)
  then show ?thesis
    using address_class_int[of "ip_int_from_prefix v p" v] prefix_string[OF assms]
    by (cases v) (simp_all add: make_netmask_def)
qed

lemma net_str_reads_back:
  assumes "wf_net n"
  obtains s where "net_str n = Inr s" and "new_network (n_version n) True (NAddr (AStr s)) = Inr n"
proof -
  let ?a = "network_address n" and ?v = "n_version n" and ?p = "prefixlen n"
  from assms have v: "version ?a = ?v" and p: "?p \<le> max_prefixlen ?v"
    and nm: "netmask n = ip_int_from_prefix ?v ?p" and al: "lo n AND netmask n = lo n"
    by (auto simp: wf_net_def)
  obtain t where t: "str_addr ?a = Inr t" "address_class ?v (AStr t) = Inr ?a"
    using str_addr_reads_back[of ?a] assms v by (auto simp: wf_net_def)
  have sl: "CHR ''/'' \<notin> set t" using address_class_no_slash[OF t(2)] .
  have "py_split CHR ''/'' (t @ ''/'' @ show_base 10 ?p) = [t, show_base 10 ?p]"
    using sl by (simp add: py_split_append_sep py_split_no_sep)
  then have "split_addr_prefix ?v (NAddr (AStr (t @ ''/'' @ show_base 10 ?p))) = Inr (AStr t, MStr (show_base 10 ?p))"
    by (simp add: split_addr_prefix_def split_optional_netmask_def)
  then have "new_network ?v True (NAddr (AStr (t @ ''/'' @ show_base 10 ?p))) = Inr n"
    using t(2) make_netmask_string[OF p] al nm by (simp add: new_network_def)
  with t(1) that show ?thesis by (simp add: net_str_def)
qed

section \<open>Exclusion\<close>

text \<open>A list of networks tiles a set of addresses if they are disjoint and cover it.\<close>

definition covered :: "network list \<Rightarrow> int set" where
  "covered ns = (\<Union>n\<in>set ns. addrs n)"

definition tiles :: "network list \<Rightarrow> int set \<Rightarrow> bool" where
  "tiles ns A \<longleftrightarrow> covered ns = A \<and> sorted_wrt (\<lambda>m n. addrs m \<inter> addrs n = {}) ns"

lemma tiles_insert:
  assumes "tiles (m # ns) A" and "addrs n \<inter> A = {}" and "B = A \<union> addrs n"
  shows "tiles (m # n # ns) B"
proof -
  have A: "A = addrs m \<union> (\<Union>k\<in>set ns. addrs k)" using assms(1) by (simp add: tiles_def covered_def)
  have "addrs m \<inter> addrs n = {}" and "\<forall>k\<in>set ns. addrs n \<inter> addrs k = {}" using assms(2) unfolding A by blast+
  moreover have "B = addrs m \<union> (addrs n \<union> (\<Union>k\<in>set ns. addrs k))" unfolding assms(3) A by blast
  ultimately show ?thesis using assms(1) by (simp add: tiles_def covered_def)
qed

lemma mk_net_eq_iff:
  assumes "p \<le> max_prefixlen v" and "q \<le> max_prefixlen v"
  shows "net_eq (mk_net v a p) (mk_net v b q) \<longleftrightarrow> a = b \<and> p = q"
  using assms by (auto simp: net_eq_def addr_eq_def dest!: power_inject_exp[THEN iffD1, rotated])

lemma mk_net_subnet_of:
  assumes "block v a p" and "block v b q"
  shows "is_subnet_of (mk_net v b q) (mk_net v a p) = Inr (a \<le> b \<and> b + 2 ^ host_bits v q \<le> a + 2 ^ host_bits v p)"
proof -
  define x y :: int where "x = 2 ^ host_bits v p" and "y = 2 ^ host_bits v q"
  have "broadcast_address (mk_net v a p) = a + x - 1" "broadcast_address (mk_net v b q) = b + y - 1"
    using assms by (simp_all add: mk_net_broadcast x_def y_def)
  then show ?thesis unfolding x_def[symmetric] y_def[symmetric]
    by (auto simp: is_subnet_of_def addr_le_def addr_lt_def addr_eq_def)
qed

lemma host_bits_Suc: "p < max_prefixlen v \<Longrightarrow> (2 :: int) ^ host_bits v p = 2 * 2 ^ host_bits v (Suc p)"
  by (simp add: power_Suc[symmetric] Suc_diff_Suc del: power_Suc)

lemma block_halves:
  assumes "block v a p" and "p < max_prefixlen v"
  shows "block v a (Suc p)" and "block v (a + 2 ^ host_bits v (Suc p)) (Suc p)"
  using block_sub[OF assms(1), of 1 0] block_sub[OF assms(1), of 1 1] assms(2) by simp_all

lemma half_of:
  assumes b: "block v a p" and bq: "block v b q" and "p < q" and "a \<le> b" and "b < a + 2 ^ host_bits v p"
  shows "b + 2 ^ host_bits v q \<le> a + 2 ^ host_bits v (Suc p) \<or> a + 2 ^ host_bits v (Suc p) \<le> b"
proof (cases "b < a + 2 ^ host_bits v (Suc p)")
  case True
  have "p < max_prefixlen v" using assms(2,3) by (simp add: block_def)
  then show ?thesis
    using block_inside[OF bq block_halves(1)[OF b]] True assms(3,4) by simp
qed simp

lemma exclude_loop_ok:
  assumes "block v a p" and "block v b q" and "p < q" and "a \<le> b" and "b < a + 2 ^ host_bits v p"
    and "q - p \<le> fuel"
  shows "\<exists>ns. exclude_loop fuel (mk_net v b q) (mk_net v a (Suc p)) (mk_net v (a + 2 ^ host_bits v (Suc p)) (Suc p)) acc
      = Inr (acc @ ns) \<and> list_all wf_net ns \<and> list_all unscoped ns \<and>
      tiles (mk_net v b q # ns) {a..<a + 2 ^ host_bits v p}"
  using assms
proof (induction fuel arbitrary: a p acc)
  case 0
  then show ?case by simp
next
  case (Suc fuel)
  let ?h = "2 ^ host_bits v (Suc p) :: int" and ?o = "mk_net v b q"
  let ?s1 = "mk_net v a (Suc p)" and ?s2 = "mk_net v (a + ?h) (Suc p)"
  have q: "q \<le> max_prefixlen v" and pm: "p < max_prefixlen v" using Suc.prems by (auto simp: block_def)
  note bh = block_halves[OF Suc.prems(1) pm]
  have hb: "2 ^ host_bits v p = ?h + ?h" using host_bits_Suc[OF pm] by simp
  have hp: "0 < ?h" by simp
  note wf1 = mk_net_wf[OF bh(1)] and wf2 = mk_net_wf[OF bh(2)]
  note A = mk_net_addrs[OF bh(1)] mk_net_addrs[OF bh(2)] mk_net_addrs[OF Suc.prems(2)]
  have eq1: "net_eq ?s1 ?o \<longleftrightarrow> a = b \<and> Suc p = q" and eq2: "net_eq ?s2 ?o \<longleftrightarrow> a + ?h = b \<and> Suc p = q"
    using q pm by (auto simp: mk_net_eq_iff)
  show ?case
  proof (cases "net_eq ?s1 ?o \<or> net_eq ?s2 ?o")
    case True
    then show ?thesis
      using wf1 wf2 hp A hb eq1 eq2 by (auto simp: tiles_def covered_def)
  next
    case False
    have qp: "Suc p < q"
    proof (rule ccontr)
      assume "\<not> Suc p < q"
      with Suc.prems(3) have sp: "Suc p = q" by simp
      from half_of[OF Suc.prems(1-5)] sp Suc.prems(4,5) hb hp False eq1 eq2 have "a < b \<and> b < a + ?h \<or> a + ?h < b \<and> b < a + ?h + ?h"
        by auto
      moreover have "?h dvd b" "?h dvd a" using Suc.prems(2) bh(1) sp by (auto simp: block_def)
      ultimately show False using aligned_gap[of ?h a b] aligned_gap[of ?h "a + ?h" b] by auto
    qed
    have fl: "q - Suc p \<le> fuel" using Suc.prems(6) by simp
    show ?thesis
    proof (cases "b < a + ?h")
      case True
      have "b + 2 ^ host_bits v q \<le> a + ?h" using half_of[OF Suc.prems(1-5)] True by simp
      then have sub: "is_subnet_of ?o ?s1 = Inr True"
        using Suc.prems(4) by (simp add: mk_net_subnet_of[OF bh(1) Suc.prems(2)])
      obtain ns where ns: "exclude_loop fuel ?o (mk_net v a (Suc (Suc p))) (mk_net v (a + 2 ^ host_bits v (Suc (Suc p))) (Suc (Suc p))) (acc @ [?s2])
          = Inr ((acc @ [?s2]) @ ns)" "list_all wf_net ns" "list_all unscoped ns"
        and t: "tiles (?o # ns) {a..<a + ?h}"
        using Suc.IH[OF bh(1) Suc.prems(2) qp Suc.prems(4) True fl] by blast
      have "tiles (?o # ?s2 # ns) {a..<a + 2 ^ host_bits v p}"
        using hp unfolding hb by (intro tiles_insert[OF t]) (auto simp: A)
      then show ?thesis
        using False sub ns wf2 halves_eq[OF bh(1)] qp q by (auto intro!: exI[of _ "?s2 # ns"])
    next
      case ge: False
      have ge1: "a + ?h \<le> b" and lt2: "b < a + ?h + ?h" using ge Suc.prems(5) hb by simp_all
      have nsub: "is_subnet_of ?o ?s1 = Inr False"
      proof -
        have "\<not> b + 2 ^ host_bits v q \<le> a + ?h" using ge1 zero_less_power[of "2 :: int" "host_bits v q"] by linarith
        then show ?thesis by (simp add: mk_net_subnet_of[OF bh(1) Suc.prems(2)])
      qed
      have "b + 2 ^ host_bits v q \<le> (a + ?h) + ?h"
        using block_inside[OF Suc.prems(2) bh(2)] ge Suc.prems(3,5) hb by simp
      then have sub: "is_subnet_of ?o ?s2 = Inr True"
        using ge by (simp add: mk_net_subnet_of[OF bh(2) Suc.prems(2)])
      obtain ns where ns: "exclude_loop fuel ?o (mk_net v (a + ?h) (Suc (Suc p))) (mk_net v (a + ?h + 2 ^ host_bits v (Suc (Suc p))) (Suc (Suc p))) (acc @ [?s1])
          = Inr ((acc @ [?s1]) @ ns)" "list_all wf_net ns" "list_all unscoped ns"
        and t: "tiles (?o # ns) {a + ?h..<a + ?h + ?h}"
        using Suc.IH[OF bh(2) Suc.prems(2) qp ge1 lt2 fl] by blast
      have "tiles (?o # ?s1 # ns) {a..<a + 2 ^ host_bits v p}"
        using hp unfolding hb by (intro tiles_insert[OF t]) (auto simp: A)
      then show ?thesis
        using False nsub sub ns wf1 halves_eq[OF bh(2)] qp q by (auto intro!: exI[of _ "?s1 # ns"])
    qed
  qed
qed

lemma wf_addr_V4: "wf_addr a \<Longrightarrow> version a = V4 \<Longrightarrow> scope_id a = None"
  by (simp add: wf_addr_def split: option.splits)

lemma wf_addr_eq_iff: "wf_addr a \<Longrightarrow> wf_addr b \<Longrightarrow> addr_eq a b \<longleftrightarrow> a = b"
  using wf_addr_V4[of a] wf_addr_V4[of b] by (cases "version a") (auto simp: addr_eq_def intro: ip_addr.equality)

lemma net_eq_iff:
  assumes "wf_net m" and "wf_net n"
  shows "net_eq m n \<longleftrightarrow> m = n"
proof
  assume e: "net_eq m n"
  let ?v = "n_version m"
  have v: "?v = n_version n" and a: "network_address m = network_address n" and nm: "netmask m = netmask n"
    using e assms wf_addr_eq_iff by (auto simp: net_eq_def wf_net_def)
  have "prefixlen m \<le> max_prefixlen ?v" "prefixlen n \<le> max_prefixlen ?v"
    and "ip_int_from_prefix ?v (prefixlen m) = ip_int_from_prefix ?v (prefixlen n)"
    using assms v nm by (simp_all add: wf_net_def)
  then have "prefixlen m = prefixlen n" by (simp add: ip_int_from_prefix_val)
  then show "m = n" using v a nm by simp
qed (simp add: net_eq_def addr_eq_def)

lemma is_subnet_of_scoped:
  assumes "wf_net n" and "wf_net m" and "n_version m = n_version n"
  shows "is_subnet_of m n = Inr ((lo n < lo m \<or> lo n = lo m \<and> scope_id (network_address n) = scope_id (network_address m)) \<and>
    broadcast_address m \<le> broadcast_address n)"
proof -
  have "wf_addr (network_address n)" "wf_addr (network_address m)"
    and "version (network_address n) = n_version n" "version (network_address m) = n_version n"
    using assms by (simp_all add: wf_net_def)
  then show ?thesis
    using assms(3) wf_addr_eq_iff[of "network_address n" "network_address m"]
    by (auto simp: is_subnet_of_def addr_le_def addr_lt_def)
qed

text \<open>The halves of a network carry no scope: the search for a scoped network comes to a half that
  begins where it does, and takes neither half.\<close>

lemma exclude_loop_scoped:
  assumes "wf_net m" and "n_version m = v" and "\<not> unscoped m"
    and "block v a p" and "p < prefixlen m" and "a \<le> lo m" and "lo m < a + 2 ^ host_bits v p"
    and "prefixlen m - p \<le> fuel"
  shows "exclude_loop fuel m (mk_net v a (Suc p)) (mk_net v (a + 2 ^ host_bits v (Suc p)) (Suc p)) acc
      = Inl (AssertionError ''Error performing exclusion'')"
  using assms(4-)
proof (induction fuel arbitrary: a p acc)
  case 0
  then show ?case by simp
next
  case (Suc fuel)
  let ?h = "2 ^ host_bits v (Suc p) :: int" and ?e = "Inl (AssertionError ''Error performing exclusion'')"
  let ?s1 = "mk_net v a (Suc p)" and ?s2 = "mk_net v (a + ?h) (Suc p)"
  have bm: "block v (lo m) (prefixlen m)" using wf_net_block[OF assms(1)] assms(2) by simp
  have pm: "p < max_prefixlen v" using Suc.prems(2) bm by (simp add: block_def)
  note bh = block_halves[OF Suc.prems(1) pm]
  have hb: "2 ^ host_bits v p = ?h + ?h" using host_bits_Suc[OF pm] by simp
  have v6: "v = V6" using assms(1-3) by (auto simp: wf_net_def wf_addr_def unscoped_def split: option.splits)
  have ne: "\<not> net_eq (mk_net v c (Suc p)) m" for c
    using assms(3) v6 by (auto simp: net_eq_def addr_eq_def unscoped_def)
  have sub: "is_subnet_of m (mk_net v c (Suc p)) = Inr (c < lo m \<and> lo m < c + ?h)" if "block v c (Suc p)" for c
  proof -
    have "broadcast_address m = lo m + 2 ^ host_bits v (prefixlen m) - 1"
      using wf_net_broadcast[OF assms(1)] assms(2) by simp
    moreover have "lo m + 2 ^ host_bits v (prefixlen m) \<le> c + ?h \<longleftrightarrow> lo m < c + ?h" if "c < lo m"
    proof
      assume "lo m + 2 ^ host_bits v (prefixlen m) \<le> c + ?h"
      then show "lo m < c + ?h" using zero_less_power[of "2 :: int" "host_bits v (prefixlen m)"] by linarith
    next
      assume "lo m < c + ?h"
      then show "lo m + 2 ^ host_bits v (prefixlen m) \<le> c + ?h"
        using block_inside[OF bm \<open>block v c (Suc p)\<close>] Suc.prems(2) that by simp
    qed
    ultimately show ?thesis
      using is_subnet_of_scoped[OF _ assms(1), of "mk_net v c (Suc p)"] mk_net_wf[OF that] mk_net_broadcast[OF that] assms(2,3)
      by (auto simp: unscoped_def)
  qed
  have deeper: "Suc p < prefixlen m" if "block v c (Suc p)" "c < lo m" "lo m < c + ?h" for c
  proof (rule ccontr)
    assume "\<not> Suc p < prefixlen m"
    then have "prefixlen m = Suc p" using Suc.prems(2) by simp
    then show False using aligned_gap[of ?h c "lo m"] bm that by (auto simp: block_def)
  qed
  have fl: "prefixlen m - Suc p \<le> fuel" using Suc.prems(5) by simp
  have step: "bindE (halves (mk_net v c (Suc p))) (\<lambda>(t1, t2). exclude_loop fuel m t1 t2 acc') = ?e"
    if c: "block v c (Suc p)" "c < lo m" "lo m < c + ?h" for c acc'
  proof -
    have "Suc p < max_prefixlen v" using deeper[OF c] bm by (simp add: block_def)
    then show ?thesis
      using Suc.IH[OF c(1) deeper[OF c] _ c(3) fl, of acc'] c(2) halves_eq[OF c(1)] by simp
  qed
  show ?case
    using ne sub[OF bh(1)] sub[OF bh(2)] step[OF bh(1)] step[OF bh(2)] by (auto simp: exclude_loop.simps(2))
qed

declare exclude_loop.simps [simp del]

lemma exclude_halves:
  assumes "wf_net n" and "wf_net m" and "n_version m = n_version n"
    and "lo n \<le> lo m" and "broadcast_address m \<le> broadcast_address n" and "\<not> net_eq m n"
    and "lo n = lo m \<Longrightarrow> scope_id (network_address n) = scope_id (network_address m)"
  shows "prefixlen n < prefixlen m" and "lo m < lo n + 2 ^ host_bits (n_version n) (prefixlen n)"
    and "address_exclude n m = exclude_loop (Suc (max_prefixlen (n_version n))) m (mk_net (n_version n) (lo n) (Suc (prefixlen n)))
      (mk_net (n_version n) (lo n + 2 ^ host_bits (n_version n) (Suc (prefixlen n))) (Suc (prefixlen n))) []"
proof -
  let ?v = "n_version n" and ?p = "prefixlen n" and ?q = "prefixlen m"
  have b: "block ?v (lo n) ?p" and bm: "block ?v (lo m) ?q"
    using wf_net_block[OF assms(1)] wf_net_block[OF assms(2)] assms(3) by simp_all
  have pq: "?p \<le> max_prefixlen ?v" "?q \<le> max_prefixlen ?v" using b bm by (auto simp: block_def)
  define x y :: int where "x = 2 ^ host_bits ?v ?p" and "y = 2 ^ host_bits ?v ?q"
  have y: "0 < y" by (simp add: y_def)
  have inc: "lo m + y \<le> lo n + x"
    using assms(3,5) wf_net_broadcast[OF assms(1)] wf_net_broadcast[OF assms(2)] by (simp add: x_def y_def)
  show lt: "lo m < lo n + 2 ^ host_bits ?v ?p" using inc y unfolding x_def by linarith
  show p: "?p < ?q"
  proof (rule ccontr)
    assume "\<not> ?p < ?q"
    then have "x \<le> y" using pq by (auto simp: x_def y_def intro!: power_increasing)
    with inc assms(4) have lo: "lo n = lo m" and "x = y" by auto
    then have "?p = ?q" using pq by (simp add: x_def y_def)
    moreover have "version (network_address m) = version (network_address n)" using assms(1-3) by (simp add: wf_net_def)
    ultimately show False using lo assms(1-3,6,7) by (simp add: net_eq_def addr_eq_def wf_net_def)
  qed
  obtain s where s: "net_str m = Inr s" "new_network (n_version m) True (NAddr (AStr s)) = Inr m"
    by (rule net_str_reads_back[OF assms(2)])
  have "halves n = Inr (mk_net ?v (lo n) (Suc ?p), mk_net ?v (lo n + 2 ^ host_bits ?v (Suc ?p)) (Suc ?p))"
    using p pq halves_eq[OF b] subnets_without_scope[of n 1]
    by (simp add: halves_def without_scope_mk[OF assms(1)])
  moreover have "is_subnet_of m n = Inr True"
    using is_subnet_of_scoped[OF assms(1-3)] assms(4,5,7) by auto
  ultimately show "address_exclude n m = exclude_loop (Suc (max_prefixlen ?v)) m (mk_net ?v (lo n) (Suc ?p))
      (mk_net ?v (lo n + 2 ^ host_bits ?v (Suc ?p)) (Suc ?p)) []"
    using assms(3,6) s by (simp add: address_exclude_def)
qed

lemma address_exclude_inside:
  assumes "wf_net n" and "wf_net m" and "n_version m = n_version n" and "addrs m \<subseteq> addrs n"
    and scope: "lo n = lo m \<Longrightarrow> scope_id (network_address n) = scope_id (network_address m)" and "m \<noteq> n"
  shows "if unscoped m then \<exists>ns. address_exclude n m = Inr ns \<and> list_all wf_net ns \<and> list_all unscoped ns \<and> tiles (m # ns) (addrs n)
    else address_exclude n m = Inl (AssertionError ''Error performing exclusion'')"
proof -
  let ?v = "n_version n" and ?p = "prefixlen n"
  have inc: "lo n \<le> lo m" "broadcast_address m \<le> broadcast_address n"
    using assms(4) net_ends(3)[OF assms(2)] by (auto simp: addrs_def)
  have b: "block ?v (lo n) ?p" and bm: "block ?v (lo m) (prefixlen m)"
    using wf_net_block[OF assms(1)] wf_net_block[OF assms(2)] assms(3) by simp_all
  have ne: "\<not> net_eq m n" using net_eq_iff[OF assms(2,1)] assms(6) by simp
  note h = exclude_halves[OF assms(1-3) inc ne scope]
  have fuel: "prefixlen m - ?p \<le> Suc (max_prefixlen ?v)" using bm unfolding block_def by linarith
  show ?thesis
  proof (cases "unscoped m")
    case True
    then have m: "m = mk_net ?v (lo m) (prefixlen m)" using wf_net_mk[OF assms(2)] assms(3) by simp
    show ?thesis
      using exclude_loop_ok[OF b bm h(1) inc(1) h(2) fuel, of "[]"] True
      by (simp add: h(3) m[symmetric] wf_net_addrs[OF assms(1)])
  next
    case False
    then show ?thesis
      using exclude_loop_scoped[OF assms(2,3) False b h(1) inc(1) h(2) fuel, of "[]"] by (simp add: h(3))
  qed
qed

lemma address_exclude_other:
  assumes "wf_net n" and "wf_net m"
  shows "n_version m \<noteq> n_version n \<Longrightarrow> address_exclude n m = Inl TypeError"
    and "n_version m = n_version n \<Longrightarrow> \<not> addrs m \<subseteq> addrs n \<or> lo n = lo m \<and> scope_id (network_address n) \<noteq> scope_id (network_address m) \<Longrightarrow>
      address_exclude n m = Inl ValueError"
    and "address_exclude n n = Inr []"
proof -
  show "n_version m \<noteq> n_version n \<Longrightarrow> address_exclude n m = Inl TypeError" by (simp add: address_exclude_def)
  show "address_exclude n n = Inr []"
    using is_subnet_of_scoped[OF assms(1,1)] net_eq_iff[OF assms(1,1)] by (simp add: address_exclude_def)
next
  assume v: "n_version m = n_version n"
    and "\<not> addrs m \<subseteq> addrs n \<or> lo n = lo m \<and> scope_id (network_address n) \<noteq> scope_id (network_address m)"
  then have "is_subnet_of m n = Inr False"
    using is_subnet_of_scoped[OF assms v] by (auto simp: addrs_def)
  then show "address_exclude n m = Inl ValueError" using v by (simp add: address_exclude_def)
qed

section \<open>Ranges as chains of networks\<close>

lemma bit_length_mask: "bit_length (2 ^ k - 1) = k"
proof (cases k)
  case 0
  then show ?thesis by (simp add: bit_length_def bit_length_nat.simps)
next
  case (Suc j)
  have "(1 :: int) \<le> 2 ^ j" by simp
  then have pos: "0 < (2 ^ k - 1 :: int)" and jk: "(2 :: int) ^ j \<le> 2 ^ k - 1" unfolding Suc power_Suc by linarith+
  have "bit_length (2 ^ k - 1) \<le> k" by (rule bit_length_le) (use pos in auto)
  moreover have "(2 :: int) ^ j < 2 ^ bit_length (2 ^ k - 1)"
  proof -
    have "(2 :: int) ^ j \<le> 2 ^ k - 1" by (rule jk)
    also have "\<dots> < 2 ^ bit_length (2 ^ k - 1)" by (rule bit_length_bounds(1)[OF pos])
    finally show ?thesis .
  qed
  then have "j < bit_length (2 ^ k - 1)" by (simp add: power_strict_increasing_iff)
  ultimately show ?thesis using Suc by simp
qed

lemma low_zeros:
  fixes u :: int
  shows "NOT ((2 * u + 1) * 2 ^ t) AND ((2 * u + 1) * 2 ^ t - 1) = 2 ^ t - 1"
proof -
  have n: "(2 * u + 1) * 2 ^ t = push_bit (Suc t) u OR 2 ^ t"
    by (subst push_or_arith) (auto simp: algebra_simps)
  have n1: "(2 * u + 1) * 2 ^ t - 1 = push_bit (Suc t) u OR mask t"
  proof -
    have t: "(1 :: int) \<le> 2 ^ t" by simp
    then have "0 \<le> (mask t :: int)" "(mask t :: int) < 2 ^ Suc t"
      unfolding mask_eq_exp_minus_1 power_Suc by linarith+
    from push_or_arith[OF this, of u] show ?thesis by (simp add: algebra_simps mask_eq_exp_minus_1)
  qed
  have "NOT (push_bit (Suc t) u OR 2 ^ t) AND (push_bit (Suc t) u OR mask t) = mask t"
    by (rule bit_eqI) (auto simp: bit_and_iff bit_or_iff bit_not_iff bit_push_bit_iff bit_mask_iff bit_exp_iff Suc_le_eq)
  then show ?thesis unfolding n n1[unfolded n] by (simp add: mask_eq_exp_minus_1)
qed

lemma odd_part:
  fixes n :: int
  assumes "n \<noteq> 0"
  obtains t u where "n = (2 * u + 1) * 2 ^ t"
proof -
  have "\<exists>t u. n = (2 * u + 1) * 2 ^ t"
    using assms
  proof (induction "nat \<bar>n\<bar>" arbitrary: n rule: less_induct)
    case less
    show ?case
    proof (cases "even n")
      case True
      then obtain k where k: "n = 2 * k" by blast
      with less.prems less.hyps[of k] obtain t u where "k = (2 * u + 1) * 2 ^ t" by fastforce
      with k have "n = (2 * u + 1) * 2 ^ Suc t" by simp
      then show ?thesis by blast
    next
      case False
      then obtain k where "n = 2 * k + 1" by (metis oddE)
      then have "n = (2 * k + 1) * 2 ^ 0" by simp
      then show ?thesis by blast
    qed
  qed
  with that show ?thesis by blast
qed

lemma count_righthand_zero_bits_odd:
  "count_righthand_zero_bits ((2 * u + 1) * 2 ^ t) bits = min bits t"
proof -
  have "2 * u + 1 \<noteq> (0 :: int)" by presburger
  then have "(2 * u + 1) * 2 ^ t \<noteq> (0 :: int)" by simp
  then show ?thesis unfolding count_righthand_zero_bits_def low_zeros bit_length_mask by simp
qed

lemma count_righthand_zero_bits_dvd: "2 ^ count_righthand_zero_bits n bits dvd n"
proof (cases "n = 0")
  case False
  then obtain t u where n: "n = (2 * u + 1) * 2 ^ t" by (rule odd_part)
  have "(2 :: int) ^ min bits t dvd 2 ^ t" by (intro le_imp_power_dvd) simp
  then show ?thesis unfolding n count_righthand_zero_bits_odd by (rule dvd_mult)
qed simp

lemma count_righthand_zero_bits_le: "count_righthand_zero_bits n bits \<le> bits"
  by (simp add: count_righthand_zero_bits_def)

fun chain :: "int \<Rightarrow> network list \<Rightarrow> int \<Rightarrow> bool" where
  "chain a [] b \<longleftrightarrow> a = b"
| "chain a (n # ns) b \<longleftrightarrow> lo n = a \<and> lo n \<le> broadcast_address n \<and> chain (broadcast_address n + 1) ns b"

definition good_net :: "ipver \<Rightarrow> network \<Rightarrow> bool" where
  "good_net v n \<longleftrightarrow> wf_net n \<and> unscoped n \<and> n_version n = v"

lemma chain_le: "chain a ns b \<Longrightarrow> a \<le> b"
  by (induction ns arbitrary: a) fastforce+

lemma chain_covered: "chain a ns b \<Longrightarrow> covered ns = {a..<b}"
proof (induction ns arbitrary: a)
  case (Cons n ns)
  then have "covered ns = {broadcast_address n + 1..<b}" and "broadcast_address n + 1 \<le> b"
    using chain_le by auto
  with Cons.prems show ?case by (auto simp: covered_def addrs_def)
qed (simp add: covered_def)

lemma chain_tiles: "chain a ns b \<Longrightarrow> tiles ns {a..<b}"
proof (induction ns arbitrary: a)
  case (Cons n ns)
  then have t: "tiles ns {broadcast_address n + 1..<b}" by simp
  then have c: "covered ns = {broadcast_address n + 1..<b}" by (simp add: tiles_def)
  have "addrs n \<inter> addrs k = {}" if "k \<in> set ns" for k
  proof -
    have "addrs k \<subseteq> covered ns" using that by (auto simp: covered_def)
    then show ?thesis unfolding c by (auto simp: addrs_def)
  qed
  then show ?case using t chain_covered[OF Cons.prems] by (simp add: tiles_def)
qed (simp add: tiles_def covered_def)

lemma summarize_loop_ok:
  assumes "0 \<le> f" and "f \<le> l + 1" and "l < 2 ^ max_prefixlen v"
  shows "\<exists>ns. summarize_loop v f l = Inr ns \<and> list_all (good_net v) ns \<and> chain f ns (l + 1)"
  using assms
proof (induction v f l rule: summarize_loop.induct)
  case (1 v f l)
  let ?m = "max_prefixlen v"
  show ?case
  proof (cases "f \<le> l")
    case False
    with "1.prems" show ?thesis by (subst summarize_loop.simps) simp
  next
    case True
    define k where "k = min (count_righthand_zero_bits f ?m) (bit_length (l - f + 1) - 1)"
    have k: "k \<le> ?m" using count_righthand_zero_bits_le[of f ?m] by (simp add: k_def)
    have "(2 :: int) ^ k dvd 2 ^ count_righthand_zero_bits f ?m" by (intro le_imp_power_dvd) (simp add: k_def)
    then have dvd: "2 ^ k dvd f" using count_righthand_zero_bits_dvd dvd_trans by blast
    have "(2 :: int) ^ k \<le> 2 ^ (bit_length (l - f + 1) - 1)" by (intro power_increasing) (auto simp: k_def)
    also have "\<dots> \<le> l - f + 1" using True by (intro bit_length_bounds(2)) simp
    finally have le: "f + 2 ^ k \<le> l + 1" by simp
    have b: "block v f (?m - k)" using k dvd "1.prems" True by (simp add: block_def)
    let ?n = "mk_net v f (?m - k)"
    have new: "new_network v True (NTuple (AInt f) (Some (MInt (int ?m - int k)))) = Inr ?n"
      using new_network_block[OF b] k by simp
    have bc: "broadcast_address ?n + 1 = f + 2 ^ k" using mk_net_broadcast[OF b] k by simp
    have kp: "(0 :: int) < 2 ^ k" by simp
    have fb: "f \<le> broadcast_address ?n" using bc kp by linarith
    have g: "good_net v ?n" using mk_net_wf[OF b] by (simp add: good_net_def)
    have step: "summarize_loop v f l =
        (if f + 2 ^ k - 1 = ALL_ONES v then Inr [?n]
         else bindE (summarize_loop v (f + 2 ^ k) l) (\<lambda>nets. Inr (?n # nets)))"
      unfolding summarize_loop.simps[of v f l] Let_def k_def[symmetric]
      using True new by (simp add: push_bit_arith)
    show ?thesis
    proof (cases "f + 2 ^ k - 1 = ALL_ONES v")
      case fin: True
      then have "f + 2 ^ k = l + 1" using le "1.prems"(3) by (simp add: ALL_ONES_def)
      then have "chain f [?n] (l + 1)" using bc fb by simp
      with step fin g show ?thesis by simp
    next
      case False
      have "\<exists>ns. summarize_loop v (f + push_bit k 1) l = Inr ns \<and> list_all (good_net v) ns \<and> chain (f + push_bit k 1) ns (l + 1)"
        by (rule "1.IH"[OF True refl, folded k_def, OF new refl])
           (use False le "1.prems" kp in \<open>simp_all add: push_bit_arith\<close>)
      then obtain ns where "summarize_loop v (f + 2 ^ k) l = Inr ns" "list_all (good_net v) ns" "chain (f + 2 ^ k) ns (l + 1)"
        by (auto simp: push_bit_arith)
      then show ?thesis using step False g bc fb by simp
    qed
  qed
qed

lemma summarize_address_range_ok:
  assumes "wf_addr f" and "wf_addr l" and "version f = version l" and "ip_of f \<le> ip_of l"
    and "scope_id f = None" and "scope_id l = None"
  shows "\<exists>ns. summarize_address_range f l = Inr ns \<and> list_all (good_net (version f)) ns \<and>
    chain (ip_of f) ns (ip_of l + 1)"
proof -
  have "addr_gt f l = Inr False" using assms by (auto simp: addr_gt_def addr_lt_def addr_eq_def)
  moreover have "\<exists>ns. summarize_loop (version f) (ip_of f) (ip_of l) = Inr ns \<and>
      list_all (good_net (version f)) ns \<and> chain (ip_of f) ns (ip_of l + 1)"
    using assms by (intro summarize_loop_ok) (auto simp: wf_addr_def)
  ultimately show ?thesis using assms(3) by (simp add: summarize_address_range_def)
qed

section \<open>Masks and constructors\<close>

lemma prefix_from_ip_int_iff:
  assumes "0 \<le> x" and "x < 2 ^ max_prefixlen v"
  shows "prefix_from_ip_int v x = Inr p \<longleftrightarrow> p \<le> max_prefixlen v \<and> x = ip_int_from_prefix v p"
proof -
  let ?m = "max_prefixlen v"
  define t where "t = count_righthand_zero_bits x ?m"
  have t: "t \<le> ?m" and d: "2 ^ t dvd x"
    unfolding t_def by (rule count_righthand_zero_bits_le count_righthand_zero_bits_dvd)+
  have eq: "prefix_from_ip_int v x = (if x div 2 ^ t \<noteq> 2 ^ (?m - t) - 1 then Inl ValueError else Inr (?m - t))"
    by (simp add: prefix_from_ip_int_def Let_def bit_arith t_def)
  have val: "x div 2 ^ t = 2 ^ (?m - t) - 1 \<longleftrightarrow> x = 2 ^ ?m - 2 ^ t"
  proof -
    have "(2 ^ (?m - t) - 1) * 2 ^ t = (2 ^ ?m - 2 ^ t :: int)" using t by (simp add: algebra_simps power_add[symmetric])
    then show ?thesis using d by (metis dvd_div_mult_self nonzero_mult_div_cancel_right power_not_zero zero_neq_numeral)
  qed
  show ?thesis
  proof
    assume "prefix_from_ip_int v x = Inr p"
    then have "p = ?m - t" and "x = 2 ^ ?m - 2 ^ t" using val unfolding eq by (auto split: if_splits)
    then show "p \<le> ?m \<and> x = ip_int_from_prefix v p" using t by (simp add: ip_int_from_prefix_val)
  next
    assume p: "p \<le> ?m \<and> x = ip_int_from_prefix v p"
    then have x: "x = 2 ^ ?m - 2 ^ host_bits v p" by (simp add: ip_int_from_prefix_val)
    have "t = host_bits v p"
    proof (cases "p = 0")
      case True
      then show ?thesis using x by (simp add: t_def count_righthand_zero_bits_def)
    next
      case False
      then obtain r where r: "p = Suc r" by (cases p) auto
      have "x = (2 * (2 ^ r - 1) + 1) * 2 ^ host_bits v p"
        using p unfolding x by (simp add: r algebra_simps power_add[symmetric] flip: power_Suc)
      then show ?thesis using count_righthand_zero_bits_odd[of "2 ^ r - 1" "host_bits v p" ?m] by (simp add: t_def)
    qed
    then show "prefix_from_ip_int v x = Inr p" using p x val unfolding eq by simp
  qed
qed

lemma xor_ones_bound: "0 \<le> x \<Longrightarrow> x < 2 ^ m \<Longrightarrow> 0 \<le> (x XOR (2 ^ m - 1) :: int) \<and> x XOR (2 ^ m - 1) < 2 ^ m"
  using XOR_upper[of x m "2 ^ m - 1"] by simp

lemma prefix_from_ip_string_le:
  assumes "prefix_from_ip_string v s = Inr p"
  shows "p \<le> max_prefixlen v"
  using assms by (auto simp: prefix_from_ip_string_def prefix_from_ip_int_def Let_def split: sum.splits if_splits)

lemma prefix_from_ip_string_error: "prefix_from_ip_string v s = Inl e \<Longrightarrow> e = NetmaskValueError"
  by (auto simp: prefix_from_ip_string_def split: sum.splits if_splits ipver.splits
      dest: ip_int_from_string4_error ip_int_from_string6_error)

lemma prefix_from_prefix_string_error: "prefix_from_prefix_string v s = Inl e \<Longrightarrow> e = NetmaskValueError"
  by (auto simp: prefix_from_prefix_string_def split: sum.splits if_splits)

lemma make_netmask_ok:
  assumes "make_netmask v arg = Inr (nm, p)"
  shows "p \<le> max_prefixlen v" and "nm = ip_int_from_prefix v p"
proof -
  from assms obtain a where p: "p \<le> max_prefixlen v" and a: "address_class v (AInt (ip_int_from_prefix v p)) = Inr a"
    and nm: "nm = ip_of a"
    by (cases arg; cases v)
       (auto simp: make_netmask_def bindE_eq_Inr_iff prefix_from_prefix_string_def
         split: if_splits sum.splits dest: prefix_from_ip_string_le)
  show "p \<le> max_prefixlen v" by (rule p)
  have "0 \<le> ip_int_from_prefix v p" "ip_int_from_prefix v p < 2 ^ max_prefixlen v"
    using p by (simp_all add: ip_int_from_prefix_val power_increasing)
  then show "nm = ip_int_from_prefix v p" using a nm by (auto simp: address_class_int)
qed

lemma make_netmask_error:
  "make_netmask v arg = Inl e \<Longrightarrow> e = AddressValueError \<or> e = NetmaskValueError"
  by (cases arg; cases v)
     (auto simp: make_netmask_def bindE_eq_Inl_iff split: if_splits sum.splits
       dest: address_class_error[of V4] address_class_error[of V6] prefix_from_ip_string_error prefix_from_prefix_string_error
         IPv4Address_error IPv6Address_error)

lemma and_masked: "0 \<le> a \<Longrightarrow> a < 2 ^ max_prefixlen v \<Longrightarrow> p \<le> max_prefixlen v \<Longrightarrow>
    block v (a AND ip_int_from_prefix v p) p"
  using div_mult_le_self[of "2 ^ host_bits v p" a]
  by (auto simp: block_def ip_int_from_prefix_val and_upper_mask pos_imp_zdiv_nonneg_iff)

lemma new_network_ok:
  assumes "new_network v strict arg = Inr n"
  shows "wf_net n" and "n_version n = v"
proof -
  from assms obtain addr mask a nm p where a: "address_class v addr = Inr a" and m: "make_netmask v mask = Inr (nm, p)"
    and n: "(ip_of a AND nm = ip_of a \<and> n = \<lparr>n_version = v, network_address = a, netmask = nm, prefixlen = p\<rparr>) \<or>
      (\<exists>a'. address_class v (AInt (ip_of a AND nm)) = Inr a' \<and> n = \<lparr>n_version = v, network_address = a', netmask = nm, prefixlen = p\<rparr>)"
    by (auto simp: new_network_def Let_def bindE_eq_Inr_iff split: if_splits)
  note wa = address_class_ok[OF a] and mk = make_netmask_ok[OF m]
  have b: "block v (ip_of a AND nm) p"
    using wa mk by (auto simp: wf_addr_def intro!: and_masked)
  have "wf_net n \<and> n_version n = v"
    using n
  proof (elim disjE conjE exE)
    assume "ip_of a AND nm = ip_of a" "n = \<lparr>n_version = v, network_address = a, netmask = nm, prefixlen = p\<rparr>"
    then show ?thesis using wa mk by (simp add: wf_net_def)
  next
    fix a' assume a': "address_class v (AInt (ip_of a AND nm)) = Inr a'"
      and n: "n = \<lparr>n_version = v, network_address = a', netmask = nm, prefixlen = p\<rparr>"
    have "a' = \<lparr>version = v, ip_of = ip_of a AND nm, scope_id = None\<rparr>"
      using a' b address_class_int[of "ip_of a AND nm" v] by (simp add: block_def)
    then have "n = mk_net v (ip_of a AND nm) p" using n mk by (simp add: mk_net_def ip_int_from_prefix_val)
    then show ?thesis using mk_net_wf[OF b] by simp
  qed
  then show "wf_net n" and "n_version n = v" by auto
qed

lemma new_network_error:
  assumes "new_network v strict arg = Inl e"
  shows "e = AddressValueError \<or> e = NetmaskValueError \<or> e = ValueError \<and> strict"
  using assms
  by (auto simp: new_network_def split_addr_prefix_def split_optional_netmask_def Let_def bindE_eq_Inl_iff
      split: if_splits net_arg.splits addr_arg.splits option.splits
      dest: address_class_error make_netmask_error)

lemma make_netmask_int: "p \<le> max_prefixlen v \<Longrightarrow> make_netmask v (MInt (int p)) = Inr (ip_int_from_prefix v p, p)"
  using address_class_int[of "ip_int_from_prefix v p" v]
  by (simp add: make_netmask_def ip_int_from_prefix_val power_increasing)

lemma dotted_not_decimal: "prefix_from_prefix_string V4 (string_from_ip_int4 x) = Inl NetmaskValueError"
proof -
  have "CHR ''.'' \<in> set (string_from_ip_int4 x)"
  proof (rule ccontr)
    assume "CHR ''.'' \<notin> set (string_from_ip_int4 x)"
    from py_split_no_sep[OF this] arg_cong[OF split_quad[of x], of length] show False by simp
  qed
  then show ?thesis
    by (auto simp: prefix_from_prefix_string_def ascii_isdigit_def list_all_iff is_ascii_digit_def)
qed

lemma make_netmask_dotted:
  assumes "q \<le> 32"
  shows "make_netmask V4 (MStr (string_from_ip_int4 (ip_int_from_prefix V4 q))) = Inr (ip_int_from_prefix V4 q, q)"
proof -
  let ?x = "ip_int_from_prefix V4 q"
  have xb: "0 \<le> ?x" "?x < 2 ^ 32" using assms power_increasing[of "32 - q" 32 "2 :: int"] by (simp_all add: ip_int_from_prefix_val)
  have "prefix_from_ip_int V4 ?x = Inr q" using prefix_from_ip_int_iff[of ?x V4 q] xb assms by simp
  then show ?thesis
    using quad_roundtrip[OF xb] address_class_int[of ?x V4] xb
    by (simp add: make_netmask_def dotted_not_decimal prefix_from_ip_string_def)
qed

lemma make_netmask_hostmask:
  assumes "0 < q" and "q < 32"
  shows "make_netmask V4 (MStr (string_from_ip_int4 (ip_int_from_prefix V4 q XOR ALL_ONES V4))) = Inr (ip_int_from_prefix V4 q, q)"
proof -
  define k where "k = 32 - q"
  have k: "0 < k" "k < 32" using assms by (auto simp: k_def)
  define x :: int where "x = 2 ^ 32 - 2 ^ k"
  have x: "ip_int_from_prefix V4 q = x" using assms by (simp add: ip_int_from_prefix_val k_def x_def)
  have kp: "(2 :: int) \<le> 2 ^ k" "(2 :: int) ^ k < 2 ^ 32"
    using k power_increasing[of 1 k "2 :: int"] power_strict_increasing[of k 32 "2 :: int"] by simp_all
  have h: "x XOR ALL_ONES V4 = 2 ^ k - 1" using k by (simp add: x_def ALL_ONES_def mask_xor_ones[of k 32, simplified])
  have hx: "(2 ^ k - 1) XOR ALL_ONES V4 = x" unfolding h[symmetric] by (simp add: xor.assoc)
  have xb: "0 \<le> x" "x < 2 ^ 32" and hb: "0 \<le> (2 ^ k - 1 :: int)" "(2 ^ k - 1 :: int) < 2 ^ 32" using kp by (simp_all add: x_def)
  have px: "prefix_from_ip_int V4 x = Inr q" using prefix_from_ip_int_iff[of x V4 q] xb x assms by simp
  have "prefix_from_ip_int V4 (2 ^ k - 1) \<noteq> Inr p" for p
  proof
    assume "prefix_from_ip_int V4 (2 ^ k - 1) = Inr p"
    then have p: "p \<le> 32" "2 ^ k - 1 = (2 ^ 32 - 2 ^ (32 - p) :: int)"
      using prefix_from_ip_int_iff[of "2 ^ k - 1" V4 p] hb by (auto simp: ip_int_from_prefix_val)
    have "odd (2 ^ k - 1 :: int)" using k by simp
    then have "32 - p = 0" unfolding p(2) by (cases "32 - p") auto
    with p kp show False by simp
  qed
  then have ph: "\<exists>e. prefix_from_ip_int V4 (2 ^ k - 1) = Inl e" by (cases "prefix_from_ip_int V4 (2 ^ k - 1)") auto
  have a: "address_class V4 (AInt x) = Inr \<lparr>version = V4, ip_of = x, scope_id = None\<rparr>"
    using address_class_int[of x V4] xb by simp
  show ?thesis
    unfolding x h using quad_roundtrip[OF hb] px ph a
    by (auto simp: make_netmask_def dotted_not_decimal prefix_from_ip_string_def x hx)
qed

text \<open>The prefix length that the hostmask of a prefix length is read as: the hostmasks of /0 and /32
  are the netmasks of each other.\<close>

definition hostmask_prefix :: "nat \<Rightarrow> nat" where
  "hostmask_prefix q = (if q = 0 then 32 else if q = 32 then 0 else q)"

lemma make_netmask_any_hostmask:
  assumes "q \<le> 32"
  shows "make_netmask V4 (MStr (string_from_ip_int4 (ip_int_from_prefix V4 q XOR ALL_ONES V4))) =
    Inr (ip_int_from_prefix V4 (hostmask_prefix q), hostmask_prefix q)"
proof -
  consider "q = 0" | "q = 32" | "0 < q" "q < 32" using assms by linarith
  then show ?thesis
  proof cases
    case 1
    then show ?thesis using make_netmask_dotted[of 32] by (simp add: hostmask_prefix_def ip_int_from_prefix_val ALL_ONES_def)
  next
    case 2
    then show ?thesis using make_netmask_dotted[of 0] by (simp add: hostmask_prefix_def ip_int_from_prefix_val ALL_ONES_def)
  next
    case 3
    then show ?thesis using make_netmask_hostmask[of q] by (simp add: hostmask_prefix_def)
  qed
qed

lemma prefix_from_ip_int_error: "prefix_from_ip_int v x = Inl e \<Longrightarrow> e = ValueError"
  by (auto simp: prefix_from_ip_int_def Let_def split: if_splits)

lemma make_netmask_V6_text: "\<not> ascii_isdigit t \<Longrightarrow> make_netmask V6 (MStr t) = Inl NetmaskValueError"
  by (simp add: make_netmask_def prefix_from_prefix_string_def)

lemma nth_subnet_ok:
  assumes "block v a p" and "p + d \<le> max_prefixlen v" and "i < 2 ^ d"
  shows "wf_net (nth_subnet v a (p + d) i) \<and> prefixlen (nth_subnet v a (p + d) i) = p + d"
  using mk_net_wf[OF block_sub[OF assms]] by (simp add: nth_subnet_def)

lemma subnets_chain:
  assumes "block v a p" and "p + d \<le> max_prefixlen v"
  shows "chain a (map (nth_subnet v a (p + d)) [0..<2 ^ d]) (a + 2 ^ host_bits v p)"
proof -
  let ?h = "2 ^ host_bits v (p + d) :: int"
  have "chain (a + int i * ?h) (map (nth_subnet v a (p + d)) [i..<i + j]) (a + int (i + j) * ?h)" if "i + j \<le> 2 ^ d" for i j
    using that
  proof (induction j arbitrary: i)
    case 0
    then show ?case by simp
  next
    case (Suc j)
    have b: "block v (a + int i * ?h) (p + d)" using Suc.prems by (intro block_sub[OF assms]) simp
    have eq: "[i..<i + Suc j] = i # [Suc i..<Suc i + j]" "i + Suc j = Suc i + j" by (simp_all add: upt_conv_Cons)
    have "chain (a + int (Suc i) * ?h) (map (nth_subnet v a (p + d)) [Suc i..<Suc i + j]) (a + int (Suc i + j) * ?h)"
      using Suc.prems by (intro Suc.IH) simp
    moreover have "broadcast_address (nth_subnet v a (p + d) i) + 1 = a + int (Suc i) * ?h"
      using mk_net_broadcast[OF b] by (simp add: nth_subnet_def algebra_simps)
    moreover have "a + int i * ?h \<le> broadcast_address (nth_subnet v a (p + d) i)"
      using mk_net_broadcast[OF b] by (simp add: nth_subnet_def)
    moreover have "lo (nth_subnet v a (p + d) i) = a + int i * ?h" by (simp add: nth_subnet_def)
    ultimately show ?case unfolding eq(1) unfolding eq(2) list.map chain.simps by (simp only: simp_thms)
  qed
  from this[of 0 "2 ^ d"] have "chain a (map (nth_subnet v a (p + d)) [0..<2 ^ d]) (a + int (2 ^ d) * ?h)" by simp
  moreover have "int (2 ^ d) * ?h = 2 ^ host_bits v p" using assms(2) by (simp add: power_add[symmetric])
  ultimately show ?thesis by simp
qed

lemma supernet_of_subnet:
  assumes b: "block v a p" and "p + d \<le> max_prefixlen v" and "i < 2 ^ d" and "p < max_prefixlen v"
  shows "supernet (nth_subnet v a (p + d) i) (int d) None = Inr (mk_net v a p)"
proof -
  let ?h = "2 ^ host_bits v (p + d) :: int" and ?H = "2 ^ host_bits v p :: int"
  have bi: "block v (a + int i * ?h) (p + d)" by (rule block_sub[OF assms(1-3)])
  have "int i < 2 ^ d" using assms(3) by (metis of_nat_less_iff of_nat_numeral of_nat_power)
  then have "int i * ?h < 2 ^ d * ?h" by simp
  also have "2 ^ d * ?h = ?H" using assms(2) by (simp add: power_add[symmetric])
  finally have lt: "int i * ?h < ?H" .
  have "?H dvd a" using b by (simp add: block_def)
  then have "a + int i * ?h = a div ?H * ?H + int i * ?h" by simp
  then have "(a + int i * ?h) div ?H = a div ?H" using lt by (intro div_mod_eqI(1)) auto
  then have dv: "(a + int i * ?h) div ?H * ?H = a" using \<open>?H dvd a\<close> by simp
  show ?thesis
  proof (cases "p + d = 0")
    case True
    then show ?thesis using assms(3) block_0 b by (simp add: nth_subnet_def supernet_def)
  next
    case False
    then show ?thesis using supernet_eq[OF bi, of d] dv by (simp add: nth_subnet_def)
  qed
qed

lemma subnets_of_any:
  assumes "wf_net n" and "prefixlen n + d \<le> max_prefixlen (n_version n)"
  shows "\<exists>ns. subnets n (int d) None = Inr ns \<and> length ns = 2 ^ d \<and> chain (lo n) ns (broadcast_address n + 1) \<and>
    list_all (\<lambda>s. wf_net s \<and> prefixlen s = prefixlen n + d \<and> supernet s (int d) None = Inr (without_scope n)) ns"
proof (cases "prefixlen n < max_prefixlen (n_version n)")
  case True
  let ?v = "n_version n" and ?p = "prefixlen n"
  note b = wf_net_block[OF assms(1)]
  have "subnets n (int d) None = Inr (map (nth_subnet ?v (lo n) (?p + d)) [0..<2 ^ d])"
    using subnets_eq[OF b True assms(2)] subnets_without_scope[OF True] by (simp add: without_scope_mk[OF assms(1)])
  moreover have "broadcast_address n + 1 = lo n + 2 ^ host_bits ?v ?p" by (simp add: wf_net_broadcast[OF assms(1)])
  ultimately show ?thesis
    using subnets_chain[OF b assms(2)] supernet_of_subnet[OF b assms(2) _ True] nth_subnet_ok[OF b assms(2)]
    by (simp add: list_all_iff without_scope_mk[OF assms(1)])
next
  case False
  let ?v = "n_version n" and ?p = "prefixlen n"
  have p: "?p = max_prefixlen ?v" and d: "d = 0" using False assms by (auto simp: wf_net_def)
  have "supernet n 0 None = supernet (without_scope n) 0 None"
    using p by (cases ?v) (simp_all add: supernet_def without_scope_def)
  also have "\<dots> = Inr (without_scope n)"
    using supernet_eq[OF wf_net_block[OF assms(1)], of 0] p by (cases ?v) (simp_all add: without_scope_mk[OF assms(1)])
  finally show ?thesis
    using p d assms(1) net_ends(3)[OF assms(1)] by (simp add: subnets_def)
qed

section \<open>Properties\<close>

text \<open>
  C18: The constructors of \<^verbatim>\<open>IPv4Network\<close> and \<^verbatim>\<open>IPv6Network\<close> on any argument either return a
  well-formed network (a prefix length within the version, the mask of that length, no host
  bits set) or raise \<^verbatim>\<open>AddressValueError\<close> or \<^verbatim>\<open>NetmaskValueError\<close>, or \<^verbatim>\<open>ValueError\<close> in strict mode only.
\<close>

theorem network_constructor:
  "case new_network v strict arg of
     Inr n \<Rightarrow> wf_net n \<and> n_version n = v
   | Inl e \<Rightarrow> e = AddressValueError \<or> e = NetmaskValueError \<or> e = ValueError \<and> strict"
  using new_network_ok[of v strict arg] new_network_error[of v strict arg]
  by (cases "new_network v strict arg") auto

text \<open>
  C19: A well-formed network is the interval from its network address to its broadcast address:
  an address is \<^verbatim>\<open>in\<close> it exactly when it lies between the two, there are \<open>2^(bits - prefix)\<close> of
  them, and two networks \<^verbatim>\<open>overlaps\<close> exactly when their intervals meet.
\<close>

theorem network_membership:
  assumes "wf_net n" and "wf_net m" and "n_version m = n_version n"
    and "0 \<le> a" and "a < 2 ^ max_prefixlen (n_version n)"
  shows "(contains n v a \<longleftrightarrow> v = n_version n \<and> ip_of (network_address n) \<le> a \<and> a \<le> broadcast_address n) \<and>
    num_addresses n = 2 ^ (max_prefixlen (n_version n) - prefixlen n) \<and>
    (overlaps m n \<longleftrightarrow> addrs m \<inter> addrs n \<noteq> {})"
proof -
  have "overlaps m n \<longleftrightarrow> lo m \<in> addrs n \<or> broadcast_address m \<in> addrs n \<or> lo n \<in> addrs m \<or> broadcast_address n \<in> addrs m"
    using net_ends[OF assms(1)] net_ends[OF assms(2)] assms(1-3) by (simp add: overlaps_def contains_interval)
  also have "\<dots> \<longleftrightarrow> addrs m \<inter> addrs n \<noteq> {}"
    using net_ends(3)[OF assms(1)] net_ends(3)[OF assms(2)] by (fastforce simp: addrs_def)
  finally show ?thesis
    using contains_interval[OF assms(1,4,5)] wf_net_broadcast[OF assms(1)]
    by (simp add: addrs_def num_addresses_def)
qed

theorem network_membership_witness:
  "contains (mk_net V4 0x0A000000 8) V4 0x0A0B0C0D \<and> \<not> contains (mk_net V4 0x0A000000 8) V4 0x0B000000"
proof -
  have "block V4 0x0A000000 8" by (simp add: block_def)
  then have w: "wf_net (mk_net V4 0x0A000000 8)" and b: "broadcast_address (mk_net V4 0x0A000000 8) = 0x0AFFFFFF"
    using mk_net_wf[of V4] by (auto simp: mk_net_broadcast)
  show ?thesis
    using network_membership[OF w w, of "0x0A0B0C0D" V4] network_membership[OF w w, of "0x0B000000" V4] b by simp
qed



text \<open>
  C21: A network prints as text that the strict constructor reads back as the same network.
\<close>

theorem network_text_roundtrip:
  assumes "wf_net n"
  shows "\<exists>s. net_str n = Inr s \<and> new_network (n_version n) True (NAddr (AStr s)) = Inr n"
  using net_str_reads_back[OF assms] by blast

theorem network_text_roundtrip_witness:
  "\<exists>s. net_str (mk_net V6 0x20010DB8000000000000000000000000 32) = Inr s \<and>
     new_network V6 True (NAddr (AStr s)) = Inr (mk_net V6 0x20010DB8000000000000000000000000 32)"
proof -
  have "block V6 0x20010DB8000000000000000000000000 32" by (simp add: block_def)
  then show ?thesis using network_text_roundtrip[of "mk_net V6 0x20010DB8000000000000000000000000 32"] mk_net_wf by simp
qed

text \<open>
  C22: \<^verbatim>\<open>subnets\<close> cuts every network into \<open>2^d\<close> consecutive well-formed networks with a prefix longer
  by \<open>d\<close> bits, and \<^verbatim>\<open>supernet\<close> by the same number of bits takes each of them back to the network
  without its scope, which is the network itself where it has none.
\<close>

theorem subnets_supernet:
  assumes "wf_net n" and "prefixlen n + d \<le> max_prefixlen (n_version n)"
  shows "\<exists>ns. subnets n (int d) None = Inr ns \<and> length ns = 2 ^ d \<and>
    chain (ip_of (network_address n)) ns (broadcast_address n + 1) \<and>
    list_all (\<lambda>s. wf_net s \<and> prefixlen s = prefixlen n + d \<and> supernet s (int d) None = Inr (without_scope n)) ns \<and>
    (scope_id (network_address n) = None \<longrightarrow> without_scope n = n)"
  using subnets_of_any[OF assms] without_scope_id[of n] by (simp add: unscoped_def)

theorem subnets_supernet_witness:
  "\<exists>ns. subnets (mk_net V4 0xC0000200 24) 2 None = Inr ns \<and> length ns = 4"
proof -
  have "block V4 0xC0000200 24" by (simp add: block_def)
  then show ?thesis using subnets_supernet[of "mk_net V4 0xC0000200 24" 2] mk_net_wf by force
qed

text \<open>
  C23: What \<^verbatim>\<open>address_exclude\<close> does on any two well-formed networks.  Networks of two versions are
  a \<^verbatim>\<open>TypeError\<close>; a network that is not inside the larger one is a \<^verbatim>\<open>ValueError\<close>, and so is one that
  begins with it and has another scope; the network itself leaves nothing.  A network without a
  scope inside the other ends without raising, and the result is well-formed networks that are
  disjoint from one another and from the excluded one and make up the larger network together
  with it.  A network with a scope properly inside the other always runs into one of the
  \<^verbatim>\<open>AssertionError\<close>s that the code means to be unreachable.
\<close>

theorem address_exclude_exact:
  assumes "wf_net n" and "wf_net m"
  shows "if n_version m \<noteq> n_version n then address_exclude n m = Inl TypeError
    else if \<not> addrs m \<subseteq> addrs n \<or>
        lo n = lo m \<and> scope_id (network_address n) \<noteq> scope_id (network_address m) then address_exclude n m = Inl ValueError
    else if m = n then address_exclude n m = Inr []
    else if scope_id (network_address m) = None then
      \<exists>ns. address_exclude n m = Inr ns \<and> list_all wf_net ns \<and> list_all unscoped ns \<and> tiles (m # ns) (addrs n)
    else address_exclude n m = Inl (AssertionError ''Error performing exclusion'')"
  using address_exclude_other[OF assms] address_exclude_inside[OF assms] by (simp add: unscoped_def)

theorem address_exclude_exact_witness:
  "(\<exists>ns. address_exclude (mk_net V4 0xC0000200 28) (mk_net V4 0xC0000201 32) = Inr ns \<and>
      tiles (mk_net V4 0xC0000201 32 # ns) {0xC0000200..<0xC0000210}) \<and>
   address_exclude (with_scope ''eth0'' (mk_net V6 0 64)) (with_scope ''eth0'' (mk_net V6 0 65)) =
     Inl (AssertionError ''Error performing exclusion'')"
proof
  have b: "block V4 0xC0000200 28" "block V4 0xC0000201 32" by (simp_all add: block_def)
  show "\<exists>ns. address_exclude (mk_net V4 0xC0000200 28) (mk_net V4 0xC0000201 32) = Inr ns \<and>
      tiles (mk_net V4 0xC0000201 32 # ns) {0xC0000200..<0xC0000210}"
    using address_exclude_exact[of "mk_net V4 0xC0000200 28" "mk_net V4 0xC0000201 32"] mk_net_wf b
    by (auto simp: mk_net_addrs)
next
  let ?n = "with_scope ''eth0'' (mk_net V6 0 64)" and ?m = "with_scope ''eth0'' (mk_net V6 0 65)"
  have w: "wf_net ?n" "wf_net ?m" by (intro with_scope_wf mk_net_wf[THEN conjunct1]; simp add: block_def)+
  have "?m \<noteq> ?n" by (auto dest: arg_cong[of _ _ prefixlen])
  then show "address_exclude ?n ?m = Inl (AssertionError ''Error performing exclusion'')"
    using address_exclude_exact[OF w] by (simp add: wf_net_addrs[OF w(1)] wf_net_addrs[OF w(2)])
qed



end
