(* ===== verification/IpCollapse.thy ===== *)
theory IpCollapse
  imports IpNet "HOL-Library.Product_Lexorder"
begin

text \<open>
  \<^verbatim>\<open>collapse_addresses\<close> of \<^verbatim>\<open>ipaddress.py\<close>: addresses are summarised by ranges, siblings are merged
  into their supernet until none are left, and networks inside an earlier one are skipped.
  The result covers exactly the addresses of the input, in ascending disjoint networks of
  which no two could be merged any more.
\<close>

section \<open>The code\<close>

text \<open>The dictionary of \<^verbatim>\<open>_collapse_addresses_internal\<close> as an association list.\<close>

definition dict_get :: "(network \<times> network) list \<Rightarrow> network \<Rightarrow> network option" where
  "dict_get d k = map_option snd (find (\<lambda>e. net_eq (fst e) k) d)"

definition dict_del :: "(network \<times> network) list \<Rightarrow> network \<Rightarrow> (network \<times> network) list" where
  "dict_del d k = filter (\<lambda>e. \<not> net_eq (fst e) k) d"

lemma dict_get_Some_del: "dict_get d k = Some n \<Longrightarrow> length (dict_del d k) < length d"
  by (auto simp: dict_get_def dict_del_def find_Some_iff intro!: length_filter_less)

text \<open>The work list is kept with its end first.\<close>

function merge_loop :: "network list \<Rightarrow> (network \<times> network) list \<Rightarrow> (network \<times> network) list result" where
  "merge_loop [] d = Inr d"
| "merge_loop (net # to_merge) d =
     (case supernet net 1 None of
        Inl e \<Rightarrow> Inl e
      | Inr snet \<Rightarrow>
          (case dict_get d snet of
             None \<Rightarrow> merge_loop to_merge (d @ [(snet, net)])
           | Some existing \<Rightarrow>
               if \<not> net_eq existing net then merge_loop (snet # to_merge) (dict_del d snet)
               else merge_loop to_merge d))"
  by pat_completeness auto
termination
  by (relation "measure (\<lambda>(to_merge, d). 2 * length to_merge + length d)") (auto dest: dict_get_Some_del)

text \<open>
  \<^verbatim>\<open>sorted(networks)\<close>, a stable sort that asks only \<^verbatim>\<open>__lt__\<close> and stops at the first comparison that
  raises.  Networks without scopes are linearly ordered by \<^verbatim>\<open>__lt__\<close>, so that every stable sort
  returns this list for them; two networks that differ only in their scopes are not ordered
  either way, and the place of such networks among three or more may depend on the order in
  which the sort compares them.
\<close>

primrec insert_network :: "network \<Rightarrow> network list \<Rightarrow> network list result" where
  "insert_network n [] = Inr [n]"
| "insert_network n (m # ms) =
     bindE (net_lt m n) (\<lambda>lt. if lt then bindE (insert_network n ms) (\<lambda>ns. Inr (m # ns)) else Inr (n # m # ms))"

primrec sorted_networks :: "network list \<Rightarrow> network list result" where
  "sorted_networks [] = Inr []"
| "sorted_networks (n # ns) = bindE (sorted_networks ns) (insert_network n)"

fun skip_subsumed :: "network option \<Rightarrow> network list \<Rightarrow> network list" where
  "skip_subsumed last_net [] = []"
| "skip_subsumed None (n # ns) = n # skip_subsumed (Some n) ns"
| "skip_subsumed (Some l) (n # ns) =
     (if broadcast_address l \<ge> broadcast_address n then skip_subsumed (Some l) ns
      else n # skip_subsumed (Some n) ns)"

definition collapse_addresses_internal :: "network list \<Rightarrow> network list result" where
  "collapse_addresses_internal addresses =
     bindE (merge_loop (rev addresses) []) (\<lambda>d.
     bindE (sorted_networks (map snd d)) (\<lambda>ns. Inr (skip_subsumed None ns)))"

datatype ip_item = IAddr ip_addr | INet network

fun find_address_range_loop :: "ip_addr \<Rightarrow> ip_addr \<Rightarrow> ip_addr list \<Rightarrow> (ip_addr \<times> ip_addr) list" where
  "find_address_range_loop first_ip last_ip [] = [(first_ip, last_ip)]"
| "find_address_range_loop first_ip last_ip (ip # it) =
     (if ip_of ip \<noteq> ip_of last_ip + 1 then (first_ip, last_ip) # find_address_range_loop ip ip it
      else find_address_range_loop first_ip ip it)"

definition find_address_range :: "ip_addr list \<Rightarrow> (ip_addr \<times> ip_addr) list" where
  "find_address_range addresses = (case addresses of [] \<Rightarrow> [] | ip # it \<Rightarrow> find_address_range_loop ip ip it)"

text \<open>Addresses and single-address networks are gathered apart from the other networks.\<close>

definition split_item :: "ip_addr list \<times> network list \<Rightarrow> ip_item \<Rightarrow> (ip_addr list \<times> network list) result" where
  "split_item st item = (case st of (ips, nets) \<Rightarrow>
     (case item of
        IAddr ip \<Rightarrow>
          if ips \<noteq> [] \<and> version (last ips) \<noteq> version ip then Inl TypeError else Inr (ips @ [ip], nets)
      | INet n \<Rightarrow>
          if prefixlen n = max_prefixlen (n_version n) then
            (if ips \<noteq> [] \<and> version (last ips) \<noteq> n_version n then Inl TypeError
             else Inr (ips @ [network_address n], nets))
          else
            (if nets \<noteq> [] \<and> n_version (last nets) \<noteq> n_version n then Inl TypeError
             else Inr (ips, nets @ [n]))))"

definition collapse_addresses :: "ip_item list \<Rightarrow> network list result" where
  "collapse_addresses addresses =
     bindE (foldE split_item ([], []) addresses) (\<lambda>(ips, nets).
       let ips = sort_key ip_of (remdups ips) in
       bindE (foldE (\<lambda>addrs (f, l). bindE (summarize_address_range f l) (\<lambda>ns. Inr (addrs @ ns))) []
          (find_address_range ips)) (\<lambda>addrs.
         collapse_addresses_internal (addrs @ nets)))"

section \<open>Merging\<close>

lemma good_net_cases:
  assumes "good_net v n"
  obtains a p where "n = mk_net v a p" and "block v a p"
proof -
  have w: "wf_net n" "unscoped n" and v: "n_version n = v" using assms by (simp_all add: good_net_def)
  obtain w a p where n: "n = mk_net w a p" and b: "block w a p" by (rule wf_net_cases[OF w])
  have "w = v" using v by (simp add: n)
  with n b that show ?thesis by blast
qed

lemma good_net_eq: "good_net v m \<Longrightarrow> good_net v n \<Longrightarrow> net_eq m n \<longleftrightarrow> m = n"
  by (elim good_net_cases) (auto simp: mk_net_eq_iff block_def)

definition super_of :: "network \<Rightarrow> network" where
  "super_of n =
     mk_net (n_version n)
       (lo n div 2 ^ host_bits (n_version n) (prefixlen n - 1) * 2 ^ host_bits (n_version n) (prefixlen n - 1))
       (prefixlen n - 1)"

lemma supernet_one:
  assumes "good_net v n"
  shows "supernet n 1 None = Inr (super_of n)" and "good_net v (super_of n)" and "addrs n \<subseteq> addrs (super_of n)"
proof -
  obtain a p where n: "n = mk_net v a p" and b: "block v a p" using good_net_cases[OF assms] .
  let ?h = "2 ^ host_bits v (p - 1) :: int"
  have s: "super_of n = mk_net v (a div ?h * ?h) (p - 1)" by (simp add: super_of_def n)
  have bs: "block v (a div ?h * ?h) (p - 1)" by (rule block_super[OF b]) simp
  show "good_net v (super_of n)" using mk_net_wf[OF bs] by (simp add: s good_net_def)
  have hp: "0 < ?h" by simp
  have "a div ?h * ?h \<le> a" by (rule div_mult_le_self[OF hp])
  moreover have "a < a div ?h * ?h + ?h"
    using div_mult_mod_eq[of a ?h] pos_mod_bound[OF hp, of a] by linarith
  ultimately have "a + 2 ^ host_bits v p \<le> a div ?h * ?h + ?h"
    by (intro block_inside[OF b bs]) auto
  with \<open>a div ?h * ?h \<le> a\<close> show "addrs n \<subseteq> addrs (super_of n)"
    unfolding s unfolding n mk_net_addrs[OF b] mk_net_addrs[OF bs] by auto
  show "supernet n 1 None = Inr (super_of n)"
  proof (cases "p = 0")
    case True
    then have "a = 0" using b block_0 by simp
    then show ?thesis using True unfolding s by (simp add: n supernet_def)
  next
    case False
    then show ?thesis using supernet_eq[OF b, of 1] unfolding s by (simp add: n)
  qed
qed

text \<open>Two different networks with one supernet cover it.\<close>

lemma siblings_cover:
  assumes "good_net v m" and "good_net v n" and "super_of m = super_of n" and "m \<noteq> n"
  shows "addrs m \<union> addrs n = addrs (super_of n)"
proof -
  obtain a p where m: "m = mk_net v a p" and bm: "block v a p" using good_net_cases[OF assms(1)] .
  obtain b q where n: "n = mk_net v b q" and bn: "block v b q" using good_net_cases[OF assms(2)] .
  have whole: "addrs (mk_net v c 0) = addrs (super_of (mk_net v c 0))" if "block v c 0" for c
    using block_0[OF that] by (simp add: super_of_def)
  have pq: "p - 1 = q - 1" using assms(3) by (simp add: m n super_of_def)
  show ?thesis
  proof (cases "p = 0 \<or> q = 0")
    case True
    then show ?thesis
      using whole m n bm bn assms(3) supernet_one(3)[OF assms(1)] supernet_one(3)[OF assms(2)] by auto
  next
    case False
    with pq have p: "p = q" "0 < p" by auto
    then obtain r where r: "p = Suc r" "q = Suc r" by (cases p) auto
    have rm: "r < max_prefixlen v" using bm r by (simp add: block_def)
    let ?h = "2 ^ host_bits v (Suc r) :: int" and ?H = "2 ^ host_bits v r :: int"
    have H: "?H = ?h + ?h" using host_bits_Suc[OF rm] by simp
    define s where "s = a div ?H * ?H"
    have sb: "b div ?H * ?H = s"
      using assms(3) by (simp add: m n super_of_def s_def r)
    have bs: "block v s r" unfolding s_def by (rule block_super[OF bm]) (simp add: r)
    have in_block: "c = s \<or> c = s + ?h" if "block v c (Suc r)" "c div ?H * ?H = s" for c
    proof -
      have hp: "0 < ?h" "0 < ?H" by simp_all
      have "s \<le> c" "c < s + (?h + ?h)"
        using that(2) div_mult_le_self[OF hp(2), of c] div_mult_mod_eq[of c ?H] pos_mod_bound[OF hp(2), of c] H by linarith+
      moreover have d: "?h dvd c" "?h dvd s" using that(1) block_halves(1)[OF bs rm] by (simp_all add: block_def)
      ultimately show ?thesis
        using aligned_gap[of ?h s c] aligned_gap[of ?h "s + ?h" c] by fastforce
    qed
    have "{a, b} = {s, s + ?h}"
      using in_block[of a] in_block[of b] bm bn sb assms(4) by (auto simp: m n s_def r)
    moreover have "addrs m \<union> addrs n = (\<Union>c\<in>{a, b}. {c..<c + ?h})"
      using mk_net_addrs[OF bm] mk_net_addrs[OF bn] by (simp add: m n r)
    moreover have "super_of n = mk_net v s r" using sb by (simp add: n super_of_def r)
    ultimately show ?thesis using mk_net_addrs[OF bs] H by auto
  qed
qed

definition dict_inv :: "ipver \<Rightarrow> (network \<times> network) list \<Rightarrow> bool" where
  "dict_inv v d \<longleftrightarrow> distinct (map fst d) \<and> list_all (\<lambda>(k, n). good_net v n \<and> k = super_of n) d"

lemma dict_inv_key: "dict_inv v d \<Longrightarrow> e \<in> set d \<Longrightarrow> good_net v (fst e) \<and> good_net v (snd e) \<and> fst e = super_of (snd e)"
  using supernet_one(2) by (force simp: dict_inv_def list_all_iff)

lemma dict_get_eq:
  assumes "dict_inv v d" and "good_net v k"
  shows "dict_get d k = map_of d k" and "dict_del d k = filter (\<lambda>e. fst e \<noteq> k) d"
proof -
  have eq: "net_eq (fst e) k \<longleftrightarrow> fst e = k" if "e \<in> set d" for e
    using dict_inv_key[OF assms(1) that] good_net_eq assms(2) by blast
  then show "dict_del d k = filter (\<lambda>e. fst e \<noteq> k) d"
    unfolding dict_del_def by (intro filter_cong) auto
  have "find (\<lambda>e. net_eq (fst e) k) d = find (\<lambda>e. fst e = k) d" using eq by (intro find_cong) auto
  moreover have "map_option snd (find (\<lambda>e. fst e = k) d) = map_of d k"
    by (induction d) auto
  ultimately show "dict_get d k = map_of d k" by (simp add: dict_get_def)
qed

lemma covered_simps [simp]:
  "covered [] = {}" "covered (n # ns) = addrs n \<union> covered ns" "covered (ms @ ns) = covered ms \<union> covered ns"
  by (auto simp: covered_def)

lemma covered_del:
  assumes "distinct (map fst d)" and "map_of d k = Some n"
  shows "covered (map snd d) = addrs n \<union> covered (map snd (filter (\<lambda>e. fst e \<noteq> k) d))"
  using assms
proof (induction d)
  case (Cons e d)
  show ?case
  proof (cases "fst e = k")
    case True
    with Cons.prems have "filter (\<lambda>e. fst e \<noteq> k) d = d" by (auto simp: filter_id_conv image_iff)
    with True Cons.prems show ?thesis by (cases e) auto
  next
    case False
    with Cons show ?thesis by (cases e) auto
  qed
qed simp

lemma merge_loop_ok:
  assumes "list_all (good_net v) to_merge" and "dict_inv v d"
  shows "\<exists>d'. merge_loop to_merge d = Inr d' \<and> dict_inv v d' \<and>
    covered (map snd d') = covered to_merge \<union> covered (map snd d)"
  using assms
proof (induction to_merge d rule: merge_loop.induct)
  case (1 d)
  then show ?case by simp
next
  case (2 net to_merge d)
  from "2.prems" have g: "good_net v net" and gs: "list_all (good_net v) to_merge" and inv: "dict_inv v d" by simp_all
  let ?k = "super_of net"
  note sn = supernet_one[OF g] and dg = dict_get_eq[OF inv supernet_one(2)[OF g]]
  show ?case
  proof (cases "map_of d ?k")
    case None
    then have "?k \<notin> fst ` set d" by (simp add: map_of_eq_None_iff)
    then have "dict_inv v (d @ [(?k, net)])" using inv g by (auto simp: dict_inv_def)
    from "2.IH"(1)[OF sn(1) _ gs this] None dg(1) sn(1) show ?thesis by auto
  next
    case (Some ex)
    then have e: "(?k, ex) \<in> set d" by (rule map_of_SomeD)
    then have ge: "good_net v ex" and ke: "super_of ex = ?k" using dict_inv_key[OF inv e] by auto
    have cov: "covered (map snd d) = addrs ex \<union> covered (map snd (filter (\<lambda>e. fst e \<noteq> ?k) d))"
      using covered_del[OF _ Some] inv by (simp add: dict_inv_def)
    show ?thesis
    proof (cases "ex = net")
      case True
      then have "net_eq ex net" using good_net_eq[OF ge g] by simp
      with "2.IH"(3)[OF sn(1) _ _ gs inv] Some dg(1) sn(1) True cov show ?thesis by auto
    next
      case False
      then have ne: "\<not> net_eq ex net" using good_net_eq[OF ge g] by simp
      have "addrs ex \<union> addrs net = addrs ?k" by (rule siblings_cover[OF ge g ke False])
      moreover have "dict_inv v (dict_del d ?k)"
        using inv by (auto simp: dict_inv_def dict_del_def list_all_iff distinct_map_filter)
      ultimately show ?thesis
        using "2.IH"(2)[OF sn(1) _ ne] Some dg sn(1,2) ne gs cov by auto
    qed
  qed
qed

text \<open>The order of networks without scopes: by address, then by mask.\<close>

definition net_key :: "network \<Rightarrow> int \<times> int" where
  "net_key n = (lo n, netmask n)"

lemma net_lt_key:
  assumes "good_net v m" and "good_net v n"
  shows "net_lt m n = Inr (net_key m < net_key n)"
  using assms by (elim good_net_cases) (auto simp: net_lt_def addr_eq_def addr_lt_def net_key_def)

lemma insert_network_key:
  assumes "good_net v n" and "list_all (good_net v) ns"
  shows "insert_network n ns = Inr (insort_key net_key n ns)"
  using assms by (induction ns) (auto simp: net_lt_key)

lemma sorted_networks_key:
  assumes "list_all (good_net v) ns"
  shows "sorted_networks ns = Inr (sort_key net_key ns)"
  using assms
proof (induction ns)
  case (Cons n ns)
  then have "insert_network n (sort_key net_key ns) = Inr (insort_key net_key n (sort_key net_key ns))"
    by (intro insert_network_key[of v]) (simp_all add: list_all_iff)
  with Cons show ?case by simp
qed simp

lemma good_net_overlap:
  assumes "good_net v m" and "good_net v n" and "net_key m \<le> net_key n"
    and "broadcast_address m < broadcast_address n"
  shows "broadcast_address m < lo n"
proof -
  obtain a p where m: "m = mk_net v a p" and bm: "block v a p" using good_net_cases[OF assms(1)] .
  obtain b q where n: "n = mk_net v b q" and bn: "block v b q" using good_net_cases[OF assms(2)] .
  define x y :: int where "x = 2 ^ host_bits v p" and "y = 2 ^ host_bits v q"
  have bc: "broadcast_address m = a + x - 1" "broadcast_address n = b + y - 1"
    using mk_net_broadcast[OF bm] mk_net_broadcast[OF bn] by (simp_all add: m n x_def y_def)
  have ab: "a \<le> b" and nm: "a = b \<Longrightarrow> y \<le> x"
    using assms(3) by (auto simp: net_key_def m n x_def y_def)
  have pq: "p \<le> max_prefixlen v" "q \<le> max_prefixlen v" using bm bn by (auto simp: block_def)
  show ?thesis
  proof (rule ccontr)
    assume "\<not> broadcast_address m < lo n"
    then have ov: "b < a + x" using bc n by simp
    show False
    proof (cases "p \<le> q")
      case True
      have "b + y \<le> a + x"
        using block_inside[OF bn bm True ab] ov by (simp add: x_def y_def)
      then show False using assms(4) bc by simp
    next
      case False
      then have "x < y" using pq by (auto simp: x_def y_def intro!: power_strict_increasing)
      with nm ab have "a < b" by fastforce
      have "x dvd y" using False by (auto simp: x_def y_def intro!: le_imp_power_dvd)
      then have "x dvd b" "x dvd a" using bm bn by (auto simp: block_def x_def y_def intro: dvd_trans)
      with \<open>a < b\<close> have "a + x \<le> b" by (intro aligned_gap)
      with ov show False by simp
    qed
  qed
qed

definition separated :: "network list \<Rightarrow> bool" where
  "separated ns \<longleftrightarrow> sorted_wrt (\<lambda>m n. broadcast_address m < lo n) ns"

lemma good_net_nonempty: "good_net v n \<Longrightarrow> lo n \<le> broadcast_address n"
  by (elim good_net_cases) (simp add: mk_net_broadcast)

lemma skip_subsumed_ok:
  assumes "list_all (good_net v) (l # ns)" and "sorted (map net_key (l # ns))"
  shows "covered (l # skip_subsumed (Some l) ns) = covered (l # ns) \<and>
    separated (l # skip_subsumed (Some l) ns) \<and> set (skip_subsumed (Some l) ns) \<subseteq> set ns"
  using assms
proof (induction ns arbitrary: l)
  case Nil
  then show ?case by (simp add: separated_def)
next
  case (Cons n ns)
  from Cons.prems have g: "good_net v l" "good_net v n" and key: "net_key l \<le> net_key n"
    and all: "list_all (good_net v) ns" and srt: "sorted (map net_key (n # ns))" "sorted (map net_key (l # ns))" by auto
  show ?case
  proof (cases "broadcast_address l \<ge> broadcast_address n")
    case True
    have "lo l \<le> lo n" using key by (auto simp: net_key_def)
    then have "addrs n \<subseteq> addrs l" using True by (auto simp: addrs_def)
    with True Cons.IH[of l] g all srt(2) show ?thesis by auto
  next
    case False
    have lt: "broadcast_address l < lo n" using good_net_overlap[OF g key] False by simp
    have IH: "covered (n # skip_subsumed (Some n) ns) = covered (n # ns)"
      "separated (n # skip_subsumed (Some n) ns)" "set (skip_subsumed (Some n) ns) \<subseteq> set ns"
      using Cons.IH[of n] g all srt(1) by auto
    have "broadcast_address l < lo k" if "k \<in> set (skip_subsumed (Some n) ns)" for k
    proof -
      have "broadcast_address n < lo k" using IH(2) that by (simp add: separated_def)
      then show ?thesis using lt good_net_nonempty[OF g(2)] by linarith
    qed
    then show ?thesis using False IH lt by (auto simp: separated_def)
  qed
qed

definition irreducible :: "network list \<Rightarrow> bool" where
  "irreducible ns \<longleftrightarrow> (\<forall>m\<in>set ns. \<forall>n\<in>set ns. super_of m = super_of n \<longrightarrow> m = n)"

lemma irreducible_subset: "set ms \<subseteq> set ns \<Longrightarrow> irreducible ns \<Longrightarrow> irreducible ms"
  unfolding irreducible_def by blast

lemma collapse_internal_ok:
  assumes "list_all (good_net v) xs"
  shows "\<exists>ns. collapse_addresses_internal xs = Inr ns \<and> list_all (good_net v) ns \<and>
    covered ns = covered xs \<and> separated ns \<and> irreducible ns"
proof -
  obtain d where d: "merge_loop (rev xs) [] = Inr d" "dict_inv v d"
    and cov: "covered (map snd d) = covered xs"
    using merge_loop_ok[of v "rev xs" "[]"] assms by (auto simp: dict_inv_def covered_def)
  let ?vs = "map snd d" and ?ss = "sort_key net_key (map snd d)"
  have good: "list_all (good_net v) ?vs" using dict_inv_key[OF d(2)] by (auto simp: list_all_iff)
  have irr: "irreducible ?vs"
    unfolding irreducible_def
  proof (intro ballI impI)
    fix m n assume "m \<in> set ?vs" "n \<in> set ?vs" and s: "super_of m = super_of n"
    then obtain j k where e: "(j, m) \<in> set d" "(k, n) \<in> set d" by auto
    then have "j = k" using dict_inv_key[OF d(2) e(1)] dict_inv_key[OF d(2) e(2)] s by simp
    with e d(2) show "m = n" by (auto simp: dict_inv_def dest: eq_key_imp_eq_value)
  qed
  have srt: "sorted_networks ?vs = Inr ?ss" by (rule sorted_networks_key[OF good])
  have "list_all (good_net v) ?ss" "sorted (map net_key ?ss)" "covered ?ss = covered ?vs"
    using good by (auto simp: list_all_iff covered_def)
  then have "covered (skip_subsumed None ?ss) = covered ?vs \<and> separated (skip_subsumed None ?ss) \<and>
      set (skip_subsumed None ?ss) \<subseteq> set ?ss"
    using skip_subsumed_ok[of v "hd ?ss" "tl ?ss"] by (cases ?ss) (auto simp: separated_def)
  moreover have "collapse_addresses_internal xs = Inr (skip_subsumed None ?ss)"
    using d(1) srt by (simp add: collapse_addresses_internal_def)
  ultimately show ?thesis
    using good irreducible_subset[OF _ irr] cov by (auto simp: list_all_iff)
qed

definition item_ok :: "ipver \<Rightarrow> ip_item \<Rightarrow> bool" where
  "item_ok v item = (case item of
     IAddr a \<Rightarrow> wf_addr a \<and> version a = v \<and> scope_id a = None
   | INet n \<Rightarrow> good_net v n)"

definition item_addrs :: "ip_item \<Rightarrow> int set" where
  "item_addrs item = (case item of IAddr a \<Rightarrow> {ip_of a} | INet n \<Rightarrow> addrs n)"

lemma single_address: "good_net v n \<Longrightarrow> prefixlen n = max_prefixlen v \<Longrightarrow> addrs n = {lo n}"
  by (elim good_net_cases) (auto simp: mk_net_addrs)

lemma split_items:
  assumes "list_all (item_ok v) items" and "\<forall>a\<in>set ips. item_ok v (IAddr a)" and "list_all (good_net v) nets"
  shows "\<exists>ips' nets'. foldE split_item (ips, nets) items = Inr (ips', nets') \<and>
    (\<forall>a\<in>set ips'. item_ok v (IAddr a)) \<and> list_all (good_net v) nets' \<and>
    ip_of ` set ips' \<union> covered nets' = ip_of ` set ips \<union> covered nets \<union> (\<Union>i\<in>set items. item_addrs i)"
  using assms
proof (induction items arbitrary: ips nets)
  case (Cons item items)
  have ipv: "ips \<noteq> [] \<Longrightarrow> version (last ips) = v" using Cons.prems(2) by (auto simp: item_ok_def)
  have netv: "nets \<noteq> [] \<Longrightarrow> n_version (last nets) = v"
    using Cons.prems(3) by (auto simp: list_all_iff good_net_def)
  show ?case
  proof (cases item)
    case (IAddr a)
    with Cons.prems have ok: "item_ok v (IAddr a)" by simp
    then have "split_item (ips, nets) item = Inr (ips @ [a], nets)"
      using ipv IAddr by (auto simp: split_item_def item_ok_def)
    then show ?thesis
      using Cons.IH[of "ips @ [a]" nets] Cons.prems IAddr ok by (auto simp: item_addrs_def)
  next
    case (INet n)
    have g: "good_net v n" using Cons.prems INet by (simp add: item_ok_def)
    show ?thesis
    proof (cases "prefixlen n = max_prefixlen v")
      case True
      have ok: "item_ok v (IAddr (network_address n))"
        using g by (auto simp: item_ok_def good_net_def wf_net_def unscoped_def)
      have "split_item (ips, nets) item = Inr (ips @ [network_address n], nets)"
        using INet True ipv g by (auto simp: split_item_def good_net_def)
      then show ?thesis
        using Cons.IH[of "ips @ [network_address n]" nets] Cons.prems INet ok single_address[OF g True]
        by (auto simp: item_addrs_def)
    next
      case False
      have "split_item (ips, nets) item = Inr (ips, nets @ [n])"
        using INet False netv g by (auto simp: split_item_def good_net_def)
      then show ?thesis
        using Cons.IH[of ips "nets @ [n]"] Cons.prems INet g by (auto simp: item_addrs_def)
    qed
  qed
qed auto

lemma find_address_range_loop_ok:
  assumes "item_ok v (IAddr f)" and "item_ok v (IAddr l)" and "\<forall>a\<in>set it. item_ok v (IAddr a)"
    and "ip_of f \<le> ip_of l"
  shows "(\<forall>(g, h)\<in>set (find_address_range_loop f l it). item_ok v (IAddr g) \<and> item_ok v (IAddr h) \<and> ip_of g \<le> ip_of h) \<and>
    (\<Union>(g, h)\<in>set (find_address_range_loop f l it). {ip_of g..ip_of h}) = {ip_of f..ip_of l} \<union> ip_of ` set it"
  using assms
proof (induction it arbitrary: f l)
  case (Cons a it)
  show ?case
  proof (cases "ip_of a = ip_of l + 1")
    case True
    with Cons.prems have "{ip_of f..ip_of a} = {ip_of f..ip_of l} \<union> {ip_of a}" by auto
    with True Cons.IH[of f a] Cons.prems show ?thesis by auto
  next
    case False
    with Cons.IH[of a a] Cons.prems show ?thesis by auto
  qed
qed auto

lemma summarize_all:
  assumes "\<forall>(f, l)\<in>set rs. item_ok v (IAddr f) \<and> item_ok v (IAddr l) \<and> ip_of f \<le> ip_of l" and "list_all (good_net v) acc"
  shows "\<exists>ns. foldE (\<lambda>addrs (f, l). bindE (summarize_address_range f l) (\<lambda>ns. Inr (addrs @ ns))) acc rs = Inr ns \<and>
    list_all (good_net v) ns \<and> covered ns = covered acc \<union> (\<Union>(f, l)\<in>set rs. {ip_of f..ip_of l})"
  using assms
proof (induction rs arbitrary: acc)
  case (Cons r rs)
  obtain f l where r: "r = (f, l)" by (cases r)
  with Cons.prems obtain ns where ns: "summarize_address_range f l = Inr ns" "list_all (good_net v) ns"
    "chain (ip_of f) ns (ip_of l + 1)"
    using summarize_address_range_ok[of f l] by (auto simp: item_ok_def)
  have cov: "covered ns = {ip_of f..ip_of l}"
    using chain_covered[OF ns(3)] by (simp add: atLeastLessThanPlusOne_atLeastAtMost_int)
  obtain ms where ms: "foldE (\<lambda>addrs (f, l). bindE (summarize_address_range f l) (\<lambda>ns. Inr (addrs @ ns))) (acc @ ns) rs = Inr ms"
    "list_all (good_net v) ms" "covered ms = covered (acc @ ns) \<union> (\<Union>(f, l)\<in>set rs. {ip_of f..ip_of l})"
    using Cons.IH[of "acc @ ns"] Cons.prems ns(2) by auto
  show ?case using ms cov by (simp add: r ns(1) Un_assoc)
qed auto

lemma collapse_addresses_ok:
  assumes "list_all (item_ok v) items"
  shows "\<exists>ns. collapse_addresses items = Inr ns \<and> list_all (good_net v) ns \<and>
    covered ns = (\<Union>i\<in>set items. item_addrs i) \<and> separated ns \<and> irreducible ns"
proof -
  obtain ips nets where sp: "foldE split_item ([], []) items = Inr (ips, nets)"
    and ok: "\<forall>a\<in>set ips. item_ok v (IAddr a)" "list_all (good_net v) nets"
    and un: "ip_of ` set ips \<union> covered nets = (\<Union>i\<in>set items. item_addrs i)"
    using split_items[OF assms, of "[]" "[]"] by auto
  let ?s = "sort_key ip_of (remdups ips)"
  have rng: "(\<forall>(g, h)\<in>set (find_address_range ?s). item_ok v (IAddr g) \<and> item_ok v (IAddr h) \<and> ip_of g \<le> ip_of h) \<and>
      (\<Union>(g, h)\<in>set (find_address_range ?s). {ip_of g..ip_of h}) = ip_of ` set ips"
  proof (cases ?s)
    case Nil
    then have "ips = []" by (metis length_0_conv length_sort remdups_eq_nil_iff)
    then show ?thesis using Nil by (simp add: find_address_range_def)
  next
    case (Cons a it)
    then have st: "set ips = insert a (set it)" by (metis list.simps(15) set_remdups set_sort)
    have "(\<forall>(g, h)\<in>set (find_address_range_loop a a it). item_ok v (IAddr g) \<and> item_ok v (IAddr h) \<and> ip_of g \<le> ip_of h) \<and>
      (\<Union>(g, h)\<in>set (find_address_range_loop a a it). {ip_of g..ip_of h}) = {ip_of a..ip_of a} \<union> ip_of ` set it"
      using ok(1) st by (intro find_address_range_loop_ok) auto
    then show ?thesis using Cons st by (simp add: find_address_range_def)
  qed
  obtain as where "foldE (\<lambda>addrs (f, l). bindE (summarize_address_range f l) (\<lambda>ns. Inr (addrs @ ns))) [] (find_address_range ?s) = Inr as"
    and ag: "list_all (good_net v) as" "covered as = ip_of ` set ips"
    using summarize_all[OF conjunct1[OF rng], of "[]"] rng by auto
  then have "collapse_addresses items = collapse_addresses_internal (as @ nets)"
    using sp by (simp add: collapse_addresses_def Let_def)
  with collapse_internal_ok[of v "as @ nets"] ag ok(2) un show ?thesis by auto
qed

section \<open>Networks with scopes\<close>

text \<open>The supernet of a network with a scope has none, so that one network on two links is taken for
  two siblings: the result is their supernet, which has twice the addresses.\<close>

lemma supernet_scoped: "0 < prefixlen n \<Longrightarrow> supernet (with_scope s n) d None = supernet n d None"
  by (simp add: supernet_def)

theorem collapse_scoped_widens:
  assumes "block V6 a p" and "0 < p" and "Suc p < 128" and "s \<noteq> t"
  shows "collapse_addresses [INet (with_scope s (mk_net V6 a (Suc p))), INet (with_scope t (mk_net V6 a (Suc p)))] =
    Inr [mk_net V6 a p]"
proof -
  let ?n = "mk_net V6 a (Suc p)" and ?m = "mk_net V6 a p"
  have good: "good_net V6 ?n" "good_net V6 ?m"
    using mk_net_wf[OF assms(1)] mk_net_wf[OF block_halves(1)[OF assms(1)]] assms(3) by (simp_all add: good_net_def)
  have "2 ^ host_bits V6 p dvd a" using assms(1) by (simp add: block_def)
  then have "super_of ?n = ?m" by (simp add: super_of_def)
  then have sup: "supernet (with_scope u ?n) 1 None = Inr ?m" for u
    using supernet_scoped[of ?n] supernet_one(1)[OF good(1)] by simp
  obtain k where k: "supernet ?m 1 None = Inr k" using supernet_one(1)[OF good(2)] by blast
  have "net_eq ?m ?m" and "\<not> net_eq (with_scope t ?n) (with_scope s ?n)"
    using assms(4) good_net_eq[OF good(2,2)] by (auto simp: net_eq_def addr_eq_def with_scope_def)
  then have "collapse_addresses_internal [with_scope s ?n, with_scope t ?n] = Inr [?m]"
    by (simp add: collapse_addresses_internal_def sup k dict_get_def dict_del_def)
  then show ?thesis
    using assms(3) by (simp add: collapse_addresses_def split_item_def find_address_range_def)
qed

section \<open>Properties\<close>

text \<open>
  C25: \<^verbatim>\<open>collapse_addresses\<close> of addresses and networks of one version, none of which has a scope, never
  raises, and returns well-formed networks that cover exactly the addresses of the input, in
  ascending order with no two overlapping, and such that no two of them are the halves of a
  larger network.
\<close>

theorem collapse_addresses_exact:
  assumes "list_all (item_ok v) items"
  shows "\<exists>ns. collapse_addresses items = Inr ns \<and> list_all (good_net v) ns \<and>
    covered ns = (\<Union>i\<in>set items. item_addrs i) \<and> separated ns \<and> irreducible ns"
  by (rule collapse_addresses_ok[OF assms])

theorem collapse_addresses_exact_witness:
  "\<exists>ns. collapse_addresses [INet (mk_net V4 0xC0000200 25), INet (mk_net V4 0xC0000280 25)] = Inr ns \<and>
     list_all (good_net V4) ns \<and> covered ns = {0xC0000200..<0xC0000300} \<and> separated ns \<and> irreducible ns"
proof -
  let ?m = "mk_net V4 0xC0000200 25" and ?n = "mk_net V4 0xC0000280 25"
  have b: "block V4 0xC0000200 25" "block V4 0xC0000280 25" by (simp_all add: block_def)
  then have "good_net V4 ?m" "good_net V4 ?n" using mk_net_wf by (simp_all add: good_net_def)
  then have "\<exists>ns. collapse_addresses [INet ?m, INet ?n] = Inr ns \<and> list_all (good_net V4) ns \<and>
      covered ns = (\<Union>i\<in>set [INet ?m, INet ?n]. item_addrs i) \<and> separated ns \<and> irreducible ns"
    by (intro collapse_addresses_exact) (simp add: item_ok_def)
  moreover have "(\<Union>i\<in>set [INet ?m, INet ?n]. item_addrs i) = {0xC0000200..<0xC0000300}"
    using mk_net_addrs[OF b(1)] mk_net_addrs[OF b(2)] by (auto simp: item_addrs_def)
  ultimately show ?thesis by simp
qed

end
