(* ===== verification/IpClass.thy ===== *)
theory IpClass
  imports IpNet
begin

text \<open>
  The classification of addresses and networks of \<^verbatim>\<open>ipaddress.py\<close> by the special-purpose blocks of
  the IANA registries (\<^verbatim>\<open>is_private\<close>, \<^verbatim>\<open>is_global\<close> and their kin, with the embedded IPv4 address
  deciding for IPv4-mapped addresses), and interfaces: an address together with the network it
  is on.  The blocks are read from their texts by the modelled constructors, as the module does
  when it is imported.
\<close>

section \<open>Special-purpose blocks\<close>

definition const_net :: "ipver \<Rightarrow> string \<Rightarrow> network" where
  "const_net v s = projr (new_network v True (NAddr (AStr s)))"

definition linklocal_network4 :: network where
  "linklocal_network4 = const_net V4 ''169.254.0.0/16''"

definition loopback_network4 :: network where
  "loopback_network4 = const_net V4 ''127.0.0.0/8''"

definition multicast_network4 :: network where
  "multicast_network4 = const_net V4 ''224.0.0.0/4''"

definition public_network4 :: network where
  "public_network4 = const_net V4 ''100.64.0.0/10''"

definition private_networks4 :: "network list" where
  "private_networks4 = map (const_net V4)
     [''0.0.0.0/8'', ''10.0.0.0/8'', ''127.0.0.0/8'', ''169.254.0.0/16'', ''172.16.0.0/12'', ''192.0.0.0/24'',
      ''192.0.0.170/31'', ''192.0.2.0/24'', ''192.168.0.0/16'', ''198.18.0.0/15'', ''198.51.100.0/24'',
      ''203.0.113.0/24'', ''240.0.0.0/4'', ''255.255.255.255/32'']"

definition private_networks_exceptions4 :: "network list" where
  "private_networks_exceptions4 = map (const_net V4) [''192.0.0.9/32'', ''192.0.0.10/32'']"

definition reserved_network4 :: network where
  "reserved_network4 = const_net V4 ''240.0.0.0/4''"

definition linklocal_network6 :: network where
  "linklocal_network6 = const_net V6 ''fe80::/10''"

definition multicast_network6 :: network where
  "multicast_network6 = const_net V6 ''ff00::/8''"

definition private_networks6 :: "network list" where
  "private_networks6 = map (const_net V6)
     [''::1/128'', ''::/128'', ''::ffff:0:0/96'', ''64:ff9b:1::/48'', ''100::/64'', ''2001::/23'', ''2001:db8::/32'',
      ''2002::/16'', ''3fff::/20'', ''fc00::/7'', ''fe80::/10'']"

definition private_networks_exceptions6 :: "network list" where
  "private_networks_exceptions6 = map (const_net V6)
     [''2001:1::1/128'', ''2001:1::2/128'', ''2001:3::/32'', ''2001:4:112::/48'', ''2001:20::/28'', ''2001:30::/28'']"

definition reserved_networks6 :: "network list" where
  "reserved_networks6 = map (const_net V6)
     [''::/8'', ''100::/8'', ''200::/7'', ''400::/6'', ''800::/5'', ''1000::/4'', ''4000::/3'', ''6000::/3'', ''8000::/3'',
      ''A000::/3'', ''C000::/3'', ''E000::/4'', ''F000::/5'', ''F800::/6'', ''FE00::/9'']"

definition sitelocal_network6 :: network where
  "sitelocal_network6 = const_net V6 ''fec0::/10''"

section \<open>Addresses\<close>

abbreviation addr_in :: "ip_addr \<Rightarrow> network \<Rightarrow> bool" where
  "addr_in a n \<equiv> contains n (version a) (ip_of a)"

definition is_reserved4 :: "ip_addr \<Rightarrow> bool" where
  "is_reserved4 a \<longleftrightarrow> addr_in a reserved_network4"

definition is_private4 :: "ip_addr \<Rightarrow> bool" where
  "is_private4 a \<longleftrightarrow> list_ex (addr_in a) private_networks4 \<and> list_all (\<lambda>n. \<not> addr_in a n) private_networks_exceptions4"

definition is_global4 :: "ip_addr \<Rightarrow> bool" where
  "is_global4 a \<longleftrightarrow> \<not> addr_in a public_network4 \<and> \<not> is_private4 a"

definition is_multicast4 :: "ip_addr \<Rightarrow> bool" where
  "is_multicast4 a \<longleftrightarrow> addr_in a multicast_network4"

definition is_unspecified4 :: "ip_addr \<Rightarrow> bool" where
  "is_unspecified4 a \<longleftrightarrow> addr_eq a (projr (IPv4Address (AStr ''0.0.0.0'')))"

definition is_loopback4 :: "ip_addr \<Rightarrow> bool" where
  "is_loopback4 a \<longleftrightarrow> addr_in a loopback_network4"

definition is_link_local4 :: "ip_addr \<Rightarrow> bool" where
  "is_link_local4 a \<longleftrightarrow> addr_in a linklocal_network4"

text \<open>\<^verbatim>\<open>if self.ipv4_mapped is not None\<close>: the embedded address decides.\<close>

definition by_mapped :: "(ip_addr \<Rightarrow> bool) \<Rightarrow> (ip_addr \<Rightarrow> bool) \<Rightarrow> ip_addr \<Rightarrow> bool result" where
  "by_mapped f4 f6 a = bindE (ipv4_mapped a) (\<lambda>m. case m of Some b \<Rightarrow> Inr (f4 b) | None \<Rightarrow> Inr (f6 a))"

definition is_multicast6 :: "ip_addr \<Rightarrow> bool result" where
  "is_multicast6 = by_mapped is_multicast4 (\<lambda>a. addr_in a multicast_network6)"

definition is_reserved6 :: "ip_addr \<Rightarrow> bool result" where
  "is_reserved6 = by_mapped is_reserved4 (\<lambda>a. list_ex (addr_in a) reserved_networks6)"

definition is_link_local6 :: "ip_addr \<Rightarrow> bool result" where
  "is_link_local6 = by_mapped is_link_local4 (\<lambda>a. addr_in a linklocal_network6)"

definition is_site_local6 :: "ip_addr \<Rightarrow> bool" where
  "is_site_local6 a \<longleftrightarrow> addr_in a sitelocal_network6"

definition is_private6 :: "ip_addr \<Rightarrow> bool result" where
  "is_private6 = by_mapped is_private4 (\<lambda>a. list_ex (addr_in a) private_networks6 \<and>
     list_all (\<lambda>n. \<not> addr_in a n) private_networks_exceptions6)"

definition is_global6 :: "ip_addr \<Rightarrow> bool result" where
  "is_global6 a = bindE (ipv4_mapped a) (\<lambda>m. case m of
     Some b \<Rightarrow> Inr (is_global4 b)
   | None \<Rightarrow> bindE (is_private6 a) (\<lambda>p. Inr (\<not> p)))"

definition is_unspecified6 :: "ip_addr \<Rightarrow> bool result" where
  "is_unspecified6 = by_mapped is_unspecified4 (\<lambda>a. ip_of a = 0)"

definition is_loopback6 :: "ip_addr \<Rightarrow> bool result" where
  "is_loopback6 = by_mapped is_loopback4 (\<lambda>a. ip_of a = 1)"

section \<open>Networks\<close>

definition net_ends_are :: "(ip_addr \<Rightarrow> bool result) \<Rightarrow> network \<Rightarrow> bool result" where
  "net_ends_are f n =
     bindE (f (network_address n)) (\<lambda>b.
       if b then bindE (address_class (n_version n) (AInt (broadcast_address n))) f else Inr False)"

definition net_is_multicast :: "network \<Rightarrow> bool result" where
  "net_is_multicast n = net_ends_are (case n_version n of V4 \<Rightarrow> \<lambda>a. Inr (is_multicast4 a) | V6 \<Rightarrow> is_multicast6) n"

definition net_is_reserved :: "network \<Rightarrow> bool result" where
  "net_is_reserved n = net_ends_are (case n_version n of V4 \<Rightarrow> \<lambda>a. Inr (is_reserved4 a) | V6 \<Rightarrow> is_reserved6) n"

definition net_is_link_local :: "network \<Rightarrow> bool result" where
  "net_is_link_local n = net_ends_are (case n_version n of V4 \<Rightarrow> \<lambda>a. Inr (is_link_local4 a) | V6 \<Rightarrow> is_link_local6) n"

definition net_is_unspecified :: "network \<Rightarrow> bool result" where
  "net_is_unspecified n = net_ends_are (case n_version n of V4 \<Rightarrow> \<lambda>a. Inr (is_unspecified4 a) | V6 \<Rightarrow> is_unspecified6) n"

definition net_is_loopback :: "network \<Rightarrow> bool result" where
  "net_is_loopback n = net_ends_are (case n_version n of V4 \<Rightarrow> \<lambda>a. Inr (is_loopback4 a) | V6 \<Rightarrow> is_loopback6) n"

definition net_is_site_local :: "network \<Rightarrow> bool result" where
  "net_is_site_local = net_ends_are (\<lambda>a. Inr (is_site_local6 a))"

definition net_is_private :: "network \<Rightarrow> bool" where
  "net_is_private n =
     (let nets = (case n_version n of V4 \<Rightarrow> private_networks4 | V6 \<Rightarrow> private_networks6);
          exceptions = (case n_version n of V4 \<Rightarrow> private_networks_exceptions4 | V6 \<Rightarrow> private_networks_exceptions6);
          within = (\<lambda>a p. contains p (n_version n) a)
      in list_ex (\<lambda>p. within (lo n) p \<and> within (broadcast_address n) p) nets \<and>
         list_all (\<lambda>p. \<not> within (lo n) p \<and> \<not> within (broadcast_address n) p) exceptions)"

definition net_is_global :: "network \<Rightarrow> bool" where
  "net_is_global n = (case n_version n of
     V4 \<Rightarrow> \<not> (contains public_network4 V4 (lo n) \<and> contains public_network4 V4 (broadcast_address n)) \<and> \<not> net_is_private n
   | V6 \<Rightarrow> \<not> net_is_private n)"

section \<open>Interfaces\<close>

record interface =
  i_addr :: ip_addr
  i_network :: network

definition new_interface :: "ipver \<Rightarrow> net_arg \<Rightarrow> interface result" where
  "new_interface v arg =
     bindE (split_addr_prefix v arg) (\<lambda>(addr, mask).
     bindE (address_class v addr) (\<lambda>a.
     bindE (new_network v False (NTuple addr (Some mask))) (\<lambda>n.
       Inr \<lparr>i_addr = a, i_network = n\<rparr>)))"

definition ip_interface :: "net_arg \<Rightarrow> interface result" where
  "ip_interface arg = (case new_interface V4 arg of
     Inr n \<Rightarrow> Inr n
   | Inl e \<Rightarrow> if e = AddressValueError \<or> e = NetmaskValueError
       then (case new_interface V6 arg of
               Inr n \<Rightarrow> Inr n
             | Inl e \<Rightarrow> if e = AddressValueError \<or> e = NetmaskValueError then Inl ValueError else Inl e)
       else Inl e)"

definition iface_str :: "interface \<Rightarrow> string result" where
  "iface_str i = bindE (str_addr (i_addr i)) (\<lambda>s. Inr (s @ ''/'' @ show_base 10 (prefixlen (i_network i))))"

definition iface_eq :: "interface \<Rightarrow> interface \<Rightarrow> bool" where
  "iface_eq i j \<longleftrightarrow> addr_eq (i_addr i) (i_addr j) \<and> net_eq (i_network i) (i_network j)"

text \<open>The comparison of an interface with anything that has an address: an object without a network
  (a bare address) is not equal, since its missing attribute is caught.\<close>

definition iface_eq_other :: "interface \<Rightarrow> ip_addr \<Rightarrow> network option \<Rightarrow> bool" where
  "iface_eq_other i a net \<longleftrightarrow> addr_eq (i_addr i) a \<and> (case net of Some n \<Rightarrow> net_eq (i_network i) n | None \<Rightarrow> False)"

definition iface_lt :: "interface \<Rightarrow> interface \<Rightarrow> bool result" where
  "iface_lt i j =
     bindE (addr_lt (i_addr i) (i_addr j)) (\<lambda>address_less.
     bindE (net_lt (i_network i) (i_network j)) (\<lambda>lt.
       Inr (lt \<or> net_eq (i_network i) (i_network j) \<and> address_less)))"

definition iface_ip :: "interface \<Rightarrow> ip_addr result" where
  "iface_ip i = address_class (version (i_addr i)) (AInt (ip_of (i_addr i)))"

definition iface_ip_str :: "interface \<Rightarrow> string result" where
  "iface_ip_str i = (case version (i_addr i) of
     V4 \<Rightarrow> Inr (string_from_ip_int4 (ip_of (i_addr i)))
   | V6 \<Rightarrow> string_from_ip_int6 (ip_of (i_addr i)))"

definition iface_with_prefixlen :: "interface \<Rightarrow> string result" where
  "iface_with_prefixlen i = bindE (iface_ip_str i) (\<lambda>s. Inr (s @ ''/'' @ show_base 10 (prefixlen (i_network i))))"

definition iface_with_netmask :: "interface \<Rightarrow> string result" where
  "iface_with_netmask i =
     bindE (iface_ip_str i) (\<lambda>s.
     bindE (str_addr \<lparr>version = n_version (i_network i), ip_of = netmask (i_network i), scope_id = None\<rparr>) (\<lambda>m.
       Inr (s @ ''/'' @ m)))"

definition iface_with_hostmask :: "interface \<Rightarrow> string result" where
  "iface_with_hostmask i =
     bindE (iface_ip_str i) (\<lambda>s.
     bindE (str_addr \<lparr>version = n_version (i_network i), ip_of = hostmask (i_network i), scope_id = None\<rparr>) (\<lambda>m.
       Inr (s @ ''/'' @ m)))"

text \<open>\<^verbatim>\<open>is_unspecified\<close> of an IPv4 interface is the inherited one, whose \<^verbatim>\<open>==\<close> is that of interfaces; IPv6
  interfaces have their own \<^verbatim>\<open>is_unspecified\<close> and \<^verbatim>\<open>is_loopback\<close>.\<close>

definition iface_is_unspecified4 :: "interface \<Rightarrow> bool" where
  "iface_is_unspecified4 i \<longleftrightarrow> iface_eq_other i (projr (IPv4Address (AStr ''0.0.0.0''))) None"

definition iface_is_unspecified6 :: "interface \<Rightarrow> bool result" where
  "iface_is_unspecified6 i = (if ip_of (i_addr i) = 0 then net_is_unspecified (i_network i) else Inr False)"

definition iface_is_loopback6 :: "interface \<Rightarrow> bool result" where
  "iface_is_loopback6 i =
     bindE (is_loopback6 (i_addr i)) (\<lambda>b. if b then net_is_loopback (i_network i) else Inr False)"

section \<open>Sorting keys\<close>

datatype mixed_key = NetworkKey ipver ip_addr int | AddressKey ipver ip_addr

definition get_networks_key :: "network \<Rightarrow> mixed_key" where
  "get_networks_key n = NetworkKey (n_version n) (network_address n) (netmask n)"

definition get_address_key :: "ip_addr \<Rightarrow> mixed_key" where
  "get_address_key a = AddressKey (version a) a"

text \<open>The argument is a network or an address; anything else is \<^verbatim>\<open>NotImplemented\<close>.\<close>

datatype mixed_obj = MNet network | MAddr ip_addr | MOther

definition get_mixed_type_key :: "mixed_obj \<Rightarrow> mixed_key option" where
  "get_mixed_type_key obj = (case obj of
     MNet n \<Rightarrow> Some (get_networks_key n)
   | MAddr a \<Rightarrow> Some (get_address_key a)
   | MOther \<Rightarrow> None)"

section \<open>The IPv4 blocks as intervals\<close>

lemma quad_text:
  assumes "o1 < 256" and "o2 < 256" and "o3 < 256" and "o4 < 256"
  shows "string_from_ip_int4 (((int o1 * 256 + int o2) * 256 + int o3) * 256 + int o4) =
    show_base 10 o1 @ ''.'' @ show_base 10 o2 @ ''.'' @ show_base 10 o3 @ ''.'' @ show_base 10 o4"
proof -
  have n: "nat (((int o1 * 256 + int o2) * 256 + int o3) * 256 + int o4) = ((o1 * 256 + o2) * 256 + o3) * 256 + o4"
    by (simp add: nat_add_distrib nat_mult_distrib)
  have "be_bytes 4 (((o1 * 256 + o2) * 256 + o3) * 256 + o4) = [of_nat o1, of_nat o2, of_nat o3, of_nat o4]"
    using assms by (intro be_bytesI) (auto simp: be_val_def unat_of_nat)
  then show ?thesis using assms unfolding string_from_ip_int4_alt n by (simp add: unat_of_nat)
qed

lemma const_netI:
  assumes "a = ((int o1 * 256 + int o2) * 256 + int o3) * 256 + int o4"
    and "o1 < 256" and "o2 < 256" and "o3 < 256" and "o4 < 256" and "block V4 a p"
    and "s = show_base 10 o1 @ ''.'' @ show_base 10 o2 @ ''.'' @ show_base 10 o3 @ ''.'' @ show_base 10 o4 @ ''/'' @ show_base 10 p"
  shows "const_net V4 s = mk_net V4 a p"
proof -
  obtain t where t: "net_str (mk_net V4 a p) = Inr t" "new_network V4 True (NAddr (AStr t)) = Inr (mk_net V4 a p)"
    using net_str_reads_back[of "mk_net V4 a p"] mk_net_wf[OF assms(6)] by auto
  have "t = s" using t(1) quad_text[OF assms(2-5)] by (simp add: net_str_def str_addr_def assms(1,7))
  with t(2) show ?thesis by (simp add: const_net_def)
qed

named_theorems const_nets \<open>the texts of the IPv4 blocks, read\<close>

lemma const_net_169_254_0_0_16 [const_nets]: "const_net V4 ''169.254.0.0/16'' = mk_net V4 0xA9FE0000 16"
  by (rule const_netI[of _ 169 254 0 0]) (simp_all add: block_def show_base_lits)

lemma const_net_127_0_0_0_8 [const_nets]: "const_net V4 ''127.0.0.0/8'' = mk_net V4 0x7F000000 8"
  by (rule const_netI[of _ 127 0 0 0]) (simp_all add: block_def show_base_lits)

lemma const_net_224_0_0_0_4 [const_nets]: "const_net V4 ''224.0.0.0/4'' = mk_net V4 0xE0000000 4"
  by (rule const_netI[of _ 224 0 0 0]) (simp_all add: block_def show_base_lits)

lemma const_net_100_64_0_0_10 [const_nets]: "const_net V4 ''100.64.0.0/10'' = mk_net V4 0x64400000 10"
  by (rule const_netI[of _ 100 64 0 0]) (simp_all add: block_def show_base_lits)

lemma const_net_0_0_0_0_8 [const_nets]: "const_net V4 ''0.0.0.0/8'' = mk_net V4 0 8"
  by (rule const_netI[of _ 0 0 0 0]) (simp_all add: block_def show_base_lits)

lemma const_net_10_0_0_0_8 [const_nets]: "const_net V4 ''10.0.0.0/8'' = mk_net V4 0xA000000 8"
  by (rule const_netI[of _ 10 0 0 0]) (simp_all add: block_def show_base_lits)

lemma const_net_172_16_0_0_12 [const_nets]: "const_net V4 ''172.16.0.0/12'' = mk_net V4 0xAC100000 12"
  by (rule const_netI[of _ 172 16 0 0]) (simp_all add: block_def show_base_lits)

lemma const_net_192_0_0_0_24 [const_nets]: "const_net V4 ''192.0.0.0/24'' = mk_net V4 0xC0000000 24"
  by (rule const_netI[of _ 192 0 0 0]) (simp_all add: block_def show_base_lits)

lemma const_net_192_0_0_170_31 [const_nets]: "const_net V4 ''192.0.0.170/31'' = mk_net V4 0xC00000AA 31"
  by (rule const_netI[of _ 192 0 0 170]) (simp_all add: block_def show_base_lits)

lemma const_net_192_0_2_0_24 [const_nets]: "const_net V4 ''192.0.2.0/24'' = mk_net V4 0xC0000200 24"
  by (rule const_netI[of _ 192 0 2 0]) (simp_all add: block_def show_base_lits)

lemma const_net_192_168_0_0_16 [const_nets]: "const_net V4 ''192.168.0.0/16'' = mk_net V4 0xC0A80000 16"
  by (rule const_netI[of _ 192 168 0 0]) (simp_all add: block_def show_base_lits)

lemma const_net_198_18_0_0_15 [const_nets]: "const_net V4 ''198.18.0.0/15'' = mk_net V4 0xC6120000 15"
  by (rule const_netI[of _ 198 18 0 0]) (simp_all add: block_def show_base_lits)

lemma const_net_198_51_100_0_24 [const_nets]: "const_net V4 ''198.51.100.0/24'' = mk_net V4 0xC6336400 24"
  by (rule const_netI[of _ 198 51 100 0]) (simp_all add: block_def show_base_lits)

lemma const_net_203_0_113_0_24 [const_nets]: "const_net V4 ''203.0.113.0/24'' = mk_net V4 0xCB007100 24"
  by (rule const_netI[of _ 203 0 113 0]) (simp_all add: block_def show_base_lits)

lemma const_net_240_0_0_0_4 [const_nets]: "const_net V4 ''240.0.0.0/4'' = mk_net V4 0xF0000000 4"
  by (rule const_netI[of _ 240 0 0 0]) (simp_all add: block_def show_base_lits)

lemma const_net_255_255_255_255_32 [const_nets]: "const_net V4 ''255.255.255.255/32'' = mk_net V4 0xFFFFFFFF 32"
  by (rule const_netI[of _ 255 255 255 255]) (simp_all add: block_def show_base_lits)

lemma const_net_192_0_0_9_32 [const_nets]: "const_net V4 ''192.0.0.9/32'' = mk_net V4 0xC0000009 32"
  by (rule const_netI[of _ 192 0 0 9]) (simp_all add: block_def show_base_lits)

lemma const_net_192_0_0_10_32 [const_nets]: "const_net V4 ''192.0.0.10/32'' = mk_net V4 0xC000000A 32"
  by (rule const_netI[of _ 192 0 0 10]) (simp_all add: block_def show_base_lits)

lemma blocks4 [const_nets]:
  "linklocal_network4 = mk_net V4 0xA9FE0000 16" "loopback_network4 = mk_net V4 0x7F000000 8"
  "multicast_network4 = mk_net V4 0xE0000000 4" "public_network4 = mk_net V4 0x64400000 10"
  "reserved_network4 = mk_net V4 0xF0000000 4"
  by (simp_all only: linklocal_network4_def loopback_network4_def multicast_network4_def public_network4_def
      reserved_network4_def const_nets)

lemmas private_blocks4 = private_networks4_def[unfolded list.map const_nets]
  private_networks_exceptions4_def[unfolded list.map const_nets]

lemma contains_mk_net:
  assumes "block v b p" and "0 \<le> a" and "a < 2 ^ max_prefixlen v"
  shows "contains (mk_net v b p) v a \<longleftrightarrow> b \<le> a \<and> a < b + 2 ^ host_bits v p"
  using contains_interval[of "mk_net v b p" a v] mk_net_wf[OF assms(1)] mk_net_addrs[OF assms(1)] assms(2,3) by simp

section \<open>Interfaces carry their network\<close>

lemma new_interface_parts:
  assumes "new_interface v arg = Inr i"
  obtains addr mask p where "address_class v addr = Inr (i_addr i)" and "make_netmask v mask = Inr (ip_int_from_prefix v p, p)"
    and "p \<le> max_prefixlen v" and "new_network v False (NTuple addr (Some mask)) = Inr (i_network i)"
    and "prefixlen (i_network i) = p"
proof -
  from assms obtain addr mask where a: "address_class v addr = Inr (i_addr i)"
    and n: "new_network v False (NTuple addr (Some mask)) = Inr (i_network i)"
    by (auto simp: new_interface_def bindE_eq_Inr_iff)
  then obtain nm p where m: "make_netmask v mask = Inr (nm, p)" and p: "prefixlen (i_network i) = p"
    by (auto simp: new_network_def split_addr_prefix_def Let_def bindE_eq_Inr_iff split: if_splits
        dest!: sym[of _ "i_network i"])
  from make_netmask_ok[OF m] have "p \<le> max_prefixlen v" and "make_netmask v mask = Inr (ip_int_from_prefix v p, p)"
    using m by auto
  with a n p that show ?thesis by blast
qed

lemma new_network_same:
  assumes "address_class v addr = address_class v addr'" and "make_netmask v mk = make_netmask v mq"
  shows "new_network v strict (NTuple addr (Some mk)) = new_network v strict (NTuple addr' (Some mq))"
  using assms by (simp add: new_network_def split_addr_prefix_def)

lemma new_interface_reads_back:
  assumes "new_interface v arg = Inr i"
  shows "\<exists>s. iface_str i = Inr s \<and> new_interface v (NAddr (AStr s)) = Inr i"
proof -
  obtain addr mask p where a: "address_class v addr = Inr (i_addr i)"
    and m: "make_netmask v mask = Inr (ip_int_from_prefix v p, p)" and p: "p \<le> max_prefixlen v"
    and n: "new_network v False (NTuple addr (Some mask)) = Inr (i_network i)" and pl: "prefixlen (i_network i) = p"
    using new_interface_parts[OF assms] .
  have w: "wf_addr (i_addr i)" "version (i_addr i) = v" using address_class_ok[OF a] by auto
  obtain t where t: "str_addr (i_addr i) = Inr t" "address_class v (AStr t) = Inr (i_addr i)"
    using str_addr_reads_back[OF w(1)] w(2) by auto
  have "py_split CHR ''/'' (t @ ''/'' @ show_base 10 p) = [t, show_base 10 p]"
    using address_class_no_slash[OF t(2)] by (simp add: py_split_append_sep py_split_no_sep)
  then have "split_addr_prefix v (NAddr (AStr (t @ ''/'' @ show_base 10 p))) = Inr (AStr t, MStr (show_base 10 p))"
    by (simp add: split_addr_prefix_def split_optional_netmask_def)
  moreover have "new_network v False (NTuple (AStr t) (Some (MStr (show_base 10 p)))) = Inr (i_network i)"
    using new_network_same[of v "AStr t" addr "MStr (show_base 10 p)" mask] a t(2) m n make_netmask_string[OF p] by simp
  ultimately have "new_interface v (NAddr (AStr (t @ ''/'' @ show_base 10 p))) = Inr i"
    using t(2) by (simp add: new_interface_def)
  then show ?thesis using t(1) pl by (simp add: iface_str_def)
qed

lemma new_interface_member:
  assumes "new_interface v arg = Inr i"
  shows "wf_net (i_network i) \<and> n_version (i_network i) = v \<and> ip_of (i_addr i) \<in> addrs (i_network i)"
proof -
  obtain addr mask p where a: "address_class v addr = Inr (i_addr i)"
    and m: "make_netmask v mask = Inr (ip_int_from_prefix v p, p)" and p: "p \<le> max_prefixlen v"
    and n: "new_network v False (NTuple addr (Some mask)) = Inr (i_network i)"
    using new_interface_parts[OF assms] .
  let ?x = "ip_of (i_addr i)" and ?nm = "ip_int_from_prefix v p"
  have w: "wf_net (i_network i)" "n_version (i_network i) = v" using new_network_ok[OF n] by auto
  have x: "0 \<le> ?x" "?x < 2 ^ max_prefixlen v" using address_class_ok[OF a] by (auto simp: wf_addr_def)
  have b: "block v (?x AND ?nm) p" by (rule and_masked[OF x p])
  have "netmask (i_network i) = ?nm \<and> lo (i_network i) = ?x AND ?nm"
    using n a m address_class_int[of "?x AND ?nm" v] b
    by (auto simp: new_network_def split_addr_prefix_def Let_def block_def split: if_splits
        dest!: sym[of _ "i_network i"])
  then have "contains (i_network i) v ?x" using w by (simp add: contains_def)
  then show ?thesis using contains_interval[OF w(1)] x w by simp
qed

lemma iface_eq_is_other: "iface_eq i j \<longleftrightarrow> iface_eq_other i (i_addr j) (Some (i_network j))"
  by (simp add: iface_eq_def iface_eq_other_def)

text \<open>Comparing with the unspecified address, which has no network, \<^verbatim>\<open>is_unspecified\<close> is false of every
  IPv4 interface, 0.0.0.0 included.\<close>

theorem ipv4_interface_never_unspecified: "\<not> iface_is_unspecified4 i"
  by (simp add: iface_is_unspecified4_def iface_eq_other_def)

lemma iface_ip_drops_scope:
  assumes "new_interface v arg = Inr i"
  shows "iface_ip i = Inr \<lparr>version = v, ip_of = ip_of (i_addr i), scope_id = None\<rparr>"
proof -
  obtain addr where "address_class v addr = Inr (i_addr i)" using new_interface_parts[OF assms] .
  from address_class_ok[OF this] show ?thesis
    using address_class_int[of "ip_of (i_addr i)" v] by (auto simp: iface_ip_def wf_addr_def)
qed

text \<open>Networks of one version have equal sorting keys exactly when they are equal.\<close>

lemma get_networks_key_inject: "wf_net m \<Longrightarrow> wf_net n \<Longrightarrow> get_networks_key m = get_networks_key n \<longleftrightarrow> m = n"
  using net_eq_iff[of m n] by (auto simp: get_networks_key_def net_eq_def addr_eq_def)

section \<open>Properties\<close>

text \<open>
  C26: Which IPv4 addresses are private and which are global: \<^verbatim>\<open>is_private\<close> holds exactly on the
  listed blocks without 192.0.0.9 and 192.0.0.10, \<^verbatim>\<open>is_global\<close> is its opposite except on the
  shared space 100.64.0.0/10, where both are false.
\<close>

theorem private_global_ipv4:
  assumes "wf_addr a" and "version a = V4"
  shows "(is_private4 a \<longleftrightarrow>
      list_ex (\<lambda>(l, h). l \<le> ip_of a \<and> ip_of a < h)
        [(0, 0x01000000), (0x0A000000, 0x0B000000), (0x7F000000, 0x80000000), (0xA9FE0000, 0xA9FF0000),
         (0xAC100000, 0xAC200000), (0xC0000000, 0xC0000100), (0xC00000AA, 0xC00000AC), (0xC0000200, 0xC0000300),
         (0xC0A80000, 0xC0A90000), (0xC6120000, 0xC6140000), (0xC6336400, 0xC6336500), (0xCB007100, 0xCB007200),
         (0xF0000000, 0x100000000), (0xFFFFFFFF, 0x100000000)] \<and>
      ip_of a \<noteq> 0xC0000009 \<and> ip_of a \<noteq> 0xC000000A) \<and>
    (is_global4 a \<longleftrightarrow> \<not> is_private4 a \<and> \<not> (0x64400000 \<le> ip_of a \<and> ip_of a < 0x64800000)) \<and>
    (0x64400000 \<le> ip_of a \<and> ip_of a < 0x64800000 \<longrightarrow> \<not> is_private4 a \<and> \<not> is_global4 a)"
proof -
  let ?x = "ip_of a"
  have x: "0 \<le> ?x" "?x < 2 ^ max_prefixlen V4" using assms by (auto simp: wf_addr_def)
  have c: "contains (mk_net V4 b p) V4 ?x \<longleftrightarrow> b \<le> ?x \<and> ?x < b + 2 ^ host_bits V4 p" if "block V4 b p" for b p
    by (rule contains_mk_net[OF that x])
  have one: "b \<le> ?x \<and> ?x < b + 1 \<longleftrightarrow> ?x = b" for b by auto
  have priv: "is_private4 a \<longleftrightarrow>
      list_ex (\<lambda>(l, h). l \<le> ?x \<and> ?x < h)
        [(0, 0x01000000), (0x0A000000, 0x0B000000), (0x7F000000, 0x80000000), (0xA9FE0000, 0xA9FF0000),
         (0xAC100000, 0xAC200000), (0xC0000000, 0xC0000100), (0xC00000AA, 0xC00000AC), (0xC0000200, 0xC0000300),
         (0xC0A80000, 0xC0A90000), (0xC6120000, 0xC6140000), (0xC6336400, 0xC6336500), (0xCB007100, 0xCB007200),
         (0xF0000000, 0x100000000), (0xFFFFFFFF, 0x100000000)] \<and>
      ?x \<noteq> 0xC0000009 \<and> ?x \<noteq> 0xC000000A"
    unfolding is_private4_def private_blocks4 assms(2)
    using one[of "0xC0000009"] one[of "0xC000000A"] by (simp add: c block_def)
  have glob: "is_global4 a \<longleftrightarrow> \<not> is_private4 a \<and> \<not> (0x64400000 \<le> ?x \<and> ?x < 0x64800000)"
    unfolding is_global4_def blocks4 assms(2) by (auto simp: c block_def)
  have "\<not> is_private4 a" if "0x64400000 \<le> ?x" "?x < 0x64800000" unfolding priv using that by simp
  with priv glob show ?thesis by blast
qed

theorem private_global_ipv4_witness:
  "is_private4 \<lparr>version = V4, ip_of = 0xC0A80101, scope_id = None\<rparr> \<and>
   is_global4 \<lparr>version = V4, ip_of = 0x08080808, scope_id = None\<rparr>"
  using private_global_ipv4[of "\<lparr>version = V4, ip_of = 0xC0A80101, scope_id = None\<rparr>"]
    private_global_ipv4[of "\<lparr>version = V4, ip_of = 0x08080808, scope_id = None\<rparr>"]
  by (simp add: wf_addr_def)

text \<open>
  C27: An interface that the constructors accept holds a well-formed network that contains its
  address, and prints as text that is read back as the same interface.
\<close>

theorem interface_sound:
  assumes "new_interface v arg = Inr i"
  shows "wf_net (i_network i) \<and> n_version (i_network i) = v \<and> ip_of (i_addr i) \<in> addrs (i_network i) \<and>
    (\<exists>s. iface_str i = Inr s \<and> new_interface v (NAddr (AStr s)) = Inr i)"
  using new_interface_member[OF assms] new_interface_reads_back[OF assms] by blast

theorem interface_sound_witness:
  "\<exists>i. new_interface V4 (NTuple (AInt 0xC0000205) (Some (MInt 24))) = Inr i \<and> ip_of (i_addr i) \<in> addrs (i_network i)"
proof -
  have "make_netmask V4 (MInt 24) = Inr (ip_int_from_prefix V4 24, 24)" using make_netmask_int[of 24 V4] by simp
  moreover have "address_class V4 (AInt 0xC0000205) = Inr \<lparr>version = V4, ip_of = 0xC0000205, scope_id = None\<rparr>"
    "address_class V4 (AInt 0xC0000200) = Inr \<lparr>version = V4, ip_of = 0xC0000200, scope_id = None\<rparr>"
    by (rule address_class_int, simp, simp)+
  moreover have "(0xC0000205 :: int) AND ip_int_from_prefix V4 24 = 0xC0000200"
    using and_upper_mask[of 8 32 "0xC0000205"] by (simp add: ip_int_from_prefix_val)
  ultimately obtain i where "new_interface V4 (NTuple (AInt 0xC0000205) (Some (MInt 24))) = Inr i"
    by (auto simp: new_interface_def new_network_def split_addr_prefix_def Let_def)
  with interface_sound[OF this] show ?thesis by blast
qed

end
