(* ===== verification/Heapq.thy ===== *)
theory Heapq
  imports Prelude "HOL-Library.Multiset" "HOL-Library.Product_Lexorder"
begin

text \<open>
  \<^verbatim>\<open>heapq.py\<close> of the shipped Python runtime: binary heaps in a list, as min-heaps and max-heaps,
  merging of sorted inputs and selection of the smallest or largest items.  The functions take
  the comparison as an argument, so that the two copies of the sifting code in the source are
  instances of one; a contract on comparisons (\<open>weak_order\<close>) carries the heap invariant, and a
  heap is shown to be a priority queue (\<open>priority_queue\<close>) in which a drained queue is sorted.
\<close>

section \<open>Sifting\<close>

definition parent :: "nat \<Rightarrow> nat" where
  "parent i = (i - 1) div 2"

lemma parent_less [simp]: "0 < i \<Longrightarrow> parent i < i"
  by (simp add: parent_def)

lemma parent_le [simp]: "parent i \<le> i"
  by (simp add: parent_def)

lemma parent_less_trans [simp]: "i < n \<Longrightarrow> parent i < n"
  using le_less_trans parent_le by blast

lemma parent_neq [simp]: "0 < i \<Longrightarrow> parent i \<noteq> i \<and> i \<noteq> parent i"
  by (auto simp: parent_def)

lemma le_parent: "s \<le> parent i \<Longrightarrow> 0 < i \<Longrightarrow> s < i"
  using parent_less le_less_trans by blast

lemma parent_child_iff: "0 < c \<Longrightarrow> parent c = p \<longleftrightarrow> c = 2 * p + 1 \<or> c = 2 * p + 2"
  unfolding parent_def by presburger

text \<open>The child to move up: the right one unless the left one is smaller.\<close>

definition sift_child :: "('a \<Rightarrow> 'a \<Rightarrow> bool) \<Rightarrow> 'a list \<Rightarrow> nat \<Rightarrow> nat" where
  "sift_child lt heap pos =
     (let childpos = 2 * pos + 1; rightpos = childpos + 1 in
      if rightpos < length heap \<and> \<not> lt (heap ! childpos) (heap ! rightpos) then rightpos else childpos)"

lemma sift_child_bounds:
  "2 * pos + 1 < length heap \<Longrightarrow> pos < sift_child lt heap pos \<and> sift_child lt heap pos < length heap
     \<and> parent (sift_child lt heap pos) = pos"
  by (auto simp: sift_child_def Let_def parent_def)

function siftdown_loop :: "('a \<Rightarrow> 'a \<Rightarrow> bool) \<Rightarrow> 'a list \<Rightarrow> nat \<Rightarrow> nat \<Rightarrow> 'a \<Rightarrow> 'a list" where
  "siftdown_loop lt heap startpos pos newitem =
     (if startpos < pos then
        let parentpos = parent pos; par = heap ! parentpos in
        if lt newitem par then siftdown_loop lt (heap[pos := par]) startpos parentpos newitem
        else heap[pos := newitem]
      else heap[pos := newitem])"
  by pat_completeness auto
termination
  by (relation "measure (\<lambda>(_, _, _, pos, _). pos)") auto

declare siftdown_loop.simps [simp del]

definition siftdown :: "('a \<Rightarrow> 'a \<Rightarrow> bool) \<Rightarrow> 'a list \<Rightarrow> nat \<Rightarrow> nat \<Rightarrow> 'a list" where
  "siftdown lt heap startpos pos = siftdown_loop lt heap startpos pos (heap ! pos)"

function siftup_loop :: "('a \<Rightarrow> 'a \<Rightarrow> bool) \<Rightarrow> 'a list \<Rightarrow> nat \<Rightarrow> 'a list \<times> nat" where
  "siftup_loop lt heap pos =
     (if 2 * pos + 1 < length heap then
        let childpos = sift_child lt heap pos in siftup_loop lt (heap[pos := heap ! childpos]) childpos
      else (heap, pos))"
  by pat_completeness auto
termination
  by (relation "measure (\<lambda>(_, heap, pos). length heap - pos)") (use sift_child_bounds in \<open>auto intro!: diff_less_mono2\<close>)

declare siftup_loop.simps [simp del]

definition siftup :: "('a \<Rightarrow> 'a \<Rightarrow> bool) \<Rightarrow> 'a list \<Rightarrow> nat \<Rightarrow> 'a list" where
  "siftup lt heap pos = (case siftup_loop lt heap pos of (heap', leaf) \<Rightarrow>
     siftdown lt (heap'[leaf := heap ! pos]) pos leaf)"

section \<open>Heap operations\<close>

text \<open>\<^verbatim>\<open>heappush\<close>, \<^verbatim>\<open>heappop\<close> and \<^verbatim>\<open>_heappop_max\<close>, \<^verbatim>\<open>heapreplace\<close> and \<^verbatim>\<open>_heapreplace_max\<close>, \<^verbatim>\<open>heappushpop\<close>,
  \<^verbatim>\<open>heapify\<close> and \<^verbatim>\<open>_heapify_max\<close> over their comparison.\<close>

definition push_heap :: "('a \<Rightarrow> 'a \<Rightarrow> bool) \<Rightarrow> 'a list \<Rightarrow> 'a \<Rightarrow> 'a list" where
  "push_heap lt heap item = (let heap = heap @ [item] in siftdown lt heap 0 (length heap - 1))"

definition pop_heap :: "('a \<Rightarrow> 'a \<Rightarrow> bool) \<Rightarrow> 'a list \<Rightarrow> ('a \<times> 'a list) result" where
  "pop_heap lt heap =
     (if heap = [] then Inl IndexError
      else let lastelt = last heap; heap = butlast heap in
        if heap \<noteq> [] then Inr (heap ! 0, siftup lt (heap[0 := lastelt]) 0)
        else Inr (lastelt, heap))"

definition replace_heap :: "('a \<Rightarrow> 'a \<Rightarrow> bool) \<Rightarrow> 'a list \<Rightarrow> 'a \<Rightarrow> ('a \<times> 'a list) result" where
  "replace_heap lt heap item =
     (if heap = [] then Inl IndexError else Inr (heap ! 0, siftup lt (heap[0 := item]) 0))"

definition heapify_with :: "('a \<Rightarrow> 'a \<Rightarrow> bool) \<Rightarrow> 'a list \<Rightarrow> 'a list" where
  "heapify_with lt x = foldl (siftup lt) x (rev [0..<length x div 2])"

definition heappush :: "'a :: linorder list \<Rightarrow> 'a \<Rightarrow> 'a list" where
  "heappush = push_heap (<)"

definition heappop :: "'a :: linorder list \<Rightarrow> ('a \<times> 'a list) result" where
  "heappop = pop_heap (<)"

definition heapreplace :: "'a :: linorder list \<Rightarrow> 'a \<Rightarrow> ('a \<times> 'a list) result" where
  "heapreplace = replace_heap (<)"

definition heappushpop :: "'a :: linorder list \<Rightarrow> 'a \<Rightarrow> 'a \<times> 'a list" where
  "heappushpop heap item =
     (if heap \<noteq> [] \<and> heap ! 0 < item then (heap ! 0, siftup (<) (heap[0 := item]) 0)
      else (item, heap))"

definition heapify :: "'a :: linorder list \<Rightarrow> 'a list" where
  "heapify = heapify_with (<)"

definition heappop_max :: "'a :: linorder list \<Rightarrow> ('a \<times> 'a list) result" where
  "heappop_max = pop_heap (\<lambda>x y. y < x)"

definition heapreplace_max :: "'a :: linorder list \<Rightarrow> 'a \<Rightarrow> ('a \<times> 'a list) result" where
  "heapreplace_max = replace_heap (\<lambda>x y. y < x)"

definition siftdown_max :: "'a :: linorder list \<Rightarrow> nat \<Rightarrow> nat \<Rightarrow> 'a list" where
  "siftdown_max = siftdown (\<lambda>x y. y < x)"

definition siftup_max :: "'a :: linorder list \<Rightarrow> nat \<Rightarrow> 'a list" where
  "siftup_max = siftup (\<lambda>x y. y < x)"

definition heapify_max :: "'a :: linorder list \<Rightarrow> 'a list" where
  "heapify_max = heapify_with (\<lambda>x y. y < x)"

section \<open>The heap invariant\<close>

text \<open>The edges of the tree whose upper end is at or after a position are in order; all of
  them for a heap.  \<open>heap_except\<close> leaves out the edge above one position, and asks that the nodes
  below that position are in order with the node above it.\<close>

definition heap_from :: "('a \<Rightarrow> 'a \<Rightarrow> bool) \<Rightarrow> nat \<Rightarrow> 'a list \<Rightarrow> bool" where
  "heap_from lt s xs \<longleftrightarrow>
     (\<forall>i < length xs. 0 < i \<and> s \<le> parent i \<longrightarrow> \<not> lt (xs ! i) (xs ! parent i))"

abbreviation is_heap :: "('a \<Rightarrow> 'a \<Rightarrow> bool) \<Rightarrow> 'a list \<Rightarrow> bool" where
  "is_heap lt \<equiv> heap_from lt 0"

definition heap_except :: "('a \<Rightarrow> 'a \<Rightarrow> bool) \<Rightarrow> nat \<Rightarrow> nat \<Rightarrow> 'a list \<Rightarrow> bool" where
  "heap_except lt s pos xs \<longleftrightarrow>
     (\<forall>i < length xs. 0 < i \<and> s \<le> parent i \<and> i \<noteq> pos \<longrightarrow> \<not> lt (xs ! i) (xs ! parent i)) \<and>
     (s < pos \<longrightarrow> (\<forall>c < length xs. 0 < c \<and> parent c = pos \<longrightarrow> \<not> lt (xs ! c) (xs ! parent pos)))"

text \<open>The hole left by moving a child up: the edges away from the position are in order.\<close>

definition heap_hole :: "('a \<Rightarrow> 'a \<Rightarrow> bool) \<Rightarrow> nat \<Rightarrow> nat \<Rightarrow> 'a list \<Rightarrow> bool" where
  "heap_hole lt s pos xs \<longleftrightarrow>
     (\<forall>i < length xs. 0 < i \<and> s \<le> parent i \<and> i \<noteq> pos \<and> parent i \<noteq> pos \<longrightarrow> \<not> lt (xs ! i) (xs ! parent i)) \<and>
     (s < pos \<longrightarrow> (\<forall>c < length xs. 0 < c \<and> parent c = pos \<longrightarrow> \<not> lt (xs ! c) (xs ! parent pos)))"

function in_sub :: "nat \<Rightarrow> nat \<Rightarrow> bool" where
  "in_sub s p = (if s < p then in_sub s (parent p) else p = s)"
  by pat_completeness auto
termination
  by (relation "measure snd") auto

declare in_sub.simps [simp del]

lemma in_sub_le: "in_sub s p \<Longrightarrow> s \<le> p"
  by (subst (asm) in_sub.simps) (auto split: if_splits)

lemma in_sub_refl [simp]: "in_sub s s"
  by (subst in_sub.simps) simp

lemma in_sub_up: "in_sub s p \<Longrightarrow> s < p \<Longrightarrow> in_sub s (parent p) \<and> s \<le> parent p"
  using in_sub.simps[of s p] in_sub_le[of s "parent p"] by simp

lemma in_sub_down: "in_sub s (parent c) \<Longrightarrow> 0 < c \<Longrightarrow> in_sub s c"
  using in_sub_le[of s "parent c"] le_parent[of s c] by (subst in_sub.simps) auto

lemma in_sub_zero [simp]: "in_sub 0 p"
  by (induction p rule: less_induct) (subst in_sub.simps, simp)

lemma mset_swap_hole:
  "p < length xs \<Longrightarrow> c < length xs \<Longrightarrow> p \<noteq> c \<Longrightarrow> mset (xs[p := xs ! c, c := x]) = mset (xs[p := x])"
  using mset_swap[of p "xs[p := x]" c] by (simp add: list_update_swap)

lemma siftdown_loop_mset:
  "pos < length heap \<Longrightarrow> mset (siftdown_loop lt heap s pos x) = mset (heap[pos := x])"
proof (induction lt heap s pos x rule: siftdown_loop.induct)
  case (1 lt heap s pos x)
  have "parent pos < length heap" "s < pos \<Longrightarrow> parent pos \<noteq> pos" using 1(2) by auto
  then show ?case
    using 1 mset_swap_hole[of pos heap "parent pos" x]
    by (subst siftdown_loop.simps) (auto simp: Let_def)
qed

lemma length_siftdown_loop [simp]: "length (siftdown_loop lt heap s pos x) = length heap"
  by (induction lt heap s pos x rule: siftdown_loop.induct) (subst siftdown_loop.simps, simp add: Let_def)

lemma siftup_loop_mset:
  assumes "siftup_loop lt heap pos = (heap', leaf)" and "pos < length heap"
  shows "mset (heap'[leaf := x]) = mset (heap[pos := x]) \<and> leaf < length heap \<and> length heap' = length heap
    \<and> length heap \<le> 2 * leaf + 1"
  using assms
proof (induction lt heap pos arbitrary: heap' leaf rule: siftup_loop.induct)
  case (1 lt heap pos)
  define c where "c = sift_child lt heap pos"
  show ?case
  proof (cases "2 * pos + 1 < length heap")
    case True
    then have c: "c < length heap" "pos \<noteq> c" using sift_child_bounds[OF True, of lt] by (auto simp: c_def)
    have "siftup_loop lt (heap[pos := heap ! c]) c = (heap', leaf)"
      using 1(2) True by (subst (asm) siftup_loop.simps) (simp add: Let_def c_def)
    then show ?thesis
      using 1(1)[OF True c_def, of heap' leaf] c mset_swap_hole[OF 1(3) c]
      by (simp add: c_def)
  next
    case False
    then show ?thesis using 1(2,3) by (subst (asm) siftup_loop.simps) (auto simp: Let_def)
  qed
qed

lemma siftup_mset [simp]:
  assumes "pos < length heap"
  shows "mset (siftup lt heap pos) = mset heap"
proof -
  obtain heap' leaf where l: "siftup_loop lt heap pos = (heap', leaf)" by force
  show ?thesis
    using siftup_loop_mset[OF l assms, of "heap ! pos"] siftdown_loop_mset[of leaf "heap'[leaf := heap ! pos]"]
    by (simp add: siftup_def siftdown_def l)
qed

lemma length_siftup [simp]: "pos < length heap \<Longrightarrow> length (siftup lt heap pos) = length heap"
  using siftup_mset mset_eq_length by blast

lemma push_heap_mset: "mset (push_heap lt heap x) = add_mset x (mset heap)"
  by (simp add: push_heap_def Let_def siftdown_def siftdown_loop_mset)

lemma heapify_mset: "mset (heapify_with lt x) = mset x"
proof -
  have "mset (foldl (siftup lt) y (rev [0..<m])) = mset y" if "m \<le> length y" for m y
    using that by (induction m arbitrary: y) auto
  then show ?thesis by (simp add: heapify_with_def)
qed

lemma mset_replace_root: "xs \<noteq> [] \<Longrightarrow> mset (xs[0 := x]) = add_mset x (mset xs - {#xs ! 0#})"
  by (simp add: mset_update)

lemma replace_heap_mset:
  "heap \<noteq> [] \<Longrightarrow> mset (siftup lt (heap[0 := x]) 0) = add_mset x (mset heap - {#heap ! 0#})"
  by (simp add: mset_replace_root)

lemma pop_heap_mset:
  assumes "heap \<noteq> []"
  shows "\<exists>heap'. pop_heap lt heap = Inr (heap ! 0, heap') \<and> mset heap' = mset heap - {#heap ! 0#}"
proof (cases "butlast heap = []")
  case True
  then obtain a where "heap = [a]" using assms by (cases heap rule: rev_cases) auto
  then show ?thesis by (simp add: pop_heap_def)
next
  case False
  then obtain a b ys where "heap = a # ys @ [b]"
    using assms by (cases heap rule: rev_cases) (auto simp: neq_Nil_conv)
  then show ?thesis by (simp add: pop_heap_def Let_def)
qed

locale weak_order =
  fixes lt :: "'a \<Rightarrow> 'a \<Rightarrow> bool"
  assumes asym: "lt x y \<Longrightarrow> \<not> lt y x"
    and neg_trans: "\<not> lt x y \<Longrightarrow> \<not> lt y z \<Longrightarrow> \<not> lt x z"
begin

lemma siftdown_step:
  assumes "heap_except lt s pos (heap[pos := x])" and "pos < length heap" and "s < pos"
    and "in_sub s pos" and "lt x (heap ! parent pos)"
  shows "heap_except lt s (parent pos) (heap[pos := heap ! parent pos, parent pos := x])"
proof -
  define p where "p = parent pos"
  have p: "p < pos" "s \<le> p" "p < length heap" using assms in_sub_up[of s pos] by (auto simp: p_def)
  let ?h = "heap[pos := x]" and ?h' = "heap[pos := heap ! p, p := x]"
  have edge: "\<not> lt (?h ! i) (?h ! parent i)" if "i < length heap" "0 < i" "s \<le> parent i" "i \<noteq> pos" for i
    using assms(1) that by (simp add: heap_except_def)
  have below: "\<not> lt (?h ! c) (heap ! p)" if "c < length heap" "0 < c" "parent c = pos" for c
    using assms(1,3) that p by (simp add: heap_except_def p_def)
  have sib: "\<not> lt (heap ! i) (heap ! p)" if "i < length heap" "0 < i" "parent i = p" "i \<noteq> pos" for i
    using edge[of i] that p by simp
  have px: "\<not> lt (heap ! p) x" using asym assms(5) by (simp add: p_def)
  have "\<not> lt (?h' ! i) (?h' ! parent i)" if i: "i < length heap" "0 < i" "s \<le> parent i" "i \<noteq> p" for i
  proof -
    consider "i = pos" | "i \<noteq> pos" "parent i = p" | "i \<noteq> pos" "parent i = pos" | "i \<noteq> pos" "parent i \<noteq> p" "parent i \<noteq> pos"
      by blast
    then show ?thesis
    proof cases
      case 1 then show ?thesis using px p assms(2) by (simp add: p_def[symmetric])
    next
      case 2 then show ?thesis using neg_trans[OF sib px] i p by simp
    next
      case 3 then show ?thesis using below[of i] i p assms(2) by simp
    next
      case 4 then show ?thesis using edge[of i] i p by simp
    qed
  qed
  moreover have "\<not> lt (?h' ! c) (?h' ! parent p)" if c: "c < length heap" "0 < c" "parent c = p" and sp: "s < p" for c
  proof -
    have q: "parent p < p" "s \<le> parent p" using sp p in_sub_up[of s p] in_sub_up[of s pos] assms(3,4) by (auto simp: p_def)
    have pp: "\<not> lt (heap ! p) (heap ! parent p)" using edge[of p] p q sp by simp
    show ?thesis
      using neg_trans[OF sib pp, of c] pp c p q assms(2) by (cases "c = pos") auto
  qed
  ultimately show ?thesis by (simp add: heap_except_def p_def)
qed

lemma siftdown_loop_heap:
  "heap_except lt s pos (heap[pos := x]) \<Longrightarrow> pos < length heap \<Longrightarrow> in_sub s pos \<Longrightarrow>
   heap_from lt s (siftdown_loop lt heap s pos x)"
proof (induction pos arbitrary: heap rule: less_induct)
  case (less pos)
  show ?case
  proof (cases "s < pos \<and> lt x (heap ! parent pos)")
    case True
    then have "heap_except lt s (parent pos) (heap[pos := heap ! parent pos, parent pos := x])"
      and "parent pos < pos" and "in_sub s (parent pos)"
      using siftdown_step[OF less(2,3)] less(4) in_sub_up[of s pos] by auto
    then show ?thesis
      using less(1)[of "parent pos" "heap[pos := heap ! parent pos]"] less(3) True
      by (subst siftdown_loop.simps) (simp add: Let_def)
  next
    case False
    then have "siftdown_loop lt heap s pos x = heap[pos := x]"
      by (subst siftdown_loop.simps) (auto simp: Let_def)
    moreover have top: "\<not> lt ((heap[pos := x]) ! pos) ((heap[pos := x]) ! parent pos)" if "s \<le> parent pos" "0 < pos"
    proof -
      have "s < pos" "parent pos \<noteq> pos" using that le_parent[of s pos] by auto
      then show ?thesis using False less(3) by simp
    qed
    moreover have "\<not> lt (heap[pos := x] ! i) (heap[pos := x] ! parent i)"
      if "i < length heap" "0 < i" "s \<le> parent i" for i
      using top less(2) that by (cases "i = pos") (auto simp: heap_except_def)
    ultimately show ?thesis by (simp add: heap_from_def)
  qed
qed

lemma siftup_step:
  assumes "heap_hole lt s pos heap" and "pos < length heap" and "in_sub s pos" and "2 * pos + 1 < length heap"
    and c: "c = sift_child lt heap pos"
  shows "heap_hole lt s c (heap[pos := heap ! c]) \<and> in_sub s c \<and> c < length heap \<and> pos < c"
proof -
  have cp: "parent c = pos" "pos < c" "c < length heap" "0 < c" using sift_child_bounds[OF assms(4), of lt] c by auto
  let ?h = "heap[pos := heap ! c]"
  have sp: "s \<le> pos" using in_sub_le assms(3) by blast
  have edge: "\<not> lt (heap ! i) (heap ! parent i)"
    if "i < length heap" "0 < i" "s \<le> parent i" "i \<noteq> pos" "parent i \<noteq> pos" for i
    using assms(1) that by (simp add: heap_hole_def)
  have below: "\<not> lt (heap ! d) (heap ! parent pos)" if "d < length heap" "0 < d" "parent d = pos" "s < pos" for d
    using assms(1) that by (simp add: heap_hole_def)
  have sib: "\<not> lt (heap ! d) (heap ! c)" if d: "d < length heap" "0 < d" "parent d = pos" "d \<noteq> c" for d
    using d(1,4) c asym parent_child_iff[THEN iffD1, OF d(2,3)] by (auto simp: sift_child_def Let_def split: if_splits)
  have "\<not> lt (?h ! i) (?h ! parent i)"
    if i: "i < length heap" "0 < i" "s \<le> parent i" "i \<noteq> c" "parent i \<noteq> c" for i
  proof -
    consider "i = pos" | "i \<noteq> pos" "parent i = pos" | "i \<noteq> pos" "parent i \<noteq> pos" by blast
    then show ?thesis
    proof cases
      case 1
      then have "s < pos" "parent pos \<noteq> pos" using 1 i le_parent[of s pos] by auto
      then show ?thesis using below[of c] cp 1 i by simp
    next
      case 2 then show ?thesis using sib[of i] i assms(2) by simp
    next
      case 3 then show ?thesis using edge[of i] i by simp
    qed
  qed
  moreover have "\<not> lt (?h ! g) (?h ! parent c)" if "g < length heap" "0 < g" "parent g = c" for g
  proof -
    have "g \<noteq> pos" "s \<le> parent g" using that cp sp parent_less[of g] by auto
    then show ?thesis using edge[of g] that cp assms(2) by simp
  qed
  moreover have "in_sub s c" using in_sub_down[of s c] cp assms(3) by simp
  ultimately show ?thesis using cp by (simp add: heap_hole_def)
qed

lemma siftup_loop_hole:
  assumes "siftup_loop lt heap pos = (heap', leaf)" and "heap_hole lt s pos heap" and "pos < length heap" and "in_sub s pos"
  shows "heap_hole lt s leaf heap' \<and> in_sub s leaf"
  using assms
proof (induction "length heap - pos" arbitrary: heap pos rule: less_induct)
  case less
  define c where "c = sift_child lt heap pos"
  show ?case
  proof (cases "2 * pos + 1 < length heap")
    case True
    have "siftup_loop lt (heap[pos := heap ! c]) c = (heap', leaf)"
      using less(2) True by (subst (asm) siftup_loop.simps) (simp add: Let_def c_def)
    then show ?thesis
      using less(1)[of "heap[pos := heap ! c]" c] siftup_step[OF less(3,4,5) True c_def] by auto
  next
    case False
    then show ?thesis using less(2-5) by (subst (asm) siftup_loop.simps) (auto simp: Let_def)
  qed
qed

lemma siftup_heap:
  assumes "heap_from lt (Suc s) heap" and "s < length heap"
  shows "heap_from lt s (siftup lt heap s)"
proof -
  obtain heap' leaf where l: "siftup_loop lt heap s = (heap', leaf)" by force
  have "\<not> lt (heap ! i) (heap ! parent i)" if "i < length heap" "0 < i" "s \<le> parent i" "parent i \<noteq> s" for i
    using assms(1) that by (simp add: heap_from_def)
  then have "heap_hole lt s s heap" by (simp add: heap_hole_def)
  then have h: "heap_hole lt s leaf heap'" "in_sub s leaf"
    using siftup_loop_hole[OF l] assms(2) by auto
  have len: "leaf < length heap'" "length heap' \<le> 2 * leaf + 1"
    using siftup_loop_mset[OF l assms(2)] by auto
  have "leaf \<noteq> parent i \<and> parent i \<noteq> leaf" if "i < length heap'" "0 < i" for i
    using that len parent_child_iff[of i leaf] by auto
  then have "heap_except lt s leaf (heap'[leaf := heap ! s])"
    using h(1) by (simp add: heap_hole_def heap_except_def) blast
  then show ?thesis
    using siftdown_loop_heap[of s leaf heap' "heap ! s"] siftdown_loop_heap[of s leaf "heap'[leaf := heap ! s]" "heap ! s"] h len
    by (simp add: siftup_def l siftdown_def)
qed

lemma root_least:
  assumes "is_heap lt xs" and "x \<in> set xs"
  shows "\<not> lt x (xs ! 0)"
proof -
  have "\<not> lt (xs ! i) (xs ! 0)" if "i < length xs" for i
    using that
  proof (induction i rule: less_induct)
    case (less i)
    show ?case
    proof (cases "i = 0")
      case True then show ?thesis using asym by blast
    next
      case False
      then have "\<not> lt (xs ! i) (xs ! parent i)" using assms(1) less(2) by (simp add: heap_from_def)
      moreover have "\<not> lt (xs ! parent i) (xs ! 0)" using less False by simp
      ultimately show ?thesis by (rule neg_trans)
    qed
  qed
  then show ?thesis using assms(2) by (auto simp: in_set_conv_nth)
qed

lemma replace_root_heap:
  assumes "is_heap lt xs" and "xs \<noteq> []"
  shows "is_heap lt (siftup lt (xs[0 := x]) 0)"
proof -
  have "\<not> lt (xs[0 := x] ! i) (xs[0 := x] ! parent i)" if "i < length xs" "0 < i" "Suc 0 \<le> parent i" for i
    using assms(1) that by (simp add: heap_from_def)
  then show ?thesis using siftup_heap[of 0 "xs[0 := x]"] assms(2) by (simp add: heap_from_def)
qed

lemma push_heap_heap:
  assumes "is_heap lt heap"
  shows "is_heap lt (push_heap lt heap x)"
proof -
  have "\<not> lt ((heap @ [x]) ! i) ((heap @ [x]) ! parent i)" if "i < length heap" "0 < i" for i
    using assms that by (simp add: heap_from_def nth_append)
  moreover have "parent c \<noteq> length heap" if "c < Suc (length heap)" "0 < c" for c
    using that parent_less[of c] by linarith
  ultimately have "heap_except lt 0 (length heap) (heap @ [x])"
    by (simp add: heap_except_def less_Suc_eq) blast
  then show ?thesis
    using siftdown_loop_heap[of 0 "length heap" "heap @ [x]" x]
    by (simp add: push_heap_def Let_def siftdown_def)
qed

lemma heapify_heap: "is_heap lt (heapify_with lt x)"
proof -
  have "heap_from lt 0 (foldl (siftup lt) y (rev [0..<m]))" if "heap_from lt m y" "m \<le> length y" for m y
    using that
  proof (induction m arbitrary: y)
    case (Suc m)
    then show ?case using siftup_heap[of m y] by simp
  qed simp
  moreover have "heap_from lt (length x div 2) x"
    by (auto simp: heap_from_def parent_def)
  ultimately show ?thesis by (simp add: heapify_with_def)
qed

lemma pop_heap_heap:
  assumes "is_heap lt heap" and "pop_heap lt heap = Inr (x, heap')"
  shows "is_heap lt heap'"
proof (cases "butlast heap = []")
  case False
  have "is_heap lt (butlast heap)"
    using assms(1) by (auto simp: heap_from_def nth_butlast)
  then show ?thesis
    using replace_root_heap[OF _ False, of "last heap"] assms(2) False
    by (auto simp: pop_heap_def Let_def split: if_splits)
qed (use assms(2) in \<open>auto simp: pop_heap_def heap_from_def split: if_splits\<close>)

end

section \<open>Priority queues\<close>

text \<open>What the clients of a heap rely on: building one from a list, taking the first item, and
  replacing it.\<close>

locale heap_queue =
  fixes lt :: "'a \<Rightarrow> 'a \<Rightarrow> bool"
    and make :: "'a list \<Rightarrow> 'a list"
    and pop :: "'a list \<Rightarrow> ('a \<times> 'a list) result"
    and replace :: "'a list \<Rightarrow> 'a \<Rightarrow> ('a \<times> 'a list) result"
    and good :: "'a list \<Rightarrow> bool"
  assumes make_good: "good (make xs)"
    and make_mset: "mset (make xs) = mset xs"
    and top_least: "good q \<Longrightarrow> x \<in> set q \<Longrightarrow> \<not> lt x (q ! 0)"
    and pop_nonempty: "good q \<Longrightarrow> q \<noteq> [] \<Longrightarrow>
      \<exists>q'. pop q = Inr (q ! 0, q') \<and> good q' \<and> mset q' = mset q - {#q ! 0#}"
    and pop_empty: "pop [] = Inl IndexError"
    and replace_nonempty: "good q \<Longrightarrow> q \<noteq> [] \<Longrightarrow>
      \<exists>q'. replace q x = Inr (q ! 0, q') \<and> good q' \<and> mset q' = add_mset x (mset q - {#q ! 0#})"
    and replace_empty: "replace [] x = Inl IndexError"

sublocale weak_order \<subseteq> heap_queue lt "heapify_with lt" "pop_heap lt" "replace_heap lt" "is_heap lt"
proof
  fix q :: "'a list" and x
  show "\<exists>q'. pop_heap lt q = Inr (q ! 0, q') \<and> is_heap lt q' \<and> mset q' = mset q - {#q ! 0#}"
    if "is_heap lt q" "q \<noteq> []"
    using pop_heap_mset[OF that(2), of lt] pop_heap_heap[OF that(1)] by blast
  show "\<exists>q'. replace_heap lt q x = Inr (q ! 0, q') \<and> is_heap lt q' \<and> mset q' = add_mset x (mset q - {#q ! 0#})"
    if "is_heap lt q" "q \<noteq> []"
    using replace_root_heap[OF that, of x] replace_heap_mset[OF that(2), of lt x] that(2) by (simp add: replace_heap_def)
qed (simp_all add: heapify_heap heapify_mset root_least pop_heap_def replace_heap_def)

text \<open>Taking items out one after the other.\<close>

fun pop_times :: "('q \<Rightarrow> ('a \<times> 'q) result) \<Rightarrow> nat \<Rightarrow> 'q \<Rightarrow> ('a list \<times> 'q) result" where
  "pop_times pop 0 q = Inr ([], q)"
| "pop_times pop (Suc n) q =
     bindE (pop q) (\<lambda>(x, q). bindE (pop_times pop n q) (\<lambda>(xs, q). Inr (x # xs, q)))"

context heap_queue
begin

lemma pop_times_sorted:
  "good q \<Longrightarrow> \<exists>xs. pop_times pop (length q) q = Inr (xs, []) \<and> mset xs = mset q \<and> sorted_wrt (\<lambda>x y. \<not> lt y x) xs"
proof (induction "length q" arbitrary: q)
  case (Suc n)
  then have q: "q \<noteq> []" by auto
  obtain q' where q': "pop q = Inr (q ! 0, q')" "good q'" "mset q' = mset q - {#q ! 0#}"
    using pop_nonempty[OF Suc(3) q] by blast
  have "size (mset q') = n" using q'(3) q Suc(2) by (simp add: size_Diff_singleton)
  then obtain xs where xs: "pop_times pop n q' = Inr (xs, [])" "mset xs = mset q'" "sorted_wrt (\<lambda>x y. \<not> lt y x) xs"
    using Suc(1)[of q'] q'(2) by auto
  have "set xs \<subseteq> set q" using xs(2) q'(3) by (metis in_diffD set_mset_mset subsetI)
  then have "sorted_wrt (\<lambda>x y. \<not> lt y x) (q ! 0 # xs)"
    using xs(3) top_least[OF Suc(3)] by auto
  moreover have "mset (q ! 0 # xs) = mset q" using xs(2) q'(3) q by simp
  ultimately show ?case using Suc(2)[symmetric] q'(1) xs(1) by (auto simp: bindE_def)
qed simp

end

interpretation min_heap: weak_order "(<) :: 'a :: linorder \<Rightarrow> 'a \<Rightarrow> bool"
  by unfold_locales auto

interpretation max_heap: weak_order "\<lambda>(x :: 'a :: linorder) y. y < x"
  by unfold_locales auto

section \<open>A heap is a bag with a least element\<close>

datatype 'a heap_op = Push 'a | Pop | Replace 'a | PushPop 'a

text \<open>One call on the list: what it returns or raises, and the list afterwards.  A call that
  raises leaves the list unchanged.\<close>

definition heap_step :: "'a :: linorder list \<Rightarrow> 'a heap_op \<Rightarrow> 'a option result \<times> 'a list" where
  "heap_step h c =
     (case c of
        Push x \<Rightarrow> (Inr None, heappush h x)
      | Pop \<Rightarrow> (case heappop h of Inl e \<Rightarrow> (Inl e, h) | Inr (y, h) \<Rightarrow> (Inr (Some y), h))
      | Replace x \<Rightarrow> (case heapreplace h x of Inl e \<Rightarrow> (Inl e, h) | Inr (y, h) \<Rightarrow> (Inr (Some y), h))
      | PushPop x \<Rightarrow> (case heappushpop h x of (y, h) \<Rightarrow> (Inr (Some y), h)))"

definition bag_step :: "'a :: linorder multiset \<Rightarrow> 'a heap_op \<Rightarrow> 'a option result \<times> 'a multiset" where
  "bag_step B c =
     (case c of
        Push x \<Rightarrow> (Inr None, add_mset x B)
      | Pop \<Rightarrow> if B = {#} then (Inl IndexError, B)
               else (Inr (Some (Min (set_mset B))), B - {#Min (set_mset B)#})
      | Replace x \<Rightarrow> if B = {#} then (Inl IndexError, B)
               else (Inr (Some (Min (set_mset B))), add_mset x (B - {#Min (set_mset B)#}))
      | PushPop x \<Rightarrow> (Inr (Some (Min (set_mset (add_mset x B)))), add_mset x B - {#Min (set_mset (add_mset x B))#}))"

fun run_steps :: "('s \<Rightarrow> 'c \<Rightarrow> 'o \<times> 's) \<Rightarrow> 's \<Rightarrow> 'c list \<Rightarrow> 'o list \<times> 's" where
  "run_steps step s [] = ([], s)"
| "run_steps step s (c # cs) = (let (r, s) = step s c; (rs, s) = run_steps step s cs in (r # rs, s))"

lemma heap_top_Min:
  fixes h :: "'a :: linorder list"
  assumes "is_heap (<) h" and "h \<noteq> []"
  shows "h ! 0 = Min (set h)"
  using min_heap.root_least[OF assms(1)] assms(2)
  by (intro Min_eqI[symmetric]) (auto simp: not_less)

lemma heap_step_simulates:
  assumes "is_heap (<) h"
  shows "bag_step (mset h) c = map_prod id mset (heap_step h c) \<and> is_heap (<) (snd (heap_step h c))"
proof (cases c)
  case (Push x)
  then show ?thesis
    using min_heap.push_heap_heap[OF assms, of x] by (simp add: heap_step_def bag_step_def heappush_def push_heap_mset)
next
  case Pop
  then show ?thesis
    using min_heap.pop_nonempty[OF assms] heap_top_Min[OF assms] assms
    by (cases "h = []") (auto simp: heap_step_def bag_step_def heappop_def pop_heap_def)
next
  case (Replace x)
  then show ?thesis
    using min_heap.replace_nonempty[OF assms] heap_top_Min[OF assms] assms
    by (cases "h = []") (auto simp: heap_step_def bag_step_def heapreplace_def replace_heap_def)
next
  case (PushPop x)
  show ?thesis
  proof (cases "h \<noteq> [] \<and> h ! 0 < x")
    case True
    then have m: "Min (insert x (set h)) = h ! 0" using heap_top_Min[OF assms] by simp
    then show ?thesis
      using True PushPop min_heap.replace_root_heap[OF assms, of x]
      by (simp add: heap_step_def bag_step_def heappushpop_def mset_replace_root)
  next
    case False
    then have "Min (insert x (set h)) = x" using heap_top_Min[OF assms] by (cases "h = []") (simp_all add: min_absorb1 not_less del: Min_ge_iff)
    then show ?thesis
      using False PushPop assms by (auto simp: heap_step_def bag_step_def heappushpop_def)
  qed
qed

text \<open>
  C28: Refinement.  Any sequence of \<^verbatim>\<open>heappush\<close>, \<^verbatim>\<open>heappop\<close>, \<^verbatim>\<open>heapreplace\<close> and \<^verbatim>\<open>heappushpop\<close> calls, started
  on the list that \<^verbatim>\<open>heapify\<close> makes of any list, returns and raises call by call what the same
  calls do on the bag of the items, where a pop takes out the least one; the list stays a
  heap of exactly that bag.
\<close>
theorem heap_refines_bag:
  "run_steps bag_step (mset xs) ops = map_prod id mset (run_steps heap_step (heapify xs) ops) \<and>
   is_heap (<) (snd (run_steps heap_step (heapify xs) ops))"
proof -
  have "run_steps bag_step (mset h) ops = map_prod id mset (run_steps heap_step h ops) \<and>
     is_heap (<) (snd (run_steps heap_step h ops))" if "is_heap (<) h" for h :: "'a list"
    using that
  proof (induction ops arbitrary: h)
    case (Cons c ops)
    obtain r h' where s: "heap_step h c = (r, h')" by force
    then have "bag_step (mset h) c = (r, mset h')" "is_heap (<) h'"
      using heap_step_simulates[OF Cons(2), of c] by auto
    then show ?case using Cons(1)[of h'] s by (auto simp: case_prod_unfold Let_def)
  qed simp
  from this[of "heapify xs"] show ?thesis
    using min_heap.heapify_heap[of xs] by (simp add: heapify_def heapify_mset)
qed

text \<open>
  C30: Popping a heap as often as it has items never raises, returns its items in order, and
  leaves it empty: in increasing order for the list \<^verbatim>\<open>heapify\<close> makes, in decreasing order for
  the list \<^verbatim>\<open>_heapify_max\<close> makes.
\<close>
theorem heapsort_sorts:
  "pop_times heappop (length xs) (heapify xs) = Inr (sort xs, []) \<and>
   pop_times heappop_max (length xs) (heapify_max xs) = Inr (rev (sort xs), [])"
proof -
  have len: "length (heapify xs) = length xs" "length (heapify_max xs) = length xs"
    by (metis heapify_def heapify_max_def heapify_mset mset_eq_length)+
  obtain ys where ys: "pop_times heappop (length xs) (heapify xs) = Inr (ys, [])" "mset ys = mset xs"
      "sorted_wrt (\<lambda>x y. \<not> y < x) ys"
    using min_heap.pop_times_sorted[OF min_heap.heapify_heap, of xs] len(1)
    by (auto simp: heappop_def heapify_def heapify_mset)
  obtain zs where zs: "pop_times heappop_max (length xs) (heapify_max xs) = Inr (zs, [])" "mset zs = mset xs"
      "sorted_wrt (\<lambda>x y. \<not> x < y) zs"
    using max_heap.pop_times_sorted[OF max_heap.heapify_heap, of xs] len(2)
    by (auto simp: heappop_max_def heapify_max_def heapify_mset)
  have "sort xs = ys"
    using ys(2,3) by (intro properties_for_sort) (auto simp: not_less)
  moreover have "sort xs = rev zs"
    using zs(2,3) by (intro properties_for_sort) (auto simp: not_less sorted_wrt_rev)
  ultimately show ?thesis using ys(1) zs(1) by auto
qed

text \<open>
  C29: Invariant.  \<^verbatim>\<open>_siftup\<close> and \<^verbatim>\<open>_siftup_max\<close> turn a list that is a heap at all positions after
  \<^verbatim>\<open>pos\<close> into one that is a heap from \<^verbatim>\<open>pos\<close> on; \<^verbatim>\<open>_siftdown\<close> and \<^verbatim>\<open>_siftdown_max\<close> do so for a list
  that is a heap from \<^verbatim>\<open>startpos\<close> on except for the item at the leaf \<^verbatim>\<open>pos\<close> below \<^verbatim>\<open>startpos\<close>.
  All four only permute the list.
\<close>
theorem sift_restores_heap:
  assumes "pos < length h" and "length h \<le> 2 * leaf + 1" and "leaf < length h" and "in_sub startpos leaf"
  shows "(heap_from (<) (Suc pos) h \<longrightarrow> heap_from (<) pos (siftup (<) h pos)) \<and>
    (heap_from (\<lambda>x y. y < x) (Suc pos) h \<longrightarrow> heap_from (\<lambda>x y. y < x) pos (siftup_max h pos)) \<and>
    mset (siftup (<) h pos) = mset h \<and> mset (siftup_max h pos) = mset h \<and>
    ((\<forall>i < length h. 0 < i \<and> startpos \<le> parent i \<and> i \<noteq> leaf \<longrightarrow> h ! parent i \<le> h ! i) \<longrightarrow>
       heap_from (<) startpos (siftdown (<) h startpos leaf)) \<and>
    ((\<forall>i < length h. 0 < i \<and> startpos \<le> parent i \<and> i \<noteq> leaf \<longrightarrow> h ! i \<le> h ! parent i) \<longrightarrow>
       heap_from (\<lambda>x y. y < x) startpos (siftdown_max h startpos leaf)) \<and>
    mset (siftdown (<) h startpos leaf) = mset h \<and> mset (siftdown_max h startpos leaf) = mset h"
proof -
  have leaf: "parent c \<noteq> leaf" if "c < length h" "0 < c" for c
    using that assms(2) parent_child_iff[of c leaf] by auto
  have ex: "heap_except lt startpos leaf h"
    if "\<forall>i < length h. 0 < i \<and> startpos \<le> parent i \<and> i \<noteq> leaf \<longrightarrow> \<not> lt (h ! i) (h ! parent i)" for lt
    using that leaf by (simp add: heap_except_def) blast
  have "heap_from (<) startpos (siftdown (<) h startpos leaf)"
    if "\<forall>i < length h. 0 < i \<and> startpos \<le> parent i \<and> i \<noteq> leaf \<longrightarrow> h ! parent i \<le> h ! i"
    using min_heap.siftdown_loop_heap[of startpos leaf h "h ! leaf"] ex[of "(<)"] that assms(3,4)
    by (simp add: siftdown_def not_less)
  moreover have "heap_from (\<lambda>x y. y < x) startpos (siftdown_max h startpos leaf)"
    if "\<forall>i < length h. 0 < i \<and> startpos \<le> parent i \<and> i \<noteq> leaf \<longrightarrow> h ! i \<le> h ! parent i"
    using max_heap.siftdown_loop_heap[of startpos leaf h "h ! leaf"] ex[of "\<lambda>x y. y < x"] that assms(3,4)
    by (simp add: siftdown_max_def siftdown_def not_less)
  moreover have "mset (siftdown lt h startpos leaf) = mset h" for lt
    using assms(3) by (simp add: siftdown_def siftdown_loop_mset)
  ultimately show ?thesis
    using assms(1) min_heap.siftup_heap[of pos h] max_heap.siftup_heap[of pos h]
    by (auto simp: siftup_max_def siftdown_max_def)
qed

theorem sift_restores_heap_witness:
  "siftup (<) [9, 4, 2 :: int, 7] 0 = [2, 4, 9, 7] \<and> heap_from (<) 0 (siftup (<) [9, 4, 2 :: int, 7] 0)"
proof -
  have "heap_from (<) (Suc 0) [9, 4, 2 :: int, 7]" by (auto simp: heap_from_def parent_def less_Suc_eq nth_Cons')
  moreover have "siftup (<) [9, 4, 2 :: int, 7] 0 = [2, 4, 9, 7]"
    by (simp add: siftup_def siftup_loop.simps siftdown_def siftdown_loop.simps sift_child_def parent_def)
  ultimately show ?thesis using sift_restores_heap[of 0 "[9, 4, 2 :: int, 7]" 3 0] by simp
qed

end
