(* ===== verification/HeapqSelect.thy ===== *)
theory HeapqSelect
  imports Heapq
begin

text \<open>
  The clients of the heap in \<^verbatim>\<open>heapq.py\<close>: \<^verbatim>\<open>merge\<close> and the selections \<^verbatim>\<open>nsmallest\<close> and \<^verbatim>\<open>nlargest\<close>.
  Their heap items are lists or tuples that start with a key and a counter; no two items of
  a heap share both, so comparisons never look further.  The source has each loop twice, with
  a key function and without one; the second is the first with the identity as the key.
\<close>

section \<open>Keyed items\<close>

text \<open>\<^verbatim>\<open>sorted(xs, key=key, reverse=reverse)\<close>: stable in both directions.\<close>

definition py_sorted :: "('a \<Rightarrow> 'k :: linorder) \<Rightarrow> bool \<Rightarrow> 'a list \<Rightarrow> 'a list" where
  "py_sorted key reverse xs = (if reverse then rev (sort_key key (rev xs)) else sort_key key xs)"

fun entry_lt :: "('k :: linorder \<times> int \<times> 'x) \<Rightarrow> ('k \<times> int \<times> 'x) \<Rightarrow> bool" where
  "entry_lt (k, i, _) (k', i', _) = ((k, i) < (k', i'))"

text \<open>The items that come first: the small ones, or the large ones in reverse.\<close>

definition ahead :: "bool \<Rightarrow> ('k :: linorder \<times> int \<times> 'x) \<Rightarrow> ('k \<times> int \<times> 'x) \<Rightarrow> bool" where
  "ahead reverse = (if reverse then (\<lambda>x y. entry_lt y x) else entry_lt)"

definition key_lt :: "bool \<Rightarrow> 'k :: linorder \<Rightarrow> 'k \<Rightarrow> bool" where
  "key_lt reverse k k' = (if reverse then k' < k else k < k')"

definition direction :: "bool \<Rightarrow> int" where
  "direction reverse = (if reverse then -1 else 1)"

section \<open>Merging\<close>

type_synonym ('k, 'a) merge_item = "'k \<times> int \<times> 'a \<times> 'a list"

fun merge_start :: "('a \<Rightarrow> 'k) \<Rightarrow> int \<Rightarrow> int \<Rightarrow> 'a list list \<Rightarrow> ('k, 'a) merge_item list" where
  "merge_start key d order [] = []"
| "merge_start key d order ([] # its) = merge_start key d (order + 1) its"
| "merge_start key d order ((value # nxt) # its) =
     (key value, order * d, value, nxt) # merge_start key d (order + 1) its"

definition items_left :: "('k, 'a) merge_item multiset \<Rightarrow> nat" where
  "items_left H = (\<Sum>(_, _, _, nxt) \<in># H. Suc (length nxt))"

lemma items_left_add [simp]: "items_left (add_mset (k, i, v, nxt) H) = Suc (length nxt) + items_left H"
  by (simp add: items_left_def)

lemma items_left_remove: "x \<in># H \<Longrightarrow> items_left (H - {#x#}) < items_left H"
  by (metis (no_types, lifting) insert_DiffM items_left_add less_add_same_cancel2 prod_cases4 zero_less_Suc)

lemma pop_left:
  assumes "pop_heap lt h = Inr (y, h')"
  shows "items_left (mset h') < items_left (mset h)"
proof -
  have "h \<noteq> []" using assms by (auto simp: pop_heap_def)
  then show ?thesis
    using pop_heap_mset[of h lt] assms items_left_remove[of "h ! 0" "mset h"] by auto
qed

lemma replace_left:
  assumes "replace_heap lt h (k', i', v', nxt') = Inr (y, h')" and "(k, i, v, v' # nxt') = h ! 0"
  shows "items_left (mset h') < items_left (mset h)"
proof -
  have h: "h \<noteq> []" using assms by (auto simp: replace_heap_def)
  then have "mset h' = add_mset (k', i', v', nxt') (mset h - {#h ! 0#})"
    using assms by (auto simp: replace_heap_def mset_replace_root)
  moreover have "mset h = add_mset (h ! 0) (mset h - {#h ! 0#})" using h by simp
  then have "items_left (mset h) = Suc (Suc (length nxt')) + items_left (mset h - {#h ! 0#})"
    using assms(2) by (metis items_left_add length_Cons)
  ultimately show ?thesis by simp
qed

function heap_merge_loop :: "('a \<Rightarrow> 'k :: linorder) \<Rightarrow> bool \<Rightarrow> ('k, 'a) merge_item list \<Rightarrow> 'a list result" where
  "heap_merge_loop key reverse h =
     (if 1 < length h then
        (case h ! 0 of (key_value, order, value, nxt) \<Rightarrow>
          (case nxt of
             [] \<Rightarrow> (case pop_heap (ahead reverse) h of
                      Inl e \<Rightarrow> Inl e
                    | Inr (_, h') \<Rightarrow> bindE (heap_merge_loop key reverse h') (\<lambda>out. Inr (value # out)))
           | value' # nxt' \<Rightarrow>
               (case replace_heap (ahead reverse) h (key value', order, value', nxt') of
                  Inl e \<Rightarrow> Inl e
                | Inr (_, h') \<Rightarrow> bindE (heap_merge_loop key reverse h') (\<lambda>out. Inr (value # out)))))
      else if h \<noteq> [] then (case h ! 0 of (key_value, order, value, nxt) \<Rightarrow> Inr (value # nxt))
      else Inr [])"
  by pat_completeness auto
termination
  by (relation "measure (\<lambda>(_, _, h). items_left (mset h))") (auto intro: pop_left replace_left)

declare heap_merge_loop.simps [simp del]

definition merge :: "('a \<Rightarrow> 'k :: linorder) \<Rightarrow> bool \<Rightarrow> 'a list list \<Rightarrow> 'a list result" where
  "merge key reverse iterables =
     heap_merge_loop key reverse (heapify_with (ahead reverse) (merge_start key (direction reverse) 0 iterables))"

section \<open>Selecting\<close>

text \<open>\<^verbatim>\<open>min\<close> and \<^verbatim>\<open>max\<close> with a key: the first of the items with the extreme key.\<close>

definition first_extreme :: "('a \<Rightarrow> 'k :: linorder) \<Rightarrow> bool \<Rightarrow> 'a \<Rightarrow> 'a list \<Rightarrow> 'a" where
  "first_extreme key reverse x xs = foldl (\<lambda>b y. if key_lt reverse (key y) (key b) then y else b) x xs"

definition decorate :: "('a \<Rightarrow> 'k) \<Rightarrow> bool \<Rightarrow> 'a list \<Rightarrow> ('k \<times> int \<times> 'a) list" where
  "decorate key reverse xs = map (\<lambda>(i, elem). (key elem, int i * direction reverse, elem)) (enumerate 0 xs)"

fun select_loop :: "('a \<Rightarrow> 'k :: linorder) \<Rightarrow> bool \<Rightarrow> int \<Rightarrow> ('k \<times> int \<times> 'a) list \<Rightarrow> 'a list
    \<Rightarrow> ('k \<times> int \<times> 'a) list result" where
  "select_loop key reverse order result [] = Inr result"
| "select_loop key reverse order result (elem # it) =
     (let k = key elem; top = fst (result ! 0) in
      if key_lt reverse k top then
        bindE (replace_heap (ahead (\<not> reverse)) result (k, order, elem))
          (\<lambda>(_, result). select_loop key reverse (order + direction reverse) result it)
      else select_loop key reverse order result it)"

text \<open>The common body: \<^verbatim>\<open>nsmallest\<close> keeps a max-heap and looks for smaller keys, \<^verbatim>\<open>nlargest\<close>, which
  counts downwards, keeps a min-heap and looks for larger ones.  \<open>sized\<close> says whether \<^verbatim>\<open>len\<close>
  works on the iterable.\<close>

definition n_extreme :: "('a \<Rightarrow> 'k :: linorder) \<Rightarrow> bool \<Rightarrow> bool \<Rightarrow> int \<Rightarrow> 'a list \<Rightarrow> 'a list result" where
  "n_extreme key reverse sized n xs =
     (if n = 1 then (case xs of [] \<Rightarrow> Inr [] | x # it \<Rightarrow> Inr [first_extreme key reverse x it])
      else if sized \<and> int (length xs) \<le> n then Inr (take (nat n) (py_sorted key reverse xs))
      else let result = decorate key reverse (take (nat n) xs) in
        if result = [] then Inr []
        else bindE (select_loop key reverse (n * direction reverse) (heapify_with (ahead (\<not> reverse)) result) (drop (nat n) xs))
          (\<lambda>result. Inr (map (\<lambda>(k, order, elem). elem) (py_sorted (\<lambda>(k, order, elem). (k, order)) reverse result))))"

definition nsmallest :: "('a \<Rightarrow> 'k :: linorder) \<Rightarrow> bool \<Rightarrow> int \<Rightarrow> 'a list \<Rightarrow> 'a list result" where
  "nsmallest key = n_extreme key False"

definition nlargest :: "('a \<Rightarrow> 'k :: linorder) \<Rightarrow> bool \<Rightarrow> int \<Rightarrow> 'a list \<Rightarrow> 'a list result" where
  "nlargest key = n_extreme key True"

section \<open>Order of the items\<close>

lemma ahead_iff:
  "ahead reverse (k, i * direction reverse, x) (k', i' * direction reverse, y) \<longleftrightarrow>
     key_lt reverse k k' \<or> k = k' \<and> i < i'"
  by (auto simp: ahead_def key_lt_def direction_def)

interpretation items: weak_order "ahead reverse" for reverse :: bool
proof
  fix x y z :: "'k :: linorder \<times> int \<times> 'x"
  define rank :: "'k \<times> int \<times> 'x \<Rightarrow> 'k \<times> int" where "rank = (\<lambda>(k, i, _). (k, i))"
  have e: "ahead reverse a b \<longleftrightarrow> (if reverse then rank b < rank a else rank a < rank b)" for a b :: "'k \<times> int \<times> 'x"
    by (cases a; cases b) (simp add: ahead_def rank_def)
  show "ahead reverse x y \<Longrightarrow> \<not> ahead reverse y x"
    using e order.asym by (metis (no_types, lifting))
  have trans: "\<not> a < b \<Longrightarrow> \<not> b < c \<Longrightarrow> \<not> a < c" for a b c :: "'k \<times> int" by (meson not_less order.trans)
  show "\<not> ahead reverse x y \<Longrightarrow> \<not> ahead reverse y z \<Longrightarrow> \<not> ahead reverse x z"
    using e trans by (metis (no_types, lifting))
qed

definition in_order :: "('a \<Rightarrow> 'k :: linorder) \<Rightarrow> bool \<Rightarrow> 'a list \<Rightarrow> bool" where
  "in_order key reverse = sorted_wrt (\<lambda>x y. \<not> key_lt reverse (key y) (key x))"

lemma in_order_Cons [simp]:
  "in_order key reverse (x # xs) \<longleftrightarrow> (\<forall>y \<in> set xs. \<not> key_lt reverse (key y) (key x)) \<and> in_order key reverse xs"
  by (simp add: in_order_def)

lemma key_lt_trans: "\<not> key_lt reverse a b \<Longrightarrow> \<not> key_lt reverse b c \<Longrightarrow> \<not> key_lt reverse a c"
  by (auto simp: key_lt_def split: if_splits)

lemma key_lt_total: "\<not> key_lt reverse a b \<Longrightarrow> a \<noteq> b \<Longrightarrow> key_lt reverse b a"
  by (auto simp: key_lt_def split: if_splits)

lemma key_lt_irrefl [simp]: "\<not> key_lt reverse a a"
  by (simp add: key_lt_def)

lemma in_order_sorted: "in_order key reverse xs \<longleftrightarrow> (if reverse then sorted (rev (map key xs)) else sorted (map key xs))"
  by (auto simp: in_order_def key_lt_def not_less sorted_wrt_map sorted_wrt_rev)

lemma mset_eq_filters:
  assumes "\<And>k. filter (\<lambda>x. key x = k) ys = filter (\<lambda>x. key x = k) xs"
  shows "mset ys = mset xs"
proof (rule multiset_eqI)
  fix x
  have "count (mset zs) x = count (mset (filter (\<lambda>y. key y = key x) zs)) x" for zs by simp
  then show "count (mset ys) x = count (mset xs) x" using assms by metis
qed

text \<open>The stable sort is the only ordered list that keeps the items of each key in their order.\<close>

lemma py_sorted_unique:
  assumes "\<And>k. filter (\<lambda>x. key x = k) ys = filter (\<lambda>x. key x = k) xs" and "in_order key reverse ys"
  shows "py_sorted key reverse xs = ys"
proof -
  have m: "mset ys = mset xs" by (rule mset_eq_filters) (rule assms(1))
  show ?thesis
  proof (cases reverse)
    case True
    have "filter (\<lambda>x. key z = key x) (rev ys) = filter (\<lambda>x. key z = key x) (rev xs)" for z
      using assms(1)[of "key z"] by (simp add: rev_filter[symmetric] eq_commute[of "key z"])
    then have "sort_key key (rev xs) = rev ys"
      using assms(2) True m by (intro properties_for_sort_key) (auto simp: in_order_sorted rev_map)
    then show ?thesis using True by (simp add: py_sorted_def)
  next
    case False
    have "filter (\<lambda>x. key z = key x) ys = filter (\<lambda>x. key z = key x) xs" for z
      using assms(1)[of "key z"] by (simp add: eq_commute[of "key z"])
    then show ?thesis
      using assms(2) False m by (simp add: py_sorted_def) (intro properties_for_sort_key, auto simp: in_order_sorted)
  qed
qed

section \<open>Merging is sorting\<close>

lemma merge_start_append:
  "merge_start key d j (A @ B) = merge_start key d j A @ merge_start key d (j + int (length A)) B"
  by (induction key d j A rule: merge_start.induct) (auto simp: algebra_simps)

lemma merge_start_Nil: "merge_start key d j S = [] \<longleftrightarrow> concat S = []"
  by (induction key d j S rule: merge_start.induct) auto

lemma merge_start_item:
  assumes "(k, i, v, nxt) \<in> set (merge_start key d j S)"
  shows "\<exists>A B. S = A @ (v # nxt) # B \<and> k = key v \<and> i = (j + int (length A)) * d"
  using assms
proof (induction key d j S rule: merge_start.induct)
  case (2 key d j its)
  then obtain A B where "its = A @ (v # nxt) # B" "k = key v" "i = (j + 1 + int (length A)) * d" by auto
  then show ?case by (intro exI[of _ "[] # A"] exI[of _ B]) auto
next
  case (3 key d j w t its)
  show ?case
  proof (cases "(k, i, v, nxt) = (key w, j * d, w, t)")
    case True then show ?thesis by (intro exI[of _ "[]"] exI[of _ its]) auto
  next
    case False
    then obtain A B where "its = A @ (v # nxt) # B" "k = key v" "i = (j + 1 + int (length A)) * d"
      using 3 by auto
    then show ?thesis by (intro exI[of _ "(w # t) # A"] exI[of _ B]) auto
  qed
qed simp

text \<open>The first item of the heap: the streams before its own hold larger keys only, and no
  stream holds a smaller one.\<close>

lemma merge_top:
  assumes "is_heap (ahead reverse) h" and "h \<noteq> []" and "mset h = mset (merge_start key (direction reverse) 0 S)"
    and "\<forall>s \<in> set S. in_order key reverse s"
  shows "\<exists>A v nxt B. S = A @ (v # nxt) # B \<and> h ! 0 = (key v, int (length A) * direction reverse, v, nxt) \<and>
    (\<forall>x \<in> set (concat A). key_lt reverse (key v) (key x)) \<and> (\<forall>x \<in> set (concat S). \<not> key_lt reverse (key x) (key v))"
proof -
  let ?d = "direction reverse"
  have items: "set h = set (merge_start key ?d 0 S)" using assms(3) by (metis set_mset_mset)
  obtain k i v nxt where top: "h ! 0 = (k, i, v, nxt)" by (cases "h ! 0")
  then have "(k, i, v, nxt) \<in> set (merge_start key ?d 0 S)" using assms(2) items by (metis length_greater_0_conv nth_mem)
  then obtain A B where S: "S = A @ (v # nxt) # B" "k = key v" "i = int (length A) * ?d"
    using merge_start_item[of k i v nxt key ?d 0 S] by auto
  have stream: "(key_lt reverse (key v) (key x) \<or> length A \<le> length A') \<and> \<not> key_lt reverse (key x) (key v)"
    if s: "S = A' @ s # B'" "x \<in> set s" for A' s B' x
  proof -
    obtain w t where w: "s = w # t" using s(2) by (cases s) auto
    have "(key w, int (length A') * ?d, w, t) \<in> set h" unfolding items s(1) w by (simp add: merge_start_append)
    then have "\<not> ahead reverse (key w, int (length A') * ?d, w, t) (h ! 0)" by (rule items.root_least[OF assms(1)])
    then have a: "\<not> key_lt reverse (key w) (key v)" "key w = key v \<Longrightarrow> length A \<le> length A'"
      unfolding top S(2,3) ahead_iff by auto
    have b: "\<not> key_lt reverse (key x) (key w)" using assms(4) s w by auto
    have c: "\<not> key_lt reverse (key x) (key v)" by (rule key_lt_trans[OF b a(1)])
    show ?thesis
      using a b c key_lt_total[OF c] key_lt_total[OF a(1)] by (cases "key x = key v") auto
  qed
  have "key_lt reverse (key v) (key x)" if "x \<in> set (concat A)" for x
  proof -
    obtain A1 s A2 where "A = A1 @ s # A2" "x \<in> set s" using \<open>x \<in> set (concat A)\<close> by (auto dest: split_list)
    then show ?thesis using stream[of A1 s "A2 @ (v # nxt) # B" x] S(1) by auto
  qed
  moreover have "\<not> key_lt reverse (key x) (key v)" if "x \<in> set (concat S)" for x
    using that stream by (auto dest: split_list)
  ultimately show ?thesis using S top by blast
qed

lemma heap_merge_step:
  assumes "is_heap (ahead reverse) h" and "1 < length h"
    and "mset h = mset (merge_start key (direction reverse) 0 (A @ (v # nxt) # B))"
    and "h ! 0 = (key v, int (length A) * direction reverse, v, nxt)"
  shows "\<exists>h'. heap_merge_loop key reverse h = bindE (heap_merge_loop key reverse h') (\<lambda>out. Inr (v # out)) \<and>
    is_heap (ahead reverse) h' \<and> mset h' = mset (merge_start key (direction reverse) 0 (A @ nxt # B))"
proof (cases nxt)
  case Nil
  obtain h' where "pop_heap (ahead reverse) h = Inr (h ! 0, h')" "is_heap (ahead reverse) h'" "mset h' = mset h - {#h ! 0#}"
    using items.pop_nonempty[OF assms(1)] assms(2) by (metis list.size(3) not_one_less_zero)
  then show ?thesis
    using assms(2-4) Nil by (subst heap_merge_loop.simps) (auto simp: merge_start_append)
next
  case (Cons v' nxt')
  let ?x = "(key v', int (length A) * direction reverse, v', nxt')"
  obtain h' where "replace_heap (ahead reverse) h ?x = Inr (h ! 0, h')" "is_heap (ahead reverse) h'"
      "mset h' = add_mset ?x (mset h - {#h ! 0#})"
    using items.replace_nonempty[OF assms(1), of ?x] assms(2) by (metis list.size(3) not_one_less_zero)
  then show ?thesis
    using assms(2-4) Cons by (subst heap_merge_loop.simps) (auto simp: merge_start_append)
qed

lemma heap_merge_sorts:
  assumes "is_heap (ahead reverse) h" and "mset h = mset (merge_start key (direction reverse) 0 S)"
    and "\<forall>s \<in> set S. in_order key reverse s"
  shows "\<exists>out. heap_merge_loop key reverse h = Inr out \<and> in_order key reverse out \<and>
    (\<forall>k. filter (\<lambda>x. key x = k) out = filter (\<lambda>x. key x = k) (concat S))"
  using assms
proof (induction "length (concat S)" arbitrary: S h rule: less_induct)
  case less
  show ?case
  proof (cases "h = []")
    case True
    then have "concat S = []" using less(3) merge_start_Nil by fastforce
    then show ?thesis using True unfolding \<open>concat S = []\<close> by (subst heap_merge_loop.simps) (simp add: in_order_def)
  next
    case False
    obtain A v nxt B where S: "S = A @ (v # nxt) # B"
        and top: "h ! 0 = (key v, int (length A) * direction reverse, v, nxt)"
        and before: "\<forall>x \<in> set (concat A). key_lt reverse (key v) (key x)"
        and all: "\<forall>x \<in> set (concat S). \<not> key_lt reverse (key x) (key v)"
      using merge_top[OF less(2) False less(3,4)] by blast
    show ?thesis
    proof (cases "1 < length h")
      case True
      obtain h' where h': "heap_merge_loop key reverse h = bindE (heap_merge_loop key reverse h') (\<lambda>out. Inr (v # out))"
          "is_heap (ahead reverse) h'" "mset h' = mset (merge_start key (direction reverse) 0 (A @ nxt # B))"
        using heap_merge_step[of reverse h key A v nxt B, OF less(2) True less(3)[unfolded S] top] by blast
      have "\<forall>s \<in> set (A @ nxt # B). in_order key reverse s" using less(4) S by auto
      then obtain out where out: "heap_merge_loop key reverse h' = Inr out" "in_order key reverse out"
          "\<forall>k. filter (\<lambda>x. key x = k) out = filter (\<lambda>x. key x = k) (concat (A @ nxt # B))"
        using less(1)[OF _ h'(2,3)] S by auto
      have "mset out = mset (concat (A @ nxt # B))" using mset_eq_filters out(3) by blast
      then have "set out = set (concat (A @ nxt # B))" by (metis set_mset_mset)
      then have "in_order key reverse (v # out)" using out(2) all S by auto
      moreover have "filter (\<lambda>x. key x = key v) (concat A) = []"
        using before key_lt_irrefl unfolding filter_empty_conv by metis
      then have "filter (\<lambda>x. key x = k) (v # out) = filter (\<lambda>x. key x = k) (concat S)" for k
        using out(3) S by (cases "k = key v") auto
      ultimately show ?thesis using h'(1) out(1) by (auto simp: bindE_def)
    next
      case one: False
      then have "length (merge_start key (direction reverse) 0 S) = 1"
        using False less(3) by (metis One_nat_def less_one linorder_neqE_nat length_0_conv mset_eq_length)
      then have "merge_start key (direction reverse) 0 A = []"
        "merge_start key (direction reverse) (int (length A) + 1) B = []"
        unfolding S by (auto simp: merge_start_append)
      then have "concat S = v # nxt" unfolding S merge_start_Nil by (simp del: concat_eq_Nil_conv)
      moreover have "heap_merge_loop key reverse h = Inr (v # nxt)"
        using one False top by (subst heap_merge_loop.simps) simp
      ultimately show ?thesis using less(4) S by simp
    qed
  qed
qed

text \<open>
  C31: Functional correctness of \<^verbatim>\<open>merge\<close>.  On inputs that are each sorted by the key, in
  increasing order or with \<^verbatim>\<open>reverse\<close> in decreasing order, it never raises and yields what the
  documentation compares it to: the stable \<^verbatim>\<open>sorted\<close> of all the inputs one after the other.
\<close>
theorem merge_is_sorted:
  assumes "\<forall>s \<in> set iterables. py_sorted key reverse s = s"
  shows "merge key reverse iterables = Inr (py_sorted key reverse (concat iterables))"
proof -
  have "in_order key reverse s" if "s \<in> set iterables" for s
    using assms that by (metis in_order_sorted py_sorted_def rev_map rev_rev_ident sorted_sort_key)
  then obtain out where "merge key reverse iterables = Inr out" "in_order key reverse out"
      "\<forall>k. filter (\<lambda>x. key x = k) out = filter (\<lambda>x. key x = k) (concat iterables)"
    using heap_merge_sorts[of reverse "heapify_with (ahead reverse) (merge_start key (direction reverse) 0 iterables)" key iterables]
    by (auto simp: merge_def items.heapify_heap heapify_mset)
  then show ?thesis using py_sorted_unique[of key out "concat iterables" reverse] by simp
qed

theorem merge_is_sorted_witness:
  "merge (\<lambda>x. x) True [[9, 4], [], [7, 7, 1 :: int]] = Inr [9, 7, 7, 4, 1]"
  using merge_is_sorted[of "[[9, 4], [], [7, 7, 1 :: int]]" "\<lambda>x. x" True] by (simp add: py_sorted_def)

section \<open>Selecting is sorting and cutting off\<close>

lemma filter_py_sorted: "filter (\<lambda>x. key x = k) (py_sorted key reverse xs) = filter (\<lambda>x. key x = k) xs"
  by (simp add: py_sorted_def rev_filter[symmetric] sort_key_stable)

lemma in_order_py_sorted: "in_order key reverse (py_sorted key reverse xs)"
  by (simp add: in_order_sorted py_sorted_def rev_map)

lemma mset_py_sorted [simp]: "mset (py_sorted key reverse xs) = mset xs"
  by (simp add: py_sorted_def)

lemma length_py_sorted [simp]: "length (py_sorted key reverse xs) = length xs"
  by (simp add: py_sorted_def)

text \<open>Putting one more item into its place, after the items of the same key.\<close>

definition place :: "('a \<Rightarrow> 'k :: linorder) \<Rightarrow> bool \<Rightarrow> 'a \<Rightarrow> 'a list \<Rightarrow> 'a list" where
  "place key reverse e L = takeWhile (\<lambda>x. \<not> key_lt reverse (key e) (key x)) L @ e #
     dropWhile (\<lambda>x. \<not> key_lt reverse (key e) (key x)) L"

lemma mset_place [simp]: "mset (place key reverse e L) = add_mset e (mset L)"
  unfolding place_def
  by (metis add_mset_add_single mset.simps(2) mset_append takeWhile_dropWhile_id union_mset_add_mset_right)

lemma dropWhile_after:
  assumes "in_order key reverse L" and "y \<in> set (dropWhile (\<lambda>x. \<not> key_lt reverse k (key x)) L)"
  shows "key_lt reverse k (key y)"
  using assms
proof (induction L)
  case (Cons a L)
  show ?case
  proof (cases "key_lt reverse k (key a)")
    case True
    then have "y = a \<or> \<not> key_lt reverse (key y) (key a)" using Cons by auto
    then show ?thesis using True key_lt_trans[of reverse k "key y" "key a"] by auto
  qed (use Cons in simp)
qed simp

lemma takeWhile_before: "y \<in> set (takeWhile (\<lambda>x. \<not> key_lt reverse k (key x)) L) \<Longrightarrow> \<not> key_lt reverse k (key y)"
  by (auto dest: set_takeWhileD)

lemma key_lt_asym: "key_lt reverse a b \<Longrightarrow> \<not> key_lt reverse b a"
  by (auto simp: key_lt_def split: if_splits)

lemma place_split:
  assumes "in_order key reverse L"
  obtains X Y where "L = X @ Y" "\<forall>x \<in> set X. \<not> key_lt reverse (key e) (key x)"
    "\<forall>y \<in> set Y. key_lt reverse (key e) (key y)" "place key reverse e L = X @ e # Y"
proof
  let ?P = "\<lambda>x. \<not> key_lt reverse (key e) (key x)"
  show "L = takeWhile ?P L @ dropWhile ?P L" by simp
  show "\<forall>x \<in> set (takeWhile ?P L). ?P x" using takeWhile_before by fast
  show "\<forall>y \<in> set (dropWhile ?P L). key_lt reverse (key e) (key y)" using dropWhile_after[OF assms] by fast
qed (simp add: place_def)

lemma in_order_place:
  assumes "in_order key reverse L"
  shows "in_order key reverse (place key reverse e L)"
proof -
  obtain X Y where L: "L = X @ Y" and X: "\<forall>x \<in> set X. \<not> key_lt reverse (key e) (key x)"
      and Y: "\<forall>y \<in> set Y. key_lt reverse (key e) (key y)" and pl: "place key reverse e L = X @ e # Y"
    by (rule place_split[OF assms])
  have "\<forall>y \<in> set Y. \<not> key_lt reverse (key y) (key e)" using Y key_lt_asym by blast
  then show ?thesis using assms X L unfolding pl by (simp add: in_order_def sorted_wrt_append)
qed

lemma py_sorted_snoc: "py_sorted key reverse (xs @ [e]) = place key reverse e (py_sorted key reverse xs)"
proof (rule py_sorted_unique)
  let ?L = "py_sorted key reverse xs"
  show "in_order key reverse (place key reverse e ?L)" by (intro in_order_place in_order_py_sorted)
  fix k
  obtain X Y where L: "?L = X @ Y" and "\<forall>x \<in> set X. \<not> key_lt reverse (key e) (key x)"
      and Y: "\<forall>y \<in> set Y. key_lt reverse (key e) (key y)" and pl: "place key reverse e ?L = X @ e # Y"
    by (rule place_split[OF in_order_py_sorted])
  have "filter (\<lambda>x. key x = key e) Y = []"
    using Y key_lt_irrefl unfolding filter_empty_conv by metis
  moreover have "filter (\<lambda>x. key x = k) X @ filter (\<lambda>x. key x = k) Y = filter (\<lambda>x. key x = k) xs"
    using filter_py_sorted[of key k reverse xs] L by simp
  ultimately show "filter (\<lambda>x. key x = k) (place key reverse e ?L) = filter (\<lambda>x. key x = k) (xs @ [e])"
    unfolding pl by (cases "k = key e") auto
qed

lemma take_place:
  assumes "in_order key reverse L" and "n < length L"
  shows "take (Suc n) (place key reverse e L) =
    (if key_lt reverse (key e) (key (L ! n)) then place key reverse e (take n L) else take (Suc n) L)"
proof -
  let ?P = "\<lambda>x. \<not> key_lt reverse (key e) (key x)"
  obtain X Y where L: "L = X @ Y" and X: "\<forall>x \<in> set X. ?P x" and Y: "\<forall>y \<in> set Y. \<not> ?P y"
    by (rule place_split[OF assms(1), of e]) simp
  have pl: "place key reverse e (X @ Z) = X @ e # Z" if "\<forall>y \<in> set Z. \<not> ?P y" for Z
    using that X by (cases Z) (auto simp: place_def takeWhile_append2 dropWhile_append2)
  show ?thesis
  proof (cases "n < length X")
    case True
    then have "?P (L ! n)" using X by (simp add: L nth_append)
    then show ?thesis using True pl[OF Y] by (simp add: L)
  next
    case False
    then have "L ! n \<in> set Y" using assms(2) by (simp add: L nth_append)
    then have "\<not> ?P (L ! n)" using Y by blast
    moreover have "place key reverse e (take n L) = X @ e # take (n - length X) Y"
      using pl[of "take (n - length X) Y"] Y False by (auto simp: L dest: in_set_takeD)
    ultimately show ?thesis using False pl[OF Y] by (simp add: L Suc_diff_le)
  qed
qed

text \<open>A ranking: items with counters below a bound, each strictly ahead of the next.\<close>

definition ranking :: "('a \<Rightarrow> 'k :: linorder) \<Rightarrow> bool \<Rightarrow> int \<Rightarrow> ('k \<times> int \<times> 'a) list \<Rightarrow> bool" where
  "ranking key reverse m L \<longleftrightarrow> sorted_wrt (ahead reverse) L \<and>
     (\<forall>z \<in> set L. \<exists>y i. z = (key y, i * direction reverse, y) \<and> i < m)"

abbreviation item_elem :: "'k \<times> int \<times> 'a \<Rightarrow> 'a" where
  "item_elem \<equiv> \<lambda>(k, order, elem). elem"

lemma ranking_keys: "ranking key reverse m L \<Longrightarrow> z \<in> set L \<Longrightarrow> fst z = key (item_elem z)"
  by (auto simp: ranking_def)

lemma ranking_in_order:
  assumes "ranking key reverse m L"
  shows "in_order fst reverse L"
proof -
  have "\<not> key_lt reverse (fst z') (fst z)" if "ahead reverse z z'" for z z' :: "'k :: linorder \<times> int \<times> 'a"
    using that key_lt_asym by (cases z; cases z') (auto simp: ahead_def key_lt_def split: if_splits)
  then show ?thesis
    using assms unfolding in_order_def ranking_def by (blast intro: sorted_wrt_mono_rel)
qed

lemma ranking_place:
  assumes "ranking key reverse m L"
  shows "ranking key reverse (m + 1) (place fst reverse (key e, m * direction reverse, e) L)"
proof -
  let ?z = "(key e, m * direction reverse, e)"
  obtain X Y where L: "L = X @ Y" and X: "\<forall>x \<in> set X. \<not> key_lt reverse (key e) (fst x)"
      and Y: "\<forall>y \<in> set Y. key_lt reverse (key e) (fst y)" and pl: "place fst reverse ?z L = X @ ?z # Y"
    using place_split[OF ranking_in_order[OF assms], of ?z] by auto
  have form: "\<exists>y i. z = (key y, i * direction reverse, y) \<and> i < m" if "z \<in> set L" for z
    using assms that by (simp add: ranking_def)
  have "ahead reverse x ?z" if xX: "x \<in> set X" for x
  proof -
    obtain y i where x: "x = (key y, i * direction reverse, y)" "i < m" using form[of x] xX L by auto
    then have "\<not> key_lt reverse (key e) (key y)" using X xX by auto
    then show ?thesis using x key_lt_total[of reverse "key e" "key y"] by (auto simp: ahead_iff)
  qed
  moreover have "ahead reverse ?z y" if "y \<in> set Y" for y
    using Y that form[of y] L by (auto simp: ahead_iff)
  moreover have "\<exists>y i. z = (key y, i * direction reverse, y) \<and> i < m + 1" if z: "z \<in> set (X @ ?z # Y)" for z
  proof (cases "z = ?z")
    case False
    then obtain y i where "z = (key y, i * direction reverse, y)" "i < m" using form[of z] z L by auto
    then show ?thesis by (metis zless_add1_eq)
  qed auto
  ultimately show ?thesis
    using assms L unfolding pl by (auto simp: ranking_def sorted_wrt_append)
qed

lemma map_place:
  assumes "ranking key reverse m L"
  shows "map item_elem (place fst reverse (key e, i, e) L) = place key reverse e (map item_elem L)"
proof -
  let ?P = "\<lambda>x. \<not> key_lt reverse (key e) (key x)"
  have "takeWhile (\<lambda>z. \<not> key_lt reverse (key e) (fst z)) L = takeWhile (?P \<circ> item_elem) L"
    "dropWhile (\<lambda>z. \<not> key_lt reverse (key e) (fst z)) L = dropWhile (?P \<circ> item_elem) L"
    using ranking_keys[OF assms] by (auto intro!: takeWhile_cong dropWhile_cong)
  then show ?thesis by (simp add: place_def takeWhile_map dropWhile_map)
qed

lemma ranking_decorate:
  "\<exists>L. ranking key reverse (int (length xs)) L \<and> mset L = mset (decorate key reverse xs) \<and>
     map item_elem L = py_sorted key reverse xs"
proof (induction xs rule: rev_induct)
  case Nil
  show ?case by (simp add: ranking_def decorate_def py_sorted_def)
next
  case (snoc e xs)
  then obtain L where L: "ranking key reverse (int (length xs)) L" "mset L = mset (decorate key reverse xs)"
      "map item_elem L = py_sorted key reverse xs" by blast
  let ?L = "place fst reverse (key e, int (length xs) * direction reverse, e) L"
  have "ranking key reverse (int (length (xs @ [e]))) ?L" using ranking_place[OF L(1), of e] by (simp add: add.commute)
  moreover have "mset ?L = mset (decorate key reverse (xs @ [e]))"
    using L(2) by (simp add: decorate_def enumerate_append_eq)
  moreover have "map item_elem ?L = py_sorted key reverse (xs @ [e])"
    using L(3) by (simp add: map_place[OF L(1)] py_sorted_snoc)
  ultimately show ?case by blast
qed

lemma ranking_top:
  assumes "ranking key reverse m L" and "mset h = mset L" and "is_heap (ahead (\<not> reverse)) h" and "L \<noteq> []"
  shows "h ! 0 = last L"
proof (rule ccontr)
  assume ne: "h ! 0 \<noteq> last L"
  have sets: "set h = set L" using assms(2) by (metis set_mset_mset)
  then have "h ! 0 \<in> set L" using assms(4) by (metis length_greater_0_conv list.set(1) nth_mem set_empty)
  then have "h ! 0 \<in> set (butlast L)" using ne assms(4) by (metis append_butlast_last_id in_set_conv_decomp rotate1.simps(2) set_ConsD set_rotate1)
  moreover have "sorted_wrt (ahead reverse) (butlast L @ [last L])" using assms(1,4) by (simp add: ranking_def)
  ultimately have "ahead reverse (h ! 0) (last L)" by (simp add: sorted_wrt_append)
  moreover have "\<not> ahead (\<not> reverse) (last L) (h ! 0)"
    using items.root_least[OF assms(3)] sets assms(4) by simp
  ultimately show False by (simp add: ahead_def split: if_splits)
qed

lemma ranking_butlast: "ranking key reverse m L \<Longrightarrow> ranking key reverse m (butlast L)"
  by (cases L rule: rev_cases) (auto simp: ranking_def sorted_wrt_append)

lemma select_loop_ranking:
  assumes "ranking key reverse m L" and "mset h = mset L" and "is_heap (ahead (\<not> reverse)) h"
    and "map item_elem L = take (Suc n) (py_sorted key reverse pre)" and "n < length pre"
  shows "\<exists>h' m' L'. select_loop key reverse (m * direction reverse) h it = Inr h' \<and> ranking key reverse m' L' \<and>
    mset h' = mset L' \<and> map item_elem L' = take (Suc n) (py_sorted key reverse (pre @ it))"
  using assms
proof (induction it arbitrary: m L h pre)
  case (Cons e it)
  let ?S = "py_sorted key reverse pre"
  have len: "length L = Suc n" using arg_cong[OF Cons(5), of length] Cons(6) by simp
  then have L: "L \<noteq> []" by auto
  have top: "h ! 0 = last L" by (rule ranking_top[OF Cons(2-4) L])
  have "item_elem (last L) = ?S ! n"
    using arg_cong[OF Cons(5), of last] L Cons(6) by (simp add: last_map take_Suc_conv_app_nth)
  then have fst_top: "fst (h ! 0) = key (?S ! n)"
    using ranking_keys[OF Cons(2), of "last L"] L top by simp
  have new: "take (Suc n) (py_sorted key reverse (pre @ [e])) =
    (if key_lt reverse (key e) (fst (h ! 0)) then place key reverse e (take n ?S) else take (Suc n) ?S)"
    using take_place[OF in_order_py_sorted[of key reverse pre], of n e] Cons(6) fst_top by (simp add: py_sorted_snoc)
  show ?case
  proof (cases "key_lt reverse (key e) (fst (h ! 0))")
    case True
    let ?z = "(key e, m * direction reverse, e)"
    let ?L = "place fst reverse ?z (butlast L)"
    have "h \<noteq> []" using Cons(3) L by auto
    then obtain h' where h': "replace_heap (ahead (\<not> reverse)) h ?z = Inr (h ! 0, h')"
        "is_heap (ahead (\<not> reverse)) h'" "mset h' = add_mset ?z (mset h - {#h ! 0#})"
      using items.replace_nonempty[OF Cons(4), of ?z] by blast
    have "mset L = add_mset (last L) (mset (butlast L))" using L by (metis append_butlast_last_id mset.simps(2) mset_append union_mset_add_mset_right add.right_neutral mset.simps(1))
    then have m: "mset h' = mset ?L" using h'(3) top Cons(3) by simp
    have r: "ranking key reverse (m + 1) ?L" by (rule ranking_place[OF ranking_butlast[OF Cons(2)]])
    have "map item_elem (butlast L) = take n ?S"
      using Cons(5,6) by (simp add: map_butlast take_butlast butlast_take)
    then have "map item_elem ?L = take (Suc n) (py_sorted key reverse (pre @ [e]))"
      using True by (simp add: map_place[OF ranking_butlast[OF Cons(2)]] new)
    then show ?thesis
      using Cons(1)[OF r m h'(2), of "pre @ [e]"] Cons(6) True h'(1) by (simp add: bindE_def distrib_right)
  next
    case False
    then show ?thesis using Cons(1)[OF Cons(2-4), of "pre @ [e]"] Cons(5,6) new by simp
  qed
qed auto

lemma sort_ranking:
  assumes "ranking key reverse m L" and "mset h = mset L"
  shows "py_sorted (\<lambda>(k, order, elem). (k, order)) reverse h = L"
proof -
  let ?f = "\<lambda>(k, order, elem). (k, order)"
  have ahead: "ahead reverse = (\<lambda>x y :: 'k :: linorder \<times> int \<times> 'a. if reverse then ?f y < ?f x else ?f x < ?f y)"
    by (intro ext) (simp add: ahead_def split: prod.split)
  have "sorted_wrt (ahead reverse) L" using assms(1) by (simp add: ranking_def)
  then have s: "if reverse then sorted_wrt (<) (rev (map ?f L)) else sorted_wrt (<) (map ?f L)"
    unfolding ahead by (cases reverse) (simp_all add: sorted_wrt_map sorted_wrt_rev)
  then have d: "distinct (map ?f L)" by (metis distinct_rev strict_sorted_iff)
  have inj: "inj_on ?f (set h)" using d assms(2) by (metis distinct_map set_mset_mset)
  show ?thesis
  proof (cases reverse)
    case True
    have "sort_key ?f (rev h) = rev L"
      using assms(2) inj s True by (intro sort_key_inj_key_eq) (auto simp: rev_map strict_sorted_iff)
    then show ?thesis using True by (simp add: py_sorted_def)
  next
    case False
    have "sort_key ?f h = L"
      using assms(2) inj s False by (intro sort_key_inj_key_eq) (auto simp: strict_sorted_iff)
    then show ?thesis using False by (simp add: py_sorted_def)
  qed
qed

lemma first_extreme_first: "take 1 (py_sorted key reverse (x # xs)) = [first_extreme key reverse x xs]"
proof (induction xs rule: rev_induct)
  case (snoc e xs)
  let ?S = "py_sorted key reverse (x # xs)"
  have "?S ! 0 = first_extreme key reverse x xs" using snoc by (cases ?S) auto
  then show ?case
    using take_place[OF in_order_py_sorted[of key reverse "x # xs"], of 0 e] snoc py_sorted_snoc[of key reverse "x # xs" e]
    by (simp add: place_def first_extreme_def)
qed (simp add: py_sorted_def first_extreme_def)

lemma n_extreme_sorted: "n_extreme key reverse sized n xs = Inr (take (nat n) (py_sorted key reverse xs))"
proof -
  let ?h = "heapify_with (ahead (\<not> reverse)) (decorate key reverse (take (nat n) xs))"
  have one: ?thesis if "n = 1"
    using first_extreme_first[of key reverse] that by (auto simp: n_extreme_def py_sorted_def split: list.split)
  have short: ?thesis if "n \<noteq> 1" "n \<le> 0 \<or> xs = []"
    using that by (auto simp: n_extreme_def decorate_def py_sorted_def)
  have loop: "\<exists>h. select_loop key reverse (n * direction reverse) ?h (drop (nat n) xs) = Inr h \<and>
      map item_elem (py_sorted (\<lambda>(k, order, elem). (k, order)) reverse h) = take (nat n) (py_sorted key reverse xs)"
    if n: "0 < n" "xs \<noteq> []"
  proof -
    obtain L where L: "ranking key reverse (int (length (take (nat n) xs))) L"
        "mset L = mset (decorate key reverse (take (nat n) xs))" "map item_elem L = py_sorted key reverse (take (nat n) xs)"
      using ranking_decorate[of key reverse "take (nat n) xs"] by blast
    have h: "mset ?h = mset L" using L(2) by (simp add: heapify_mset)
    show ?thesis
    proof (cases "nat n \<le> length xs")
      case True
      then obtain j where j: "nat n = Suc j" using n by (cases "nat n") auto
      have r: "ranking key reverse n L" using L(1) True n by simp
      obtain h' m' L' where "select_loop key reverse (n * direction reverse) ?h (drop (nat n) xs) = Inr h'"
          "ranking key reverse m' L'" "mset h' = mset L'"
          "map item_elem L' = take (Suc j) (py_sorted key reverse (take (nat n) xs @ drop (nat n) xs))"
        using select_loop_ranking[OF r h items.heapify_heap, of j "take (nat n) xs" "drop (nat n) xs"] L(3) True j
        by auto
      then show ?thesis using sort_ranking[of key reverse m' L' h'] j by simp
    next
      case False
      then have "take (nat n) (py_sorted key reverse xs) = py_sorted key reverse xs" by simp
      then show ?thesis using False sort_ranking[OF L(1) h] L(3) by simp
    qed
  qed
  show ?thesis
  proof (cases "n = 1 \<or> n \<le> 0 \<or> xs = []")
    case False
    then have "decorate key reverse (take (nat n) xs) \<noteq> []"
      by (cases xs; cases "nat n") (auto simp: decorate_def)
    then show ?thesis using False loop by (auto simp: n_extreme_def Let_def bindE_def)
  qed (use one short in blast)
qed

text \<open>
  C32: Equivalence.  \<^verbatim>\<open>nsmallest\<close> and \<^verbatim>\<open>nlargest\<close>, which keep only \<^verbatim>\<open>n\<close> items in a heap, never raise and
  return what sorting everything and keeping the first \<^verbatim>\<open>n\<close> items returns: with the key, stably,
  for iterables with a length and without one, for the short cuts and in the general case.
  For a negative \<^verbatim>\<open>n\<close> both are empty, unlike the slice the documentation gives.
\<close>
theorem nsmallest_nlargest_sorted:
  "nsmallest key sized n xs = Inr (take (nat n) (py_sorted key False xs)) \<and>
   nlargest key sized n xs = Inr (take (nat n) (py_sorted key True xs))"
  by (simp add: nsmallest_def nlargest_def n_extreme_sorted)

end
