(* ===== verification/Bisect.thy ===== *)
theory Bisect
  imports HeapqSelect
begin

text \<open>
  \<^verbatim>\<open>bisect.py\<close> of the shipped Python runtime: binary search in a sorted list and insertion that
  keeps it sorted.  The four search loops of the source, with and without a key function,
  differ in the test that sends the search to the left half: \<^verbatim>\<open>x < key(a[mid])\<close> in
  \<^verbatim>\<open>bisect_right\<close>, the opposite of \<^verbatim>\<open>key(a[mid]) < x\<close> in \<^verbatim>\<open>bisect_left\<close>, and no key is the identity.
\<close>

section \<open>Searching\<close>

function bisect_loop :: "('a \<Rightarrow> bool) \<Rightarrow> 'a list \<Rightarrow> nat \<Rightarrow> nat \<Rightarrow> nat result" where
  "bisect_loop left a lo hi =
     (if lo < hi then
        let mid = (lo + hi) div 2 in
        bindE (py_nth a mid) (\<lambda>y. if left y then bisect_loop left a lo mid else bisect_loop left a (mid + 1) hi)
      else Inr lo)"
  by pat_completeness auto
termination
  by (relation "measure (\<lambda>(_, _, lo, hi). hi - lo)") auto

declare bisect_loop.simps [simp del]

definition bisect_right :: "('a \<Rightarrow> 'k :: linorder) \<Rightarrow> 'a list \<Rightarrow> 'k \<Rightarrow> int \<Rightarrow> int option \<Rightarrow> nat result" where
  "bisect_right key a x lo hi =
     (if lo < 0 then Inl ValueError
      else bisect_loop (\<lambda>y. x < key y) a (nat lo) (case hi of None \<Rightarrow> length a | Some hi \<Rightarrow> nat hi))"

definition bisect_left :: "('a \<Rightarrow> 'k :: linorder) \<Rightarrow> 'a list \<Rightarrow> 'k \<Rightarrow> int \<Rightarrow> int option \<Rightarrow> nat result" where
  "bisect_left key a x lo hi =
     (if lo < 0 then Inl ValueError
      else bisect_loop (\<lambda>y. \<not> key y < x) a (nat lo) (case hi of None \<Rightarrow> length a | Some hi \<Rightarrow> nat hi))"

definition list_insert :: "'a list \<Rightarrow> nat \<Rightarrow> 'a \<Rightarrow> 'a list" where
  "list_insert a i x = take i a @ x # drop i a"

definition insort_right :: "('a \<Rightarrow> 'k :: linorder) \<Rightarrow> 'a list \<Rightarrow> 'a \<Rightarrow> int \<Rightarrow> int option \<Rightarrow> 'a list result" where
  "insort_right key a x lo hi = bindE (bisect_right key a (key x) lo hi) (\<lambda>lo. Inr (list_insert a lo x))"

definition insort_left :: "('a \<Rightarrow> 'k :: linorder) \<Rightarrow> 'a list \<Rightarrow> 'a \<Rightarrow> int \<Rightarrow> int option \<Rightarrow> 'a list result" where
  "insort_left key a x lo hi = bindE (bisect_left key a (key x) lo hi) (\<lambda>lo. Inr (list_insert a lo x))"

section \<open>Where the search ends\<close>

text \<open>The loop ends within its bounds on any list.  Where the test, once true, stays true, it
  ends at the first position where it is true.\<close>

definition switches :: "('a \<Rightarrow> bool) \<Rightarrow> 'a list \<Rightarrow> nat \<Rightarrow> nat \<Rightarrow> bool" where
  "switches left a lo hi \<longleftrightarrow> (\<forall>i j. lo \<le> i \<longrightarrow> i \<le> j \<longrightarrow> j < hi \<longrightarrow> left (a ! i) \<longrightarrow> left (a ! j))"

lemma switchesD: "switches left a lo hi \<Longrightarrow> left (a ! i) \<Longrightarrow> lo \<le> i \<Longrightarrow> i \<le> j \<Longrightarrow> j < hi \<Longrightarrow> left (a ! j)"
  unfolding switches_def by blast

lemma switches_sub: "switches left a lo hi \<Longrightarrow> lo \<le> lo' \<Longrightarrow> hi' \<le> hi \<Longrightarrow> switches left a lo' hi'"
  unfolding switches_def by (meson less_le_trans order.trans)

lemma bisect_loop_step:
  "lo < hi \<Longrightarrow> hi \<le> length a \<Longrightarrow> bisect_loop left a lo hi =
     (if left (a ! ((lo + hi) div 2)) then bisect_loop left a lo ((lo + hi) div 2)
      else bisect_loop left a ((lo + hi) div 2 + 1) hi)"
  by (subst bisect_loop.simps) (simp add: py_nth_ok Let_def)

lemma bisect_loop_stop: "\<not> lo < hi \<Longrightarrow> bisect_loop left a lo hi = Inr lo"
  by (subst bisect_loop.simps) simp

lemma bisect_loop_ok:
  "hi \<le> length a \<Longrightarrow> \<exists>i. bisect_loop left a lo hi = Inr i \<and> lo \<le> i \<and> i \<le> max lo hi \<and>
     (switches left a lo hi \<longrightarrow>
       (\<forall>j. lo \<le> j \<and> j < i \<longrightarrow> \<not> left (a ! j)) \<and> (\<forall>j. i \<le> j \<and> j < hi \<longrightarrow> left (a ! j)))"
proof (induction "hi - lo" arbitrary: lo hi rule: less_induct)
  case less
  define mid where "mid = (lo + hi) div 2"
  show ?case
  proof (cases "lo < hi")
    case True
    then have mid: "lo \<le> mid" "mid < hi" by (auto simp: mid_def)
    show ?thesis
    proof (cases "left (a ! mid)")
      case l: True
      have "mid - lo < hi - lo" using mid by linarith
      then obtain i where i: "bisect_loop left a lo mid = Inr i" "lo \<le> i" "i \<le> mid"
        "switches left a lo mid \<longrightarrow> (\<forall>j. lo \<le> j \<and> j < i \<longrightarrow> \<not> left (a ! j)) \<and> (\<forall>j. i \<le> j \<and> j < mid \<longrightarrow> left (a ! j))"
        using less(1)[of mid lo] less(2) mid by (auto simp: max_absorb2)
      have "left (a ! j)" if "switches left a lo hi" "i \<le> j" "j < hi" for j
        using that switchesD[OF that(1) l mid(1)] switches_sub[OF that(1)] mid i(4) by (cases "j < mid") auto
      moreover have "\<not> left (a ! j)" if "switches left a lo hi" "lo \<le> j" "j < i" for j
        using that switches_sub[OF that(1)] mid i(4) by auto
      ultimately show ?thesis
        using bisect_loop_step[OF True less(2), of left] i mid l by (auto simp: mid_def[symmetric])
    next
      case r: False
      have "hi - (mid + 1) < hi - lo" using mid by linarith
      then obtain i where i: "bisect_loop left a (mid + 1) hi = Inr i" "mid < i" "i \<le> hi"
        "switches left a (mid + 1) hi \<longrightarrow> (\<forall>j. mid < j \<and> j < i \<longrightarrow> \<not> left (a ! j)) \<and> (\<forall>j. i \<le> j \<and> j < hi \<longrightarrow> left (a ! j))"
        using less(1)[of hi "mid + 1"] less(2) mid by (auto simp: max_absorb2 Suc_le_eq)
      have "\<not> left (a ! j)" if "switches left a lo hi" "lo \<le> j" "j < i" for j
        using that switchesD[OF that(1) _ that(2) _ mid(2)] r switches_sub[OF that(1), of "mid + 1" hi] mid i(4)
        by (cases "j \<le> mid") auto
      moreover have "left (a ! j)" if "switches left a lo hi" "i \<le> j" "j < hi" for j
        using that switches_sub[OF that(1), of "mid + 1" hi] mid i(4) by auto
      ultimately show ?thesis
        using bisect_loop_step[OF True less(2), of left] i mid r by (auto simp: mid_def[symmetric])
    qed
  qed (auto simp: bisect_loop_stop)
qed

lemma sorted_switches:
  fixes key :: "'a \<Rightarrow> 'k :: linorder"
  assumes "\<And>i j. p \<le> i \<Longrightarrow> i \<le> j \<Longrightarrow> j < q \<Longrightarrow> key (a ! i) \<le> key (a ! j)"
  shows "switches (\<lambda>y. x < key y) a p q" "switches (\<lambda>y. \<not> key y < x) a p q"
proof -
  have "x < key (a ! j)" if "p \<le> i" "i \<le> j" "j < q" "x < key (a ! i)" for i j
    using assms[OF that(1-3)] that(4) by simp
  then show "switches (\<lambda>y. x < key y) a p q" by (simp add: switches_def)
  have "\<not> key (a ! j) < x" if "p \<le> i" "i \<le> j" "j < q" "\<not> key (a ! i) < x" for i j
    using assms[OF that(1-3)] that(4) by simp
  then show "switches (\<lambda>y. \<not> key y < x) a p q" by (simp add: switches_def)
qed

definition search_end :: "'a list \<Rightarrow> int option \<Rightarrow> int" where
  "search_end a hi = (case hi of None \<Rightarrow> int (length a) | Some h \<Rightarrow> h)"

lemma bisect_defs:
  "0 \<le> lo \<Longrightarrow> bisect_right key a x lo hi = bisect_loop (\<lambda>y. x < key y) a (nat lo) (nat (search_end a hi))"
  "0 \<le> lo \<Longrightarrow> bisect_left key a x lo hi = bisect_loop (\<lambda>y. \<not> key y < x) a (nat lo) (nat (search_end a hi))"
  by (auto simp: bisect_right_def bisect_left_def search_end_def split: option.split)

text \<open>
  C33: Bounds.  For a start that is not negative, an end within the list and the part between
  them sorted by the key, both searches return a position within the bounds searched, the left
  one not after the right one; the keys before the left position are smaller than the item,
  those between the two positions equal to it and those after the right one larger.  On the same
  list a negative start is a \<^verbatim>\<open>ValueError\<close>.
\<close>
theorem bisect_positions:
  assumes "0 \<le> lo" and "search_end a hi \<le> int (length a)"
    and "sorted (map key (py_slice a (nat lo) (nat (search_end a hi))))"
  shows "\<exists>l r. bisect_left key a x lo hi = Inr l \<and> bisect_right key a x lo hi = Inr r \<and>
    nat lo \<le> l \<and> l \<le> r \<and> int r \<le> max lo (search_end a hi) \<and>
    (\<forall>j. nat lo \<le> j \<and> j < l \<longrightarrow> key (a ! j) < x) \<and>
    (\<forall>j. l \<le> j \<and> j < r \<longrightarrow> key (a ! j) = x) \<and>
    (\<forall>j. r \<le> j \<and> int j < search_end a hi \<longrightarrow> x < key (a ! j)) \<and>
    bisect_left key a x (- lo - 1) hi = Inl ValueError \<and> bisect_right key a x (- lo - 1) hi = Inl ValueError"
proof -
  define p q where "p = nat lo" and "q = nat (search_end a hi)"
  have q: "q \<le> length a" using assms(2) by (simp add: q_def)
  have le: "key (a ! i) \<le> key (a ! j)" if ij: "p \<le> i" "i \<le> j" "j < q" for i j
  proof -
    have "map key (py_slice a p q) ! (i - p) \<le> map key (py_slice a p q) ! (j - p)"
      using assms(3) ij q by (intro sorted_nth_mono) (auto simp: p_def q_def length_py_slice)
    then show ?thesis using ij q by (simp add: nth_py_slice length_py_slice)
  qed
  note sw = sorted_switches[of p q key a, OF le]
  obtain r where r: "bisect_right key a x lo hi = Inr r" "p \<le> r" "r \<le> max p q"
      "\<forall>j. p \<le> j \<and> j < r \<longrightarrow> \<not> x < key (a ! j)" "\<forall>j. r \<le> j \<and> j < q \<longrightarrow> x < key (a ! j)"
    using bisect_loop_ok[OF q, of "\<lambda>y. x < key y" p] sw(1)
    unfolding bisect_defs(1)[OF assms(1)] p_def[symmetric] q_def[symmetric] by blast
  obtain l where l: "bisect_left key a x lo hi = Inr l" "p \<le> l" "l \<le> max p q"
      "\<forall>j. p \<le> j \<and> j < l \<longrightarrow> key (a ! j) < x" "\<forall>j. l \<le> j \<and> j < q \<longrightarrow> \<not> key (a ! j) < x"
    using bisect_loop_ok[OF q, of "\<lambda>y. \<not> key y < x" p] sw(2)
    unfolding bisect_defs(2)[OF assms(1)] p_def[symmetric] q_def[symmetric] by auto
  have "l \<le> r"
  proof (rule ccontr)
    assume "\<not> l \<le> r"
    then have "r < q" "x < key (a ! r)" "key (a ! r) < x" using l r by auto
    then show False by simp
  qed
  moreover have "key (a ! j) = x" if "l \<le> j" "j < r" for j
    using r(3,4) l(2,5) that by (metis le_antisym less_le_trans linorder_neqE max.absorb2 max_def not_less order.trans)
  moreover have "int r \<le> max lo (search_end a hi)" using r(2,3) assms(1) by (auto simp: p_def q_def max_def split: if_splits)
  ultimately show ?thesis
    using l r assms(1) by (auto simp: p_def q_def bisect_left_def bisect_right_def)
qed

theorem bisect_positions_witness:
  "\<exists>l r. bisect_left id [1, 3, 3, 8 :: int] 3 1 None = Inr l \<and> bisect_right id [1, 3, 3, 8 :: int] 3 1 None = Inr r \<and>
    1 \<le> l \<and> l \<le> r \<and> r \<le> 4"
  using bisect_positions[of 1 "[1, 3, 3, 8 :: int]" None id 3]
  by (auto simp: search_end_def py_slice_def)

section \<open>Insertion\<close>

lemma sorted_insert_unique:
  assumes "sorted (map key a)" and "i \<le> length a"
    and "\<forall>j < i. key (a ! j) \<le> key x" and "\<forall>j. i \<le> j \<and> j < length a \<longrightarrow> key x \<le> key (a ! j)"
  shows "in_order key False (list_insert a i x)"
proof -
  have "sorted (map key (take i a @ drop i a))" using assms(1) by simp
  moreover have "\<forall>y \<in> set (take i a). key y \<le> key x" using assms(2,3) by (auto simp: in_set_conv_nth)
  moreover have "\<forall>y \<in> set (drop i a). key x \<le> key y" using assms(2,4) by (auto simp: in_set_conv_nth)
  ultimately show ?thesis
    unfolding in_order_sorted list_insert_def if_False map_append list.map sorted_append by auto
qed

text \<open>
  C34: Inserting into a list sorted by the key, searched as a whole (the default bounds), gives the
  stable sort of the list with the item added: at its end for \<^verbatim>\<open>insort_right\<close>, at its front for \<^verbatim>\<open>insort_left\<close>.
\<close>
theorem insort_sorted:
  assumes "sorted (map key a)"
  shows "insort_right key a x 0 None = Inr (py_sorted key False (a @ [x])) \<and>
    insort_left key a x 0 None = Inr (py_sorted key False (x # a))"
proof -
  have le: "i \<le> j \<Longrightarrow> j < length a \<Longrightarrow> key (a ! i) \<le> key (a ! j)" for i j
    using sorted_nth_mono[OF assms, of i j] by simp
  note sw = sorted_switches[of 0 "length a" key a, OF le]
  obtain r where r: "bisect_right key a (key x) 0 None = Inr r" "r \<le> length a"
      "\<forall>j < r. \<not> key x < key (a ! j)" "\<forall>j. r \<le> j \<and> j < length a \<longrightarrow> key x < key (a ! j)"
    using bisect_loop_ok[of "length a" a "\<lambda>y. key x < key y" 0] sw(1) by (auto simp: bisect_right_def)
  obtain l where l: "bisect_left key a (key x) 0 None = Inr l" "l \<le> length a"
      "\<forall>j < l. key (a ! j) < key x" "\<forall>j. l \<le> j \<and> j < length a \<longrightarrow> \<not> key (a ! j) < key x"
    using bisect_loop_ok[of "length a" a "\<lambda>y. \<not> key y < key x" 0] sw(2) by (auto simp: bisect_left_def)
  have split: "filter P (take i a) @ filter P (drop i a) = filter P a" for P i
    by (metis append_take_drop_id filter_append)
  have "\<forall>y \<in> set (drop r a). key x < key y" using r(2,4) by (auto simp: in_set_conv_nth)
  then have "filter (\<lambda>y. key y = key x) (drop r a) = []" by (auto simp: filter_empty_conv)
  then have "filter (\<lambda>y. key y = k) (list_insert a r x) = filter (\<lambda>y. key y = k) (a @ [x])" for k
    using split[of "\<lambda>y. key y = k" r] by (cases "k = key x") (auto simp: list_insert_def)
  then have "py_sorted key False (a @ [x]) = list_insert a r x"
    using sorted_insert_unique[OF assms r(2), of x] r(3,4) by (intro py_sorted_unique) (auto simp: not_less less_imp_le)
  moreover have "\<forall>y \<in> set (take l a). key y < key x" using l(2,3) by (auto simp: in_set_conv_nth)
  then have "filter (\<lambda>y. key y = key x) (take l a) = []" by (auto simp: filter_empty_conv)
  then have "filter (\<lambda>y. key y = k) (list_insert a l x) = filter (\<lambda>y. key y = k) (x # a)" for k
    using split[of "\<lambda>y. key y = k" l] by (cases "k = key x") (auto simp: list_insert_def)
  then have "py_sorted key False (x # a) = list_insert a l x"
    using sorted_insert_unique[OF assms l(2), of x] l(3,4) by (intro py_sorted_unique) (auto simp: not_less less_imp_le)
  ultimately show ?thesis using r(1) l(1) by (simp add: insort_right_def insort_left_def)
qed

theorem insort_sorted_witness:
  "insort_right fst [(1 :: int, ''a''), (3, ''b''), (5, ''c'')] (3, ''z'') 0 None
     = Inr [(1, ''a''), (3, ''b''), (3, ''z''), (5, ''c'')]"
  using insort_sorted[of fst "[(1 :: int, ''a''), (3, ''b''), (5, ''c'')]" "(3, ''z'')"] by (simp add: py_sorted_def)

end
