(* ===== verification/Graphlib.thy ===== *)
theory Graphlib
  imports Prelude
begin

text \<open>
  \<^verbatim>\<open>graphlib.py\<close> of the shipped Python runtime: the topological sorter.  Its table of nodes is a
  dict, here the list of its items in insertion order; a node's counter of predecessors also
  says whether it was handed out (-1) or finished (-2).  This theory has the model, building
  the table from a graph, and the search for a cycle.
\<close>

section \<open>State\<close>

record 'n node_info =
  npredecessors :: int
  successors :: "'n list"

type_synonym 'n node_table = "('n \<times> 'n node_info) list"

record 'n sorter =
  node2info :: "'n node_table"
  ready_nodes :: "'n list option"
  npassedout :: int
  nfinished :: int

abbreviation NODE_OUT :: int where
  "NODE_OUT \<equiv> -1"

abbreviation NODE_DONE :: int where
  "NODE_DONE \<equiv> -2"

definition new_node_info :: "'n node_info" where
  "new_node_info = \<lparr>npredecessors = 0, successors = []\<rparr>"

text \<open>An assignment to a field of the record a table holds for a node.\<close>

definition modify :: "'n \<Rightarrow> ('n node_info \<Rightarrow> 'n node_info) \<Rightarrow> 'n node_table \<Rightarrow> 'n node_table" where
  "modify node f t = map (\<lambda>(n, i). (n, if n = node then f i else i)) t"

section \<open>Building the table\<close>

definition get_nodeinfo :: "'n \<Rightarrow> 'n node_table \<Rightarrow> 'n node_table" where
  "get_nodeinfo node t = (case map_of t node of Some _ \<Rightarrow> t | None \<Rightarrow> t @ [(node, new_node_info)])"

definition add_successor :: "'n \<Rightarrow> 'n node_table \<Rightarrow> 'n \<Rightarrow> 'n node_table" where
  "add_successor node t pred =
     modify pred (\<lambda>i. i\<lparr>successors := successors i @ [node]\<rparr>) (get_nodeinfo pred t)"

definition sorter_add :: "'n sorter \<Rightarrow> 'n \<Rightarrow> 'n list \<Rightarrow> 'n sorter result" where
  "sorter_add ts node predecessors =
     (if ready_nodes ts \<noteq> None then Inl ValueError
      else let t = get_nodeinfo node (node2info ts);
               t = modify node (\<lambda>i. i\<lparr>npredecessors := npredecessors i + int (length predecessors)\<rparr>) t;
               t = foldl (add_successor node) t predecessors
           in Inr (ts\<lparr>node2info := t\<rparr>))"

definition sorter_new :: "('n \<times> 'n list) list \<Rightarrow> 'n sorter result" where
  "sorter_new graph =
     foldE (\<lambda>ts (node, predecessors). sorter_add ts node predecessors)
       \<lparr>node2info = [], ready_nodes = None, npassedout = 0, nfinished = 0\<rparr> graph"

section \<open>Searching for a cycle\<close>

text \<open>\<^verbatim>\<open>stack\<close> and \<^verbatim>\<open>itstack\<close> grow and shrink together; they are one list of frames, the topmost
  first, each with the successors its iterator has left.\<close>

type_synonym 'n frames = "('n \<times> 'n list) list"

fun backtrack :: "'n frames \<Rightarrow> ('n \<rightharpoonup> nat) \<Rightarrow> ('n \<times> 'n frames \<times> ('n \<rightharpoonup> nat)) option" where
  "backtrack [] pos = None"
| "backtrack ((n, []) # stack) pos = backtrack stack (pos(n := None))"
| "backtrack ((n, s # ss) # stack) pos = Some (s, (n, ss) # stack, pos)"

definition stack_nodes :: "'n frames \<Rightarrow> 'n list" where
  "stack_nodes stack = rev (map fst stack)"

lemma backtrack_size:
  "backtrack stack pos = Some (n, stack', pos') \<Longrightarrow>
     sum_list (map (length \<circ> snd) stack') < sum_list (map (length \<circ> snd) stack)"
  by (induction stack pos rule: backtrack.induct) auto

function visit :: "'n node_table \<Rightarrow> 'n \<Rightarrow> 'n frames \<Rightarrow> 'n set \<Rightarrow> ('n \<rightharpoonup> nat)
    \<Rightarrow> ('n list option \<times> 'n set) result" where
  "visit t node stack seen pos =
     (if node \<in> seen then
        (case pos node of
           Some i \<Rightarrow> Inr (Some (drop i (stack_nodes stack) @ [node]), seen)
         | None \<Rightarrow>
             (case backtrack stack pos of
                None \<Rightarrow> Inr (None, seen)
              | Some (node, stack, pos) \<Rightarrow> visit t node stack seen pos))
      else
        (case map_of t node of
           None \<Rightarrow> Inl KeyError
         | Some info \<Rightarrow>
             (case backtrack ((node, successors info) # stack) (pos(node \<mapsto> length stack)) of
                None \<Rightarrow> Inr (None, insert node seen)
              | Some (node', stack, pos) \<Rightarrow> visit t node' stack (insert node seen) pos)))"
  by pat_completeness auto
termination
proof (relation "measures [\<lambda>(t, _, _, seen, _). card (fst ` set t - seen),
    \<lambda>(_, _, stack, _, _). sum_list (map (length \<circ> snd) stack)]", goal_cases)
  case (3 t node stack seen pos info)
  then have "node \<in> fst ` set t - seen" by (force dest: map_of_SomeD)
  then have "fst ` set t - insert node seen \<subset> fst ` set t - seen" by blast
  then show ?case by (simp add: psubset_card_mono)
qed (auto dest: backtrack_size)

declare visit.simps [simp del]

fun cycle_loop :: "'n node_table \<Rightarrow> 'n list \<Rightarrow> 'n set \<Rightarrow> 'n list option result" where
  "cycle_loop t [] seen = Inr None"
| "cycle_loop t (node # nodes) seen =
     (if node \<in> seen then cycle_loop t nodes seen
      else bindE (visit t node [] seen (\<lambda>_. None)) (\<lambda>(cycle, seen).
        case cycle of Some c \<Rightarrow> Inr (Some c) | None \<Rightarrow> cycle_loop t nodes seen))"

definition find_cycle :: "'n node_table \<Rightarrow> 'n list option result" where
  "find_cycle t = cycle_loop t (map fst t) {}"

section \<open>Preparing, handing out and finishing nodes\<close>

text \<open>\<^verbatim>\<open>prepare\<close> sets the ready nodes before it raises the cycle found, so it returns the state with
  the cycle.\<close>

definition prepare :: "'n sorter \<Rightarrow> ('n list option \<times> 'n sorter) result" where
  "prepare ts =
     (if ready_nodes ts \<noteq> None then Inl ValueError
      else let ready = map fst (filter (\<lambda>(n, i). npredecessors i = 0) (node2info ts)) in
        bindE (find_cycle (node2info ts)) (\<lambda>cycle. Inr (cycle, ts\<lparr>ready_nodes := Some ready\<rparr>)))"

definition get_ready :: "'n sorter \<Rightarrow> ('n list \<times> 'n sorter) result" where
  "get_ready ts =
     (case ready_nodes ts of
        None \<Rightarrow> Inl ValueError
      | Some ready \<Rightarrow> Inr (ready, ts\<lparr>
          node2info := foldl (\<lambda>t n. modify n (\<lambda>i. i\<lparr>npredecessors := NODE_OUT\<rparr>) t) (node2info ts) ready,
          ready_nodes := Some [], npassedout := npassedout ts + int (length ready)\<rparr>))"

definition is_active :: "'n sorter \<Rightarrow> bool result" where
  "is_active ts =
     (case ready_nodes ts of
        None \<Rightarrow> Inl ValueError
      | Some ready \<Rightarrow> Inr (nfinished ts < npassedout ts \<or> ready \<noteq> []))"

definition release :: "'n node_table \<times> 'n list \<Rightarrow> 'n \<Rightarrow> ('n node_table \<times> 'n list) result" where
  "release = (\<lambda>(t, ready) successor.
     (case map_of t successor of
        None \<Rightarrow> Inl KeyError
      | Some i \<Rightarrow> Inr (modify successor (\<lambda>i. i\<lparr>npredecessors := npredecessors i - 1\<rparr>) t,
          if npredecessors i - 1 = 0 then ready @ [successor] else ready)))"

text \<open>The body of the loop of \<^verbatim>\<open>done\<close> for one node.\<close>

definition done_node :: "'n sorter \<Rightarrow> 'n \<Rightarrow> 'n sorter result" where
  "done_node ts node =
     (case (map_of (node2info ts) node, ready_nodes ts) of
        (Some info, Some ready) \<Rightarrow>
          let stat = npredecessors info in
          if stat \<noteq> NODE_OUT then
            (if stat \<ge> 0 then Inl ValueError
             else if stat = NODE_DONE then Inl ValueError
             else Inl (AssertionError ''unknown status''))
          else let t = modify node (\<lambda>i. i\<lparr>npredecessors := NODE_DONE\<rparr>) (node2info ts) in
            bindE (foldE release (t, ready) (successors info)) (\<lambda>(t, ready).
              Inr (ts\<lparr>node2info := t, ready_nodes := Some ready, nfinished := nfinished ts + 1\<rparr>))
      | _ \<Rightarrow> Inl ValueError)"

text \<open>A node that raises leaves the nodes before it finished.\<close>

fun done_loop :: "'n sorter \<Rightarrow> 'n list \<Rightarrow> unit result \<times> 'n sorter" where
  "done_loop ts [] = (Inr (), ts)"
| "done_loop ts (node # nodes) =
     (case done_node ts node of Inl e \<Rightarrow> (Inl e, ts) | Inr ts \<Rightarrow> done_loop ts nodes)"

definition sorter_done :: "'n sorter \<Rightarrow> 'n list \<Rightarrow> unit result \<times> 'n sorter" where
  "sorter_done ts nodes = (if ready_nodes ts = None then (Inl ValueError, ts) else done_loop ts nodes)"

partial_function (option) static_loop :: "'n sorter \<Rightarrow> 'n list result option" where
  "static_loop ts =
     (case is_active ts of
        Inl e \<Rightarrow> Some (Inl e)
      | Inr active \<Rightarrow>
          if \<not> active then Some (Inr [])
          else (case get_ready ts of
              Inl e \<Rightarrow> Some (Inl e)
            | Inr (node_group, ts) \<Rightarrow>
                (case sorter_done ts node_group of
                   (Inl e, _) \<Rightarrow> Some (Inl e)
                 | (Inr _, ts) \<Rightarrow>
                     Option.bind (static_loop ts) (\<lambda>r. Some (bindE r (\<lambda>out. Inr (node_group @ out)))))))"

text \<open>The cycle \<^verbatim>\<open>static_order\<close> raises, or the nodes it yields.\<close>

definition static_order :: "'n sorter \<Rightarrow> ('n list + 'n list) result option" where
  "static_order ts =
     (case prepare ts of
        Inl e \<Rightarrow> Some (Inl e)
      | Inr (Some cycle, _) \<Rightarrow> Some (Inr (Inl cycle))
      | Inr (None, ts) \<Rightarrow> Option.bind (static_loop ts) (\<lambda>r. Some (bindE r (\<lambda>out. Inr (Inr out)))))"

section \<open>Tables\<close>

lemma map_fst_modify [simp]: "map fst (modify n f t) = map fst t"
  by (induction t) (auto simp: modify_def)

lemma fst_set_modify [simp]: "fst ` set (modify n f t) = fst ` set t"
  by (metis list.set_map map_fst_modify)

lemma map_of_modify [simp]:
  "map_of (modify n f t) m = (if m = n then map_option f (map_of t n) else map_of t m)"
  by (induction t) (auto simp: modify_def)

lemma map_of_key: "v \<in> fst ` set t \<longleftrightarrow> (\<exists>i. map_of t v = Some i)"
  by (metis map_of_eq_None_iff not_None_eq)

lemma map_of_fst: "map_of t v = Some i \<Longrightarrow> v \<in> fst ` set t"
  using map_of_key by fastforce

text \<open>Sums over the records of a table.\<close>

definition wsum :: "('n node_info \<Rightarrow> int) \<Rightarrow> 'n node_table \<Rightarrow> int" where
  "wsum w t = (\<Sum>x \<leftarrow> t. w (snd x))"

lemma wsum_simps [simp]: "wsum w [] = 0" "wsum w (x # t) = w (snd x) + wsum w t" "wsum w (t @ t') = wsum w t + wsum w t'"
  by (simp_all add: wsum_def)

lemma wsum_modify_other: "n \<notin> fst ` set t \<Longrightarrow> modify n f t = t"
  by (induction t) (auto simp: modify_def)

lemma wsum_modify:
  "distinct (map fst t) \<Longrightarrow> map_of t n = Some i \<Longrightarrow> wsum w (modify n f t) = wsum w t - w i + w (f i)"
proof (induction t)
  case (Cons x t)
  then show ?case
    using wsum_modify_other[of n t f] by (cases x) (auto simp: modify_def)
qed simp

lemma wsum_nonneg: "(\<And>i. 0 \<le> w i) \<Longrightarrow> 0 \<le> wsum w t"
  by (induction t) auto

lemma wsum_zero_iff:
  assumes "\<And>i. 0 \<le> w i" and "distinct (map fst t)"
  shows "wsum w t = 0 \<longleftrightarrow> (\<forall>n i. map_of t n = Some i \<longrightarrow> w i = 0)"
  using assms(2)
proof (induction t)
  case (Cons x t)
  obtain n i where x: "x = (n, i)" by force
  have "n \<notin> fst ` set t" using Cons(2) x by simp
  then have none: "map_of t n = None" by (simp add: map_of_eq_None_iff)
  have "wsum w (x # t) = 0 \<longleftrightarrow> w i = 0 \<and> wsum w t = 0"
    using assms(1)[of i] wsum_nonneg[of w t, OF assms(1)] by (simp add: x add_nonneg_eq_0_iff)
  also have "\<dots> \<longleftrightarrow> (\<forall>m j. map_of (x # t) m = Some j \<longrightarrow> w j = 0)"
    using Cons none by (auto simp: x split: if_splits)
  finally show ?case .
qed simp

text \<open>The edges of a table.\<close>

definition edges :: "'n node_table \<Rightarrow> ('n \<times> 'n) set" where
  "edges t = {(u, v). \<exists>i. map_of t u = Some i \<and> v \<in> set (successors i)}"

definition closed_table :: "'n node_table \<Rightarrow> bool" where
  "closed_table t \<longleftrightarrow> distinct (map fst t) \<and> (\<forall>u v. (u, v) \<in> edges t \<longrightarrow> v \<in> fst ` set t)"

definition indegree :: "'n node_table \<Rightarrow> 'n \<Rightarrow> int" where
  "indegree t v = wsum (\<lambda>i. int (count_list (successors i) v)) t"

lemma indegree_zero_iff:
  "distinct (map fst t) \<Longrightarrow> indegree t v = 0 \<longleftrightarrow> (\<forall>u. (u, v) \<notin> edges t)"
  unfolding indegree_def by (subst wsum_zero_iff) (auto simp: edges_def count_list_0_iff)

section \<open>The table of a graph\<close>

text \<open>The counter of each node is its number of incoming edges, but for the predecessors of the
  node being added that are still to come.\<close>

definition counted :: "'n \<Rightarrow> int \<Rightarrow> 'n node_table \<Rightarrow> bool" where
  "counted node k t \<longleftrightarrow> closed_table t \<and> node \<in> fst ` set t \<and>
     (\<forall>v i. map_of t v = Some i \<longrightarrow> npredecessors i = indegree t v + (if v = node then k else 0))"

definition built :: "'n node_table \<Rightarrow> bool" where
  "built t \<longleftrightarrow> closed_table t \<and> (\<forall>v i. map_of t v = Some i \<longrightarrow> npredecessors i = indegree t v)"

lemma get_nodeinfo_known: "n \<in> fst ` set t \<Longrightarrow> get_nodeinfo n t = t"
  by (auto simp: get_nodeinfo_def map_of_key)

lemma get_nodeinfo_new: "n \<notin> fst ` set t \<Longrightarrow> get_nodeinfo n t = t @ [(n, new_node_info)]"
  by (auto simp: get_nodeinfo_def map_of_key split: option.split)

lemma keys_get_nodeinfo [simp]: "fst ` set (get_nodeinfo n t) = insert n (fst ` set t)"
  by (cases "n \<in> fst ` set t") (auto simp: get_nodeinfo_known get_nodeinfo_new)

lemma edges_get_nodeinfo [simp]: "edges (get_nodeinfo n t) = edges t"
proof (cases "n \<in> fst ` set t")
  case False
  then have "map_of t n = None" by (simp add: map_of_eq_None_iff)
  then show ?thesis
    by (auto simp: get_nodeinfo_new[OF False] edges_def new_node_info_def map_add_def split: option.splits if_splits)
qed (simp add: get_nodeinfo_known)

lemma distinct_get_nodeinfo: "distinct (map fst t) \<Longrightarrow> distinct (map fst (get_nodeinfo n t))"
  by (cases "n \<in> fst ` set t") (auto simp: get_nodeinfo_known get_nodeinfo_new)

lemma closed_get_nodeinfo: "closed_table t \<Longrightarrow> closed_table (get_nodeinfo n t)"
  by (simp add: closed_table_def distinct_get_nodeinfo)

lemma indegree_get_nodeinfo [simp]: "indegree (get_nodeinfo n t) v = indegree t v"
  by (cases "n \<in> fst ` set t") (auto simp: get_nodeinfo_known get_nodeinfo_new indegree_def new_node_info_def)

lemma map_of_get_nodeinfo:
  "map_of (get_nodeinfo n t) v = (if v = n \<and> n \<notin> fst ` set t then Some new_node_info else map_of t v)"
proof (cases "n \<in> fst ` set t")
  case False
  then have "map_of t n = None" by (simp add: map_of_eq_None_iff)
  then show ?thesis using False by (auto simp: get_nodeinfo_new map_add_def split: option.split)
qed (simp add: get_nodeinfo_known)

lemma new_node_indegree: "closed_table t \<Longrightarrow> n \<notin> fst ` set t \<Longrightarrow> indegree t n = 0"
  by (auto simp: closed_table_def indegree_zero_iff)

lemma built_get_nodeinfo: "built t \<Longrightarrow> counted n 0 (get_nodeinfo n t)"
  using new_node_indegree[of t n]
  by (auto simp: built_def counted_def closed_get_nodeinfo map_of_get_nodeinfo new_node_info_def split: if_splits)

lemma edges_modify:
  assumes "\<And>i. map_of t n = Some i \<Longrightarrow> successors (f i) = successors i"
  shows "edges (modify n f t) = edges t"
  using assms by (auto simp: edges_def split: if_splits)

lemma indegree_modify:
  assumes "distinct (map fst t)" and "map_of t n = Some i"
  shows "indegree (modify n f t) v =
    indegree t v - int (count_list (successors i) v) + int (count_list (successors (f i)) v)"
  unfolding indegree_def using assms by (simp add: wsum_modify)

lemma counted_more:
  assumes "counted n k t"
  shows "counted n (k + m) (modify n (\<lambda>i. i\<lparr>npredecessors := npredecessors i + m\<rparr>) t)"
proof -
  have d: "distinct (map fst t)" using assms by (simp add: counted_def closed_table_def)
  have e: "edges (modify n (\<lambda>i. i\<lparr>npredecessors := npredecessors i + m\<rparr>) t) = edges t" by (rule edges_modify) simp
  obtain j where "map_of t n = Some j" using assms by (auto simp: counted_def map_of_key)
  then have "indegree (modify n (\<lambda>i. i\<lparr>npredecessors := npredecessors i + m\<rparr>) t) v = indegree t v" for v
    using indegree_modify[OF d] by simp
  then show ?thesis using assms e by (auto simp: counted_def closed_table_def split: if_splits)
qed

lemma edges_add_successor: "edges (add_successor n t p) = insert (p, n) (edges t)"
proof -
  have "\<exists>i. map_of (get_nodeinfo p t) p = Some i" using map_of_key[of p "get_nodeinfo p t"] by simp
  then have "edges (add_successor n t p) = insert (p, n) (edges (get_nodeinfo p t))"
    by (auto simp: add_successor_def edges_def split: if_splits)
  then show ?thesis by simp
qed

lemma counted_add_successor:
  assumes "counted n k t"
  shows "counted n (k - 1) (add_successor n t p)"
proof -
  define t' where "t' = get_nodeinfo p t"
  have "counted n k t'"
    using assms new_node_indegree[of t p]
    by (auto simp: t'_def counted_def closed_get_nodeinfo map_of_get_nodeinfo new_node_info_def split: if_splits)
  then have t': "closed_table t'" "n \<in> fst ` set t'" "distinct (map fst t')"
      "\<And>v i. map_of t' v = Some i \<Longrightarrow> npredecessors i = indegree t' v + (if v = n then k else 0)"
    by (auto simp: counted_def closed_table_def)
  obtain j where j: "map_of t' p = Some j" using map_of_key[of p t'] by (auto simp: t'_def)
  let ?t = "add_successor n t p"
  have eq: "?t = modify p (\<lambda>i. i\<lparr>successors := successors i @ [n]\<rparr>) t'" by (simp add: add_successor_def t'_def)
  have deg: "indegree ?t v = indegree t' v + (if v = n then 1 else 0)" for v
    unfolding eq by (simp add: indegree_modify[OF t'(3) j] count_list_append)
  have "npredecessors i = indegree ?t v + (if v = n then k - 1 else 0)" if i: "map_of ?t v = Some i" for v i
  proof -
    obtain i' where "map_of t' v = Some i'" "npredecessors i = npredecessors i'"
      using i by (auto simp: eq split: if_splits)
    then show ?thesis using t'(4)[of v i'] deg[of v] by simp
  qed
  moreover have "edges ?t = insert (p, n) (edges t')" "fst ` set ?t = fst ` set t'" "map fst ?t = map fst t'"
    by (simp_all add: edges_add_successor t'_def) (simp_all add: add_successor_def)
  then have "closed_table ?t" using t'(1,2) by (auto simp: closed_table_def)
  moreover have "n \<in> fst ` set ?t" using t'(2) by (simp add: eq)
  ultimately show ?thesis unfolding counted_def by blast
qed

lemma keys_add_successor [simp]: "fst ` set (add_successor n t p) = insert p (fst ` set t)"
  by (simp add: add_successor_def)

lemma counted_fold:
  "counted n (int (length ps)) t \<Longrightarrow> counted n 0 (foldl (add_successor n) t ps) \<and>
     fst ` set (foldl (add_successor n) t ps) = fst ` set t \<union> set ps \<and>
     edges (foldl (add_successor n) t ps) = edges t \<union> {(p, n) | p. p \<in> set ps}"
proof (induction ps arbitrary: t)
  case (Cons p ps)
  have "counted n (int (length ps)) (add_successor n t p)"
    using counted_add_successor[OF Cons(2), of p] by simp
  then show ?case using Cons(1)[of "add_successor n t p"] by (auto simp: edges_add_successor)
qed simp

lemma counted_built: "counted n 0 t \<Longrightarrow> built t"
  by (simp add: counted_def built_def)

lemma sorter_add_built:
  assumes "built (node2info ts)" and "ready_nodes ts = None"
  shows "\<exists>t. sorter_add ts n ps = Inr (ts\<lparr>node2info := t\<rparr>) \<and> built t \<and>
    fst ` set t = fst ` set (node2info ts) \<union> insert n (set ps) \<and> edges t = edges (node2info ts) \<union> {(p, n) | p. p \<in> set ps}"
proof -
  let ?t = "modify n (\<lambda>i. i\<lparr>npredecessors := npredecessors i + int (length ps)\<rparr>) (get_nodeinfo n (node2info ts))"
  have "counted n (int (length ps)) ?t" using counted_more[OF built_get_nodeinfo[OF assms(1)]] by simp
  note c = counted_fold[OF this]
  show ?thesis
  proof (intro exI conjI)
    show "sorter_add ts n ps = Inr (ts\<lparr>node2info := foldl (add_successor n) ?t ps\<rparr>)"
      using assms(2) by (simp add: sorter_add_def)
    show "built (foldl (add_successor n) ?t ps)" by (rule counted_built[OF conjunct1[OF c]])
    show "fst ` set (foldl (add_successor n) ?t ps) = fst ` set (node2info ts) \<union> insert n (set ps)" using c by simp
    have "edges ?t = edges (node2info ts)" by (subst edges_modify) simp_all
    then show "edges (foldl (add_successor n) ?t ps) = edges (node2info ts) \<union> {(p, n) | p. p \<in> set ps}" using c by simp
  qed
qed

definition graph_nodes :: "('n \<times> 'n list) list \<Rightarrow> 'n set" where
  "graph_nodes graph = (\<Union>(n, ps) \<in> set graph. insert n (set ps))"

definition graph_edges :: "('n \<times> 'n list) list \<Rightarrow> ('n \<times> 'n) set" where
  "graph_edges graph = {(p, n). \<exists>ps. (n, ps) \<in> set graph \<and> p \<in> set ps}"

lemma sorter_new_built:
  "\<exists>t. sorter_new graph = Inr \<lparr>node2info = t, ready_nodes = None, npassedout = 0, nfinished = 0\<rparr> \<and> built t \<and>
     fst ` set t = graph_nodes graph \<and> edges t = graph_edges graph"
proof -
  have "\<exists>t. foldE (\<lambda>ts (n, ps). sorter_add ts n ps) \<lparr>node2info = t0, ready_nodes = None, npassedout = 0, nfinished = 0\<rparr> graph
      = Inr \<lparr>node2info = t, ready_nodes = None, npassedout = 0, nfinished = 0\<rparr> \<and> built t \<and>
      fst ` set t = fst ` set t0 \<union> graph_nodes graph \<and> edges t = edges t0 \<union> graph_edges graph" if "built t0" for t0
    using that
  proof (induction graph arbitrary: t0)
    case (Cons x graph)
    obtain n ps where x: "x = (n, ps)" by force
    obtain t where t: "sorter_add \<lparr>node2info = t0, ready_nodes = None, npassedout = 0, nfinished = 0\<rparr> n ps
        = Inr \<lparr>node2info = t, ready_nodes = None, npassedout = 0, nfinished = 0\<rparr>" "built t"
        "fst ` set t = fst ` set t0 \<union> insert n (set ps)" "edges t = edges t0 \<union> {(p, n) | p. p \<in> set ps}"
      using sorter_add_built[of "\<lparr>node2info = t0, ready_nodes = None, npassedout = 0, nfinished = 0\<rparr>" n ps] Cons(2) by auto
    have "graph_nodes (x # graph) = insert n (set ps) \<union> graph_nodes graph"
      "graph_edges (x # graph) = {(p, n) | p. p \<in> set ps} \<union> graph_edges graph"
      by (auto simp: graph_nodes_def graph_edges_def x)
    then show ?case using Cons(1)[OF t(2)] t x by auto
  qed (simp add: graph_nodes_def graph_edges_def)
  from this[of "[]"] show ?thesis
    by (simp add: sorter_new_def built_def closed_table_def edges_def)
qed

section \<open>The search finds a cycle exactly when there is one\<close>

text \<open>A node from which every path ends.\<close>

inductive grounded :: "('n \<times> 'n) set \<Rightarrow> 'n \<Rightarrow> bool" for E where
  ground: "(\<And>v. (u, v) \<in> E \<Longrightarrow> grounded E v) \<Longrightarrow> grounded E u"

lemma grounded_no_cycle: "grounded E u \<Longrightarrow> (u, u) \<notin> E\<^sup>+"
proof (induction rule: grounded.induct)
  case (ground u)
  show ?case
  proof
    assume "(u, u) \<in> E\<^sup>+"
    then obtain v where "(u, v) \<in> E" "(v, u) \<in> E\<^sup>*" by (metis tranclD)
    then have "(v, v) \<in> E\<^sup>+" by (meson rtrancl_into_trancl1)
    then show False using ground \<open>(u, v) \<in> E\<close> by blast
  qed
qed

definition is_cycle :: "('n \<times> 'n) set \<Rightarrow> 'n list \<Rightarrow> bool" where
  "is_cycle E c \<longleftrightarrow> 2 \<le> length c \<and> hd c = last c \<and> successively (\<lambda>u v. (u, v) \<in> E) c"

lemma successively_rtrancl: "successively (\<lambda>u v. (u, v) \<in> E) (x # c) \<Longrightarrow> (x, last (x # c)) \<in> E\<^sup>*"
proof (induction c arbitrary: x)
  case (Cons y c)
  then have "(x, y) \<in> E" "(y, last (y # c)) \<in> E\<^sup>*" by auto
  then show ?case by (simp add: converse_rtrancl_into_rtrancl)
qed simp

lemma is_cycle_trancl: "is_cycle E c \<Longrightarrow> \<not> acyclic E"
proof -
  assume c: "is_cycle E c"
  then obtain x y d where d: "c = x # y # d" by (cases c; cases "tl c") (auto simp: is_cycle_def)
  then have "(x, y) \<in> E" "(y, last (y # d)) \<in> E\<^sup>*" "last (y # d) = x"
    using c successively_rtrancl[of E y d] by (auto simp: is_cycle_def)
  then show ?thesis unfolding acyclic_def by (metis rtrancl_into_trancl2)
qed

text \<open>The frames below a node that is being visited: each is a path's node with the successors
  left to visit; those already visited are grounded, but for the ones in the set.\<close>

fun frames_ok :: "('n \<times> 'n) set \<Rightarrow> 'n set \<Rightarrow> 'n frames \<Rightarrow> bool" where
  "frames_ok E A [] \<longleftrightarrow> True"
| "frames_ok E A ((n, ss) # stack) \<longleftrightarrow>
     (\<forall>v. (n, v) \<in> E \<longrightarrow> v \<in> set ss \<or> v \<in> A \<or> grounded E v) \<and> (\<forall>v \<in> set ss. (n, v) \<in> E) \<and>
     frames_ok E {n} stack \<and> (stack \<noteq> [] \<longrightarrow> (fst (hd stack), n) \<in> E)"

definition positions :: "'n frames \<Rightarrow> ('n \<rightharpoonup> nat) \<Rightarrow> bool" where
  "positions stack pos \<longleftrightarrow> distinct (map fst stack) \<and>
     (\<forall>n i. pos n = Some i \<longleftrightarrow> i < length stack \<and> stack_nodes stack ! i = n)"

lemma stack_nodes_Cons [simp]: "stack_nodes ((n, ss) # stack) = stack_nodes stack @ [n]"
  by (simp add: stack_nodes_def)

lemma length_stack_nodes [simp]: "length (stack_nodes stack) = length stack"
  by (simp add: stack_nodes_def)

lemma set_stack_nodes [simp]: "set (stack_nodes stack) = fst ` set stack"
  by (simp add: stack_nodes_def)

lemma positions_Nil [simp]: "positions [] (\<lambda>_. None)"
  by (simp add: positions_def)

lemma positions_push:
  assumes "positions stack pos" and "n \<notin> fst ` set stack"
  shows "positions ((n, ss) # stack) (pos(n \<mapsto> length stack))"
proof -
  have "stack_nodes stack ! i \<noteq> n" if "i < length stack" for i
    using assms(2) nth_mem[of i "stack_nodes stack"] that by auto
  then show ?thesis using assms by (auto simp: positions_def nth_append less_Suc_eq)
qed

lemma positions_pop: "positions ((n, ss) # stack) pos \<Longrightarrow> positions stack (pos(n := None))"
proof -
  assume p: "positions ((n, ss) # stack) pos"
  then have "stack_nodes stack ! i \<noteq> n" if "i < length stack" for i
    using nth_mem[of i "stack_nodes stack"] that by (auto simp: positions_def)
  moreover have "pos m = Some i \<longleftrightarrow> i < Suc (length stack) \<and> (stack_nodes stack @ [n]) ! i = m" for m i
    using p by (simp add: positions_def)
  ultimately show ?thesis using p by (auto simp: positions_def nth_append less_Suc_eq)
qed

lemma positions_next: "positions ((n, ss) # stack) pos \<longleftrightarrow> positions ((n, ss') # stack) pos"
  by (simp add: positions_def)

lemma positions_None: "positions stack pos \<Longrightarrow> pos n = None \<longleftrightarrow> n \<notin> fst ` set stack"
  unfolding set_stack_nodes[symmetric] in_set_conv_nth positions_def
  by (metis length_stack_nodes not_None_eq option.distinct(1))

lemma frames_ok_grounded: "frames_ok E {n} stack \<Longrightarrow> grounded E n \<Longrightarrow> frames_ok E {} stack"
  by (cases stack) auto

lemma frames_path: "frames_ok E A stack \<Longrightarrow> successively (\<lambda>u v. (u, v) \<in> E) (stack_nodes stack)"
proof (induction E A stack rule: frames_ok.induct)
  case (2 E A n ss stack)
  then show ?case
    by (cases stack) (auto simp: successively_append_iff stack_nodes_def)
qed (simp add: stack_nodes_def)

lemma backtrack_ok:
  assumes "frames_ok E {} stack" and "positions stack pos" and "\<forall>u \<in> seen. u \<in> fst ` set stack \<or> grounded E u"
  shows "case backtrack stack pos of
      None \<Rightarrow> \<forall>u \<in> seen. grounded E u
    | Some (s, stack', pos') \<Rightarrow> frames_ok E {s} stack' \<and> positions stack' pos' \<and> stack' \<noteq> [] \<and> (fst (hd stack'), s) \<in> E \<and>
        fst ` set stack' \<subseteq> fst ` set stack \<and> (\<forall>u \<in> seen. u \<in> fst ` set stack' \<or> grounded E u)"
  using assms
proof (induction stack arbitrary: pos)
  case (Cons f stack)
  obtain n ss where f: "f = (n, ss)" by force
  show ?case
  proof (cases ss)
    case Nil
    have n: "grounded E n" using Cons(2) f Nil by (auto intro: grounded.ground)
    have "frames_ok E {} stack" using Cons(2) f frames_ok_grounded[OF _ n] by simp
    moreover have "\<forall>u \<in> seen. u \<in> fst ` set stack \<or> grounded E u" using Cons(4) n f by auto
    moreover have "positions stack (pos(n := None))"
      by (rule positions_pop) (use Cons(3) f in simp)
    ultimately show ?thesis using Cons(1)[of "pos(n := None)"] f Nil by (auto simp del: fun_upd_apply split: option.splits)
  next
    case (Cons s ss')
    then show ?thesis using Cons.prems positions_next[of n ss stack pos ss'] f by auto
  qed
qed auto

text \<open>What holds when the search comes to a node.\<close>

definition visiting :: "'n node_table \<Rightarrow> 'n \<Rightarrow> 'n frames \<Rightarrow> 'n set \<Rightarrow> ('n \<rightharpoonup> nat) \<Rightarrow> bool" where
  "visiting t node stack seen pos \<longleftrightarrow> node \<in> fst ` set t \<and> frames_ok (edges t) {node} stack \<and>
     (stack \<noteq> [] \<longrightarrow> (fst (hd stack), node) \<in> edges t) \<and> positions stack pos \<and> fst ` set stack \<subseteq> seen \<and>
     (\<forall>u \<in> seen. u \<in> fst ` set stack \<or> grounded (edges t) u)"

lemma visiting_backtrack:
  assumes "closed_table t" and "frames_ok (edges t) {} stack" and "positions stack pos" and "fst ` set stack \<subseteq> seen"
    and "\<forall>u \<in> seen. u \<in> fst ` set stack \<or> grounded (edges t) u"
  shows "case backtrack stack pos of None \<Rightarrow> \<forall>u \<in> seen. grounded (edges t) u
    | Some (s, stack', pos') \<Rightarrow> visiting t s stack' seen pos'"
proof (cases "backtrack stack pos")
  case None
  then show ?thesis using backtrack_ok[OF assms(2,3,5)] by simp
next
  case (Some r)
  obtain s stack' pos' where r: "r = (s, stack', pos')" by (cases r)
  have b: "frames_ok (edges t) {s} stack'" "positions stack' pos'" "stack' \<noteq> []" "(fst (hd stack'), s) \<in> edges t"
      "fst ` set stack' \<subseteq> fst ` set stack" "\<forall>u \<in> seen. u \<in> fst ` set stack' \<or> grounded (edges t) u"
    using backtrack_ok[OF assms(2,3,5)] Some r by simp_all
  moreover have "s \<in> fst ` set t" using assms(1) b(4) unfolding closed_table_def by blast
  moreover have "fst ` set stack' \<subseteq> seen" using b(5) assms(4) by (rule subset_trans)
  ultimately show ?thesis using Some r by (simp add: visiting_def)
qed

lemma visiting_cycle:
  assumes "visiting t node stack seen pos" and "pos node = Some i"
  shows "is_cycle (edges t) (drop i (stack_nodes stack) @ [node])"
proof -
  let ?L = "stack_nodes stack"
  have i: "i < length ?L" "?L ! i = node" using assms by (auto simp: visiting_def positions_def)
  then have stack: "stack \<noteq> []" by auto
  have "successively (\<lambda>u v. (u, v) \<in> edges t) (take i ?L @ drop i ?L)"
    using assms(1) frames_path by (auto simp: visiting_def)
  then have "successively (\<lambda>u v. (u, v) \<in> edges t) (drop i ?L)" by (simp only: successively_append_iff)
  moreover have "last (drop i ?L) = fst (hd stack)"
    using i(1) stack by (simp add: stack_nodes_def last_rev hd_map)
  moreover have "hd (drop i ?L) = node" using i by (simp add: hd_drop_conv_nth)
  ultimately show ?thesis
    using assms(1) stack i by (auto simp: is_cycle_def successively_append_iff visiting_def)
qed

lemma visit_ok:
  "closed_table t \<Longrightarrow> visiting t node stack seen pos \<Longrightarrow>
   (\<exists>c seen'. visit t node stack seen pos = Inr (Some c, seen') \<and> is_cycle (edges t) c) \<or>
   (\<exists>seen'. visit t node stack seen pos = Inr (None, seen') \<and> insert node seen \<subseteq> seen' \<and> (\<forall>u \<in> seen'. grounded (edges t) u))"
proof (induction t node stack seen pos rule: visit.induct)
  case (1 t node stack seen pos)
  show ?case
  proof (cases "node \<in> seen")
    case seen: True
    show ?thesis
    proof (cases "pos node")
      case None
      then have g: "grounded (edges t) node" using 1(4) seen by (auto simp: visiting_def positions_None)
      then have "frames_ok (edges t) {} stack" using 1(4) frames_ok_grounded by (auto simp: visiting_def)
      then have b: "case backtrack stack pos of None \<Rightarrow> \<forall>u \<in> seen. grounded (edges t) u
          | Some (s, stack', pos') \<Rightarrow> visiting t s stack' seen pos'"
        using visiting_backtrack[OF 1(3)] 1(4) by (simp add: visiting_def)
      show ?thesis
      proof (cases "backtrack stack pos")
        case bt: None
        then have "visit t node stack seen pos = Inr (None, seen)"
          using seen None by (subst visit.simps) simp
        then show ?thesis using b seen bt by auto
      next
        case bt: (Some r)
        obtain s stack' pos' where r: "r = (s, stack', pos')" by (cases r)
        have "visit t node stack seen pos = visit t s stack' seen pos'"
          using seen None bt r by (subst visit.simps) simp
        then show ?thesis using 1(1)[OF seen None bt r[symmetric] refl 1(3)] b bt r seen by auto
      qed
    next
      case (Some i)
      then have "visit t node stack seen pos = Inr (Some (drop i (stack_nodes stack) @ [node]), seen)"
        using seen by (subst visit.simps) simp
      then show ?thesis using visiting_cycle[OF 1(4) Some] by blast
    qed
  next
    case new: False
    obtain info where info: "map_of t node = Some info" using 1(4) by (auto simp: visiting_def map_of_key)
    let ?stack = "(node, successors info) # stack" and ?pos = "pos(node \<mapsto> length stack)"
    have "node \<notin> fst ` set stack" "positions stack pos" using new 1(4) by (auto simp: visiting_def)
    then have "positions ?stack ?pos" by (intro positions_push)
    moreover have "frames_ok (edges t) {} ?stack" using 1(4) info by (auto simp: visiting_def edges_def)
    ultimately have b: "case backtrack ?stack ?pos of None \<Rightarrow> \<forall>u \<in> insert node seen. grounded (edges t) u
        | Some (s, stack', pos') \<Rightarrow> visiting t s stack' (insert node seen) pos'"
      using 1(4) by (intro visiting_backtrack[OF 1(3)]) (auto simp: visiting_def)
    show ?thesis
    proof (cases "backtrack ?stack ?pos")
      case bt: None
      then have "visit t node stack seen pos = Inr (None, insert node seen)"
        using new info by (subst visit.simps) simp
      then show ?thesis using b bt by auto
    next
      case bt: (Some r)
      obtain s stack' pos' where r: "r = (s, stack', pos')" by (cases r)
      have "visit t node stack seen pos = visit t s stack' (insert node seen) pos'"
        using new info bt r by (subst visit.simps) simp
      then show ?thesis using 1(2)[OF new info bt r[symmetric] refl 1(3)] b bt r by auto
    qed
  qed
qed

lemma cycle_loop_ok:
  assumes "closed_table t" and "set nodes \<subseteq> fst ` set t" and "\<forall>u \<in> seen. grounded (edges t) u"
  shows "(\<exists>c. cycle_loop t nodes seen = Inr (Some c) \<and> is_cycle (edges t) c) \<or>
    (cycle_loop t nodes seen = Inr None \<and> (\<forall>u \<in> set nodes. grounded (edges t) u))"
  using assms(2,3)
proof (induction nodes arbitrary: seen)
  case (Cons node nodes)
  show ?case
  proof (cases "node \<in> seen")
    case False
    have "visiting t node [] seen (\<lambda>_. None)" using Cons(2,3) by (simp add: visiting_def)
    from visit_ok[OF assms(1) this] show ?thesis
    proof (elim disjE exE conjE)
      fix seen' assume v: "visit t node [] seen (\<lambda>_. None) = Inr (None, seen')"
        "insert node seen \<subseteq> seen'" "\<forall>u \<in> seen'. grounded (edges t) u"
      then show ?thesis using Cons(1)[of seen'] Cons(2) False by auto
    qed (use False in auto)
  qed (use Cons in auto)
qed simp

lemma find_cycle_ok:
  assumes "closed_table t"
  shows "if acyclic (edges t) then find_cycle t = Inr None
    else \<exists>c. find_cycle t = Inr (Some c) \<and> is_cycle (edges t) c"
proof -
  consider c where "find_cycle t = Inr (Some c)" "is_cycle (edges t) c"
    | "find_cycle t = Inr None" "\<forall>u \<in> fst ` set t. grounded (edges t) u"
    using cycle_loop_ok[OF assms, of "map fst t" "{}"] by (auto simp: find_cycle_def)
  then show ?thesis
  proof cases
    case 1 then show ?thesis using is_cycle_trancl by auto
  next
    case 2
    have "(u, u) \<notin> (edges t)\<^sup>+" for u
    proof
      assume u: "(u, u) \<in> (edges t)\<^sup>+"
      then obtain v where "(v, u) \<in> edges t" by (metis tranclD2)
      then have "grounded (edges t) u" using 2(2) assms by (auto simp: closed_table_def)
      then show False using u by (simp add: grounded_no_cycle)
    qed
    then show ?thesis using 2(1) by (simp add: acyclic_def)
  qed
qed

text \<open>
  C35: The sorter made of any graph accepts \<^verbatim>\<open>prepare\<close>, which raises \<^verbatim>\<open>CycleError\<close> exactly when the graph
  has a cycle, and then with a list of nodes that is one: each node is a predecessor of the
  next and the first is the last.
\<close>
theorem prepare_finds_cycle:
  "\<exists>ts. sorter_new graph = Inr ts \<and>
     (if acyclic (graph_edges graph) then \<exists>ts'. prepare ts = Inr (None, ts')
      else \<exists>c ts'. prepare ts = Inr (Some c, ts') \<and> is_cycle (graph_edges graph) c)"
proof -
  obtain t where t: "sorter_new graph = Inr \<lparr>node2info = t, ready_nodes = None, npassedout = 0, nfinished = 0\<rparr>"
      "built t" "edges t = graph_edges graph"
    using sorter_new_built[of graph] by blast
  then have "closed_table t" by (simp add: built_def)
  from find_cycle_ok[OF this] show ?thesis
    using t(1) by (auto simp: prepare_def t(3) split: if_splits)
qed

end
