(* ===== verification/GraphOrder.thy ===== *)
theory GraphOrder
  imports Graphlib
begin

text \<open>
  The scheduling side of the topological sorter of \<^verbatim>\<open>graphlib.py\<close>: an invariant of the prepared
  sorter that every call keeps, the order in which nodes are handed out over any sequence of
  calls, and the static order.
\<close>

section \<open>Marks\<close>

text \<open>What \<^verbatim>\<open>done\<close> leaves of a table while it counts down: the nodes, their edges, and which of
  them were handed out or finished.\<close>

definition shape :: "'n node_table \<Rightarrow> ('n \<times> int \<times> 'n list) list" where
  "shape t = map (\<lambda>(n, i). (n, min (npredecessors i) 0, successors i)) t"

definition mark :: "'n node_table \<Rightarrow> 'n \<Rightarrow> int option" where
  "mark t v = map_option (\<lambda>i. min (npredecessors i) 0) (map_of t v)"

definition pending :: "'n node_table \<Rightarrow> 'n \<Rightarrow> int" where
  "pending t v = wsum (\<lambda>i. if npredecessors i = NODE_DONE then 0 else int (count_list (successors i) v)) t"

definition passed :: "'n node_table \<Rightarrow> int" where
  "passed t = wsum (\<lambda>i. if npredecessors i < 0 then 1 else 0) t"

definition finished :: "'n node_table \<Rightarrow> int" where
  "finished t = wsum (\<lambda>i. if npredecessors i = NODE_DONE then 1 else 0) t"

lemma map_of_shape:
  "map_of (shape t) v = map_option (\<lambda>i. (min (npredecessors i) 0, successors i)) (map_of t v)"
  by (induction t) (auto simp: shape_def)

lemma shape_keys: "map fst (shape t) = map fst t"
  by (induction t) (auto simp: shape_def)

lemma shape_fst: "shape t = shape t' \<Longrightarrow> map fst t = map fst t'"
  by (metis shape_keys)

lemma edges_shape: "edges t = {(u, v). \<exists>m ss. map_of (shape t) u = Some (m, ss) \<and> v \<in> set ss}"
  by (auto simp: edges_def map_of_shape)

lemma mark_shape: "mark t v = map_option fst (map_of (shape t) v)"
  by (simp add: mark_def map_of_shape option.map_comp comp_def)

lemma wsum_shape: "(\<And>i. w i = g (min (npredecessors i) 0) (successors i)) \<Longrightarrow> wsum w t = (\<Sum>(n, m, ss) \<leftarrow> shape t. g m ss)"
  by (induction t) (auto simp: shape_def)

lemma same_shape:
  assumes "shape t = shape t'"
  shows "edges t = edges t'" "mark t = mark t'" "pending t = pending t'" "passed t = passed t'" "finished t = finished t'"
    "closed_table t = closed_table t'" "fst ` set t = fst ` set t'"
proof -
  show keys: "fst ` set t = fst ` set t'" using shape_fst[OF assms] by (metis list.set_map)
  show e: "edges t = edges t'" using assms by (simp add: edges_shape)
  show "mark t = mark t'" using assms by (simp add: mark_shape fun_eq_iff)
  show "closed_table t = closed_table t'" using shape_fst[OF assms] e keys by (simp add: closed_table_def)
  have p: "pending u v = (\<Sum>(n, m, ss) \<leftarrow> shape u. if m = NODE_DONE then 0 else int (count_list ss v))" for u :: "'a node_table" and v
    unfolding pending_def by (rule wsum_shape) (auto simp: min_def)
  then show "pending t = pending t'" using assms by (simp add: fun_eq_iff)
  have "passed u = (\<Sum>(n, m, ss) \<leftarrow> shape u. if m < 0 then 1 else 0)" for u :: "'a node_table"
    unfolding passed_def by (rule wsum_shape) auto
  then show "passed t = passed t'" using assms by simp
  have "finished u = (\<Sum>(n, m, ss) \<leftarrow> shape u. if m = NODE_DONE then 1 else 0)" for u :: "'a node_table"
    unfolding finished_def by (rule wsum_shape) (auto simp: min_def)
  then show "finished t = finished t'" using assms by simp
qed

lemma mark_done: "map_of t u = Some i \<Longrightarrow> mark t u = Some NODE_DONE \<longleftrightarrow> npredecessors i = NODE_DONE"
  by (auto simp: mark_def min_def)

lemma pending_zero_iff:
  assumes "distinct (map fst t)"
  shows "pending t v = 0 \<longleftrightarrow> (\<forall>u. (u, v) \<in> edges t \<longrightarrow> mark t u = Some NODE_DONE)"
proof -
  have "pending t v = 0 \<longleftrightarrow> (\<forall>u i. map_of t u = Some i \<longrightarrow> npredecessors i = NODE_DONE \<or> v \<notin> set (successors i))"
    unfolding pending_def by (subst wsum_zero_iff[OF _ assms]) (auto simp: count_list_0_iff)
  also have "\<dots> \<longleftrightarrow> (\<forall>u i. map_of t u = Some i \<longrightarrow> v \<in> set (successors i) \<longrightarrow> mark t u = Some NODE_DONE)"
    using mark_done by metis
  also have "\<dots> \<longleftrightarrow> (\<forall>u. (u, v) \<in> edges t \<longrightarrow> mark t u = Some NODE_DONE)" by (auto simp: edges_def)
  finally show ?thesis .
qed

lemma pending_nonneg: "0 \<le> pending t v"
  unfolding pending_def by (rule wsum_nonneg) simp

section \<open>The invariant\<close>

text \<open>The counters are the numbers of unfinished predecessors, but for the successors that are
  still to be counted down; the ready nodes are those with none left.\<close>

definition counting :: "'n node_table \<Rightarrow> 'n list \<Rightarrow> 'n list \<Rightarrow> bool" where
  "counting t ready ss \<longleftrightarrow> closed_table t \<and> set ss \<subseteq> fst ` set t \<and> distinct ready \<and>
     (\<forall>v i. map_of t v = Some i \<longrightarrow> NODE_DONE \<le> npredecessors i \<and>
       (0 \<le> npredecessors i \<longrightarrow> npredecessors i = pending t v + int (count_list ss v)) \<and>
       (npredecessors i < 0 \<longrightarrow> pending t v = 0 \<and> v \<notin> set ss)) \<and>
     (\<forall>v. v \<in> set ready \<longleftrightarrow> (\<exists>i. map_of t v = Some i \<and> npredecessors i = 0))"

definition sched_ok :: "'n sorter \<Rightarrow> bool" where
  "sched_ok ts \<longleftrightarrow> (\<exists>ready. ready_nodes ts = Some ready \<and> counting (node2info ts) ready [] \<and>
     npassedout ts = passed (node2info ts) \<and> nfinished ts = finished (node2info ts))"

lemma release_shape:
  assumes "distinct (map fst t)" and "map_of t s = Some i" and "1 \<le> npredecessors i"
  shows "shape (modify s (\<lambda>i. i\<lparr>npredecessors := npredecessors i - 1\<rparr>) t) = shape t"
proof -
  have "j = i" if "(s, j) \<in> set t" for j using map_of_is_SomeI[OF assms(1) that] assms(2) by simp
  then show ?thesis using assms(3) by (auto simp: shape_def modify_def)
qed

lemma release_step:
  assumes "counting t ready (s # ss)"
  shows "\<exists>t' ready'. release (t, ready) s = Inr (t', ready') \<and> counting t' ready' ss \<and> shape t' = shape t"
proof -
  have cl: "closed_table t" "set (s # ss) \<subseteq> fst ` set t" "distinct ready"
    and cnt: "\<And>v j. map_of t v = Some j \<Longrightarrow> NODE_DONE \<le> npredecessors j \<and>
       (0 \<le> npredecessors j \<longrightarrow> npredecessors j = pending t v + int (count_list (s # ss) v)) \<and>
       (npredecessors j < 0 \<longrightarrow> pending t v = 0 \<and> v \<notin> set (s # ss))"
    and rd: "\<And>v. v \<in> set ready \<longleftrightarrow> (\<exists>j. map_of t v = Some j \<and> npredecessors j = 0)"
    using assms unfolding counting_def by blast+
  have "s \<in> fst ` set t" using cl(2) by simp
  then obtain i where i: "map_of t s = Some i" using map_of_key[of s t] by blast
  have np: "npredecessors i = pending t s + int (count_list ss s) + 1" "1 \<le> npredecessors i"
    using cnt[OF i] pending_nonneg[of t s] by auto
  let ?t = "modify s (\<lambda>i. i\<lparr>npredecessors := npredecessors i - 1\<rparr>) t"
  let ?r = "if npredecessors i - 1 = 0 then ready @ [s] else ready"
  have sh: "shape ?t = shape t"
    using release_shape[OF _ i np(2)] cl(1) by (simp add: closed_table_def)
  note same = same_shape[OF sh]
  have s: "s \<notin> set ready" using rd[of s] i np(2) by simp
  have "NODE_DONE \<le> npredecessors j \<and> (0 \<le> npredecessors j \<longrightarrow> npredecessors j = pending t v + int (count_list ss v)) \<and>
      (npredecessors j < 0 \<longrightarrow> pending t v = 0 \<and> v \<notin> set ss)" if "map_of ?t v = Some j" for v j
    using that i np cnt[of v j] by (cases "v = s") auto
  moreover have "v \<in> set ?r \<longleftrightarrow> (\<exists>j. map_of ?t v = Some j \<and> npredecessors j = 0)" for v
    using i s rd[of v] by (cases "v = s") auto
  ultimately have "counting ?t ?r ss" using cl s unfolding counting_def same by simp
  then show ?thesis using i sh by (auto simp: release_def)
qed

lemma release_loop:
  "counting t ready ss \<Longrightarrow> \<exists>t' ready'. foldE release (t, ready) ss = Inr (t', ready') \<and> counting t' ready' [] \<and> shape t' = shape t"
proof (induction ss arbitrary: t ready)
  case (Cons s ss)
  obtain t' ready' where "release (t, ready) s = Inr (t', ready')" "counting t' ready' ss" "shape t' = shape t"
    using release_step[OF Cons(2)] by blast
  then show ?case using Cons(1)[of t' ready'] by auto
qed simp

section \<open>Every call keeps the invariant\<close>

definition set_mark :: "int \<Rightarrow> 'n \<Rightarrow> 'n node_table \<Rightarrow> 'n node_table" where
  "set_mark m n t = modify n (\<lambda>i. i\<lparr>npredecessors := m\<rparr>) t"

lemma map_of_set_mark:
  "map_of (set_mark m n t) v = (if v = n then map_option (\<lambda>i. i\<lparr>npredecessors := m\<rparr>) (map_of t n) else map_of t v)"
  by (simp add: set_mark_def)

lemma set_mark_same [simp]:
  "map fst (set_mark m n t) = map fst t" "edges (set_mark m n t) = edges t" "fst ` set (set_mark m n t) = fst ` set t"
  unfolding set_mark_def by (simp, subst edges_modify, simp_all)

lemma closed_set_mark [simp]: "closed_table (set_mark m n t) = closed_table t"
  by (simp add: closed_table_def)

lemma mark_set_mark: "n \<in> fst ` set t \<Longrightarrow> m \<le> 0 \<Longrightarrow> mark (set_mark m n t) = (mark t)(n \<mapsto> m)"
  by (auto simp: mark_def map_of_set_mark map_of_key fun_eq_iff)

lemma sums_set_mark:
  assumes "distinct (map fst t)" and "map_of t n = Some i"
  shows "pending (set_mark m n t) v = pending t v
      - (if npredecessors i = NODE_DONE then 0 else int (count_list (successors i) v))
      + (if m = NODE_DONE then 0 else int (count_list (successors i) v))"
    and "passed (set_mark m n t) = passed t - (if npredecessors i < 0 then 1 else 0) + (if m < 0 then 1 else 0)"
    and "finished (set_mark m n t) = finished t - (if npredecessors i = NODE_DONE then 1 else 0) + (if m = NODE_DONE then 1 else 0)"
  unfolding set_mark_def pending_def passed_def finished_def by (simp_all add: wsum_modify[OF assms])

lemma done_counting:
  assumes "counting t ready []" and i: "map_of t n = Some i" and "npredecessors i = NODE_OUT"
  shows "counting (set_mark NODE_DONE n t) ready (successors i)"
proof -
  let ?t = "set_mark NODE_DONE n t"
  have cl: "closed_table t" "distinct ready"
    and cnt: "\<And>v j. map_of t v = Some j \<Longrightarrow> NODE_DONE \<le> npredecessors j \<and>
       (0 \<le> npredecessors j \<longrightarrow> npredecessors j = pending t v) \<and> (npredecessors j < 0 \<longrightarrow> pending t v = 0)"
    and rd: "\<And>v. v \<in> set ready \<longleftrightarrow> (\<exists>j. map_of t v = Some j \<and> npredecessors j = 0)"
    using assms(1) unfolding counting_def by auto
  have p: "pending t v = pending ?t v + int (count_list (successors i) v)" for v
    using sums_set_mark(1)[OF _ i, of NODE_DONE v] cl(1) assms(3) by (simp add: closed_table_def)
  have zero: "pending ?t v = 0 \<and> v \<notin> set (successors i)" if "pending t v = 0" for v
    using p[of v] that pending_nonneg[of ?t v] by (simp add: add_nonneg_eq_0_iff count_list_0_iff)
  have "set (successors i) \<subseteq> fst ` set t"
    using cl(1) i unfolding closed_table_def edges_def by blast
  moreover have "NODE_DONE \<le> npredecessors j \<and>
      (0 \<le> npredecessors j \<longrightarrow> npredecessors j = pending ?t v + int (count_list (successors i) v)) \<and>
      (npredecessors j < 0 \<longrightarrow> pending ?t v = 0 \<and> v \<notin> set (successors i))" if j: "map_of ?t v = Some j" for v j
  proof (cases "v = n")
    case True
    then have "npredecessors j = NODE_DONE" using j i by (auto simp: map_of_set_mark)
    moreover have "pending t v = 0" using cnt[OF i] assms(3) True by simp
    ultimately show ?thesis using zero[of v] by simp
  next
    case False
    then have "map_of t v = Some j" using j by (simp add: map_of_set_mark)
    note c = cnt[OF this]
    show ?thesis
    proof (cases "0 \<le> npredecessors j")
      case True
      then have "npredecessors j = pending ?t v + int (count_list (successors i) v)" using c p[of v] by linarith
      then show ?thesis using True by simp
    next
      case False
      then have "pending t v = 0" using c by simp
      then show ?thesis using zero c False by blast
    qed
  qed
  moreover have "v \<in> set ready \<longleftrightarrow> (\<exists>j. map_of ?t v = Some j \<and> npredecessors j = 0)" for v
    using rd[of v] i assms(3) by (cases "v = n") (auto simp: map_of_set_mark)
  ultimately show ?thesis using cl unfolding counting_def by simp
qed

lemma done_node_ok:
  assumes "sched_ok ts" and "mark (node2info ts) n = Some NODE_OUT"
  shows "\<exists>ts'. done_node ts n = Inr ts' \<and> sched_ok ts' \<and> edges (node2info ts') = edges (node2info ts) \<and>
    fst ` set (node2info ts') = fst ` set (node2info ts) \<and> mark (node2info ts') = (mark (node2info ts))(n \<mapsto> NODE_DONE)"
proof -
  let ?t = "node2info ts"
  obtain ready where r: "ready_nodes ts = Some ready" "counting ?t ready []" "npassedout ts = passed ?t" "nfinished ts = finished ?t"
    using assms(1) by (auto simp: sched_ok_def)
  obtain i where i: "map_of ?t n = Some i" "npredecessors i = NODE_OUT"
    using assms(2) by (auto simp: mark_def min_def split: if_splits)
  have d: "distinct (map fst ?t)" using r(2) by (simp add: counting_def closed_table_def)
  obtain t' ready' where l: "foldE release (set_mark NODE_DONE n ?t, ready) (successors i) = Inr (t', ready')"
      "counting t' ready' []" "shape t' = shape (set_mark NODE_DONE n ?t)"
    using release_loop[OF done_counting[OF r(2) i]] by blast
  note same = same_shape[OF l(3)]
  let ?ts = "ts\<lparr>node2info := t', ready_nodes := Some ready', nfinished := nfinished ts + 1\<rparr>"
  have "done_node ts n = Inr ?ts"
    using r(1) i l(1) by (simp add: done_node_def set_mark_def)
  moreover have "sched_ok ?ts"
    using l(2) r(3,4) i(2) by (simp add: sched_ok_def same sums_set_mark[OF d i(1)])
  moreover have "n \<in> fst ` set ?t" using i(1) by (rule map_of_fst)
  ultimately show ?thesis by (simp add: same mark_set_mark)
qed

lemma done_node_refused:
  assumes "sched_ok ts" and "mark (node2info ts) n \<noteq> Some NODE_OUT"
  shows "done_node ts n = Inl ValueError"
proof (cases "map_of (node2info ts) n")
  case (Some i)
  then have "NODE_DONE \<le> npredecessors i" "npredecessors i \<noteq> NODE_OUT"
    using assms by (auto simp: sched_ok_def counting_def mark_def)
  then show ?thesis using Some assms(1) by (auto simp: done_node_def sched_ok_def Let_def)
qed (simp add: done_node_def split: option.split)

lemma hand_out_fold:
  assumes "distinct (map fst t)" and "distinct ns" and "\<forall>n \<in> set ns. \<exists>i. map_of t n = Some i \<and> npredecessors i = 0"
  shows "(\<forall>v. map_of (foldl (\<lambda>t n. set_mark NODE_OUT n t) t ns) v =
       (if v \<in> set ns then map_option (\<lambda>i. i\<lparr>npredecessors := NODE_OUT\<rparr>) (map_of t v) else map_of t v)) \<and>
    map fst (foldl (\<lambda>t n. set_mark NODE_OUT n t) t ns) = map fst t \<and>
    edges (foldl (\<lambda>t n. set_mark NODE_OUT n t) t ns) = edges t \<and>
    pending (foldl (\<lambda>t n. set_mark NODE_OUT n t) t ns) = pending t \<and>
    passed (foldl (\<lambda>t n. set_mark NODE_OUT n t) t ns) = passed t + int (length ns) \<and>
    finished (foldl (\<lambda>t n. set_mark NODE_OUT n t) t ns) = finished t"
  using assms
proof (induction ns arbitrary: t)
  case (Cons n ns)
  obtain i where i: "map_of t n = Some i" "npredecessors i = 0" using Cons(4) by auto
  have "pending (set_mark NODE_OUT n t) = pending t" "passed (set_mark NODE_OUT n t) = passed t + 1"
      "finished (set_mark NODE_OUT n t) = finished t"
    using i(2) by (simp_all add: sums_set_mark[OF Cons(2) i(1)] fun_eq_iff)
  moreover have "\<forall>m \<in> set ns. \<exists>i. map_of (set_mark NODE_OUT n t) m = Some i \<and> npredecessors i = 0"
    using Cons(3,4) by (auto simp: map_of_set_mark)
  ultimately show ?case
    using Cons(1)[of "set_mark NODE_OUT n t"] Cons(2,3) by (auto simp: map_of_set_mark)
qed simp

lemma get_ready_ok:
  assumes "sched_ok ts"
  shows "\<exists>ns ts'. get_ready ts = Inr (ns, ts') \<and> ready_nodes ts = Some ns \<and> sched_ok ts' \<and> distinct ns \<and>
    set ns = {n. \<exists>i. map_of (node2info ts) n = Some i \<and> npredecessors i = 0} \<and>
    edges (node2info ts') = edges (node2info ts) \<and> fst ` set (node2info ts') = fst ` set (node2info ts) \<and>
    mark (node2info ts') = (\<lambda>v. if v \<in> set ns then Some NODE_OUT else mark (node2info ts) v)"
proof -
  let ?t = "node2info ts"
  obtain ns where r: "ready_nodes ts = Some ns" "counting ?t ns []" "npassedout ts = passed ?t" "nfinished ts = finished ?t"
    using assms by (auto simp: sched_ok_def)
  then have ns: "distinct (map fst ?t)" "distinct ns" "\<forall>n \<in> set ns. \<exists>i. map_of ?t n = Some i \<and> npredecessors i = 0"
    by (auto simp: counting_def closed_table_def)
  let ?t' = "foldl (\<lambda>t n. set_mark NODE_OUT n t) ?t ns"
  let ?ts = "ts\<lparr>node2info := ?t', ready_nodes := Some [], npassedout := npassedout ts + int (length ns)\<rparr>"
  have f: "\<And>v. map_of ?t' v = (if v \<in> set ns then map_option (\<lambda>i. i\<lparr>npredecessors := NODE_OUT\<rparr>) (map_of ?t v) else map_of ?t v)"
    "map fst ?t' = map fst ?t" "edges ?t' = edges ?t" "pending ?t' = pending ?t"
    "passed ?t' = passed ?t + int (length ns)" "finished ?t' = finished ?t"
    using hand_out_fold[OF ns] by blast+
  have keys: "fst ` set ?t' = fst ` set ?t" using f(2) by (metis list.set_map)
  have "NODE_DONE \<le> npredecessors j \<and> (0 \<le> npredecessors j \<longrightarrow> npredecessors j = pending ?t v) \<and>
      (npredecessors j < 0 \<longrightarrow> pending ?t v = 0)" if "map_of ?t' v = Some j" for v j
    using that r(2) by (auto simp: f(1) counting_def split: if_splits)
  moreover have "\<not> (\<exists>j. map_of ?t' v = Some j \<and> npredecessors j = 0)" for v
    using r(2) by (auto simp: f(1) counting_def)
  moreover have "closed_table ?t'" using r(2) f(2,3) keys by (simp add: counting_def closed_table_def)
  ultimately have "counting ?t' [] []" by (simp add: counting_def f(4))
  then have "sched_ok ?ts" using r(3,4) f(5,6) by (simp add: sched_ok_def)
  moreover have "get_ready ts = Inr (ns, ?ts)" using r(1) by (simp add: get_ready_def set_mark_def)
  moreover have "mark ?t' = (\<lambda>v. if v \<in> set ns then Some NODE_OUT else mark ?t v)"
    using ns(3) by (force simp: mark_def f(1) fun_eq_iff)
  moreover have "set ns = {n. \<exists>i. map_of ?t n = Some i \<and> npredecessors i = 0}" using r(2) by (auto simp: counting_def)
  ultimately show ?thesis using r(1) ns(2) f(3) keys by auto
qed

lemma mark_keys: "mark t v = None \<longleftrightarrow> v \<notin> fst ` set t"
  by (simp add: mark_def map_of_eq_None_iff)

lemma built_counting:
  assumes "built t"
  shows "counting t (map fst (filter (\<lambda>(n, i). npredecessors i = 0) t)) []"
    and "passed t = 0" and "finished t = 0" and "v \<in> fst ` set t \<Longrightarrow> mark t v = Some 0"
proof -
  have d: "distinct (map fst t)" and np: "\<And>v i. map_of t v = Some i \<Longrightarrow> npredecessors i = indegree t v"
    using assms by (auto simp: built_def closed_table_def)
  have nonneg: "0 \<le> npredecessors i" if "map_of t v = Some i" for v i
    using np[OF that] wsum_nonneg[of "\<lambda>i. int (count_list (successors i) v)" t] by (simp add: indegree_def)
  have all: "0 \<le> npredecessors i" if "(v, i) \<in> set t" for v i
    using nonneg map_of_is_SomeI[OF d that] .
  have pend: "pending t v = indegree t v" for v
    unfolding pending_def indegree_def wsum_def using all by (intro arg_cong[of _ _ sum_list] map_cong) fastforce+
  have "NODE_DONE \<le> npredecessors i \<and> (0 \<le> npredecessors i \<longrightarrow> npredecessors i = pending t v) \<and>
      (npredecessors i < 0 \<longrightarrow> pending t v = 0)" if "map_of t v = Some i" for v i
    using np[OF that] nonneg[OF that] pend[of v] by simp
  moreover have "distinct (map fst (filter (\<lambda>(n, i). npredecessors i = 0) t))" using d by (simp add: distinct_map_filter)
  moreover have "v \<in> set (map fst (filter (\<lambda>(n, i). npredecessors i = 0) t)) \<longleftrightarrow> (\<exists>i. map_of t v = Some i \<and> npredecessors i = 0)" for v
    using d by (force simp: map_of_eq_Some_iff)
  ultimately show "counting t (map fst (filter (\<lambda>(n, i). npredecessors i = 0) t)) []"
    using assms unfolding counting_def built_def by simp
  show "passed t = 0" "finished t = 0"
    unfolding passed_def finished_def using d nonneg by (subst wsum_zero_iff; fastforce)+
  show "v \<in> fst ` set t \<Longrightarrow> mark t v = Some 0" using nonneg by (auto simp: map_of_key mark_def)
qed

lemma prepare_ok:
  assumes "sorter_new graph = Inr ts" and "prepare ts = Inr (c, ts0)"
  shows "sched_ok ts0 \<and> edges (node2info ts0) = graph_edges graph \<and> fst ` set (node2info ts0) = graph_nodes graph \<and>
    mark (node2info ts0) = (\<lambda>v. if v \<in> graph_nodes graph then Some 0 else None)"
proof -
  obtain t where t: "sorter_new graph = Inr \<lparr>node2info = t, ready_nodes = None, npassedout = 0, nfinished = 0\<rparr>"
      "built t" "edges t = graph_edges graph" "fst ` set t = graph_nodes graph"
    using sorter_new_built[of graph] by blast
  then have ts0: "ts0 = \<lparr>node2info = t, ready_nodes = Some (map fst (filter (\<lambda>(n, i). npredecessors i = 0) t)), npassedout = 0, nfinished = 0\<rparr>"
    using assms by (auto simp: prepare_def bindE_eq_Inr_iff)
  have "mark t v = (if v \<in> graph_nodes graph then Some 0 else None)" for v
    using built_counting(4)[OF t(2), of v] mark_keys[of t v] t(4) by auto
  then show ?thesis using t(3,4) built_counting(1-3)[OF t(2)] by (auto simp: ts0 sched_ok_def)
qed

section \<open>Progress\<close>

lemma wsum_diff: "wsum w t - wsum w' t = wsum (\<lambda>i. w i - w' i) t"
  by (induction t) auto

lemma active_iff:
  assumes "sched_ok ts"
  shows "is_active ts = Inr ((\<exists>v. mark (node2info ts) v = Some NODE_OUT) \<or> ready_nodes ts \<noteq> Some [])"
proof -
  let ?t = "node2info ts"
  let ?w = "\<lambda>i :: 'a node_info. (if npredecessors i < 0 then 1 else 0) - (if npredecessors i = NODE_DONE then 1 else 0 :: int)"
  obtain ready where r: "ready_nodes ts = Some ready" "counting ?t ready []" "npassedout ts = passed ?t" "nfinished ts = finished ?t"
    using assms by (auto simp: sched_ok_def)
  have d: "distinct (map fst ?t)" using r(2) by (simp add: counting_def closed_table_def)
  have w: "0 \<le> ?w i" for i by simp
  have "wsum ?w ?t = npassedout ts - nfinished ts"
    unfolding r(3,4) passed_def finished_def by (rule wsum_diff[symmetric])
  then have "nfinished ts < npassedout ts \<longleftrightarrow> wsum ?w ?t \<noteq> 0"
    using wsum_nonneg[of ?w ?t, OF w] by linarith
  also have "\<dots> \<longleftrightarrow> (\<exists>v. mark ?t v = Some NODE_OUT)"
    using r(2) by (subst wsum_zero_iff[OF w d]) (fastforce simp: mark_def counting_def min_def split: if_splits)
  finally show ?thesis using r(1) by (simp add: is_active_def)
qed

lemma progress:
  assumes "sched_ok ts" and "acyclic (edges (node2info ts))" and "v \<in> fst ` set (node2info ts)"
    and "mark (node2info ts) v \<noteq> Some NODE_DONE"
  shows "(\<exists>u. mark (node2info ts) u = Some NODE_OUT) \<or> ready_nodes ts \<noteq> Some []"
proof -
  let ?t = "node2info ts"
  obtain ready where r: "ready_nodes ts = Some ready" "counting ?t ready []"
    using assms(1) by (auto simp: sched_ok_def)
  have cl: "closed_table ?t" using r(2) by (simp add: counting_def)
  have "edges ?t \<subseteq> fst ` set ?t \<times> fst ` set ?t"
  proof (rule subrelI)
    fix u v assume e: "(u, v) \<in> edges ?t"
    then obtain i where "map_of ?t u = Some i" by (auto simp: edges_def)
    then have "u \<in> fst ` set ?t" by (rule map_of_fst)
    moreover have "v \<in> fst ` set ?t" using cl e by (simp add: closed_table_def)
    ultimately show "(u, v) \<in> fst ` set ?t \<times> fst ` set ?t" by simp
  qed
  then have "finite (edges ?t)" by (rule finite_subset) simp
  then have "wf (edges ?t)" using assms(2) by (rule finite_acyclic_wf)
  moreover have "v \<in> {u \<in> fst ` set ?t. mark ?t u \<noteq> Some NODE_DONE}" (is "_ \<in> ?W") using assms(3,4) by simp
  ultimately obtain u where u: "u \<in> ?W" and least: "\<And>p. (p, u) \<in> edges ?t \<Longrightarrow> p \<notin> ?W"
    by (rule wfE_min) blast
  have "mark ?t p = Some NODE_DONE" if "(p, u) \<in> edges ?t" for p
  proof -
    have "p \<in> fst ` set ?t" using that map_of_fst by (force simp: edges_def)
    then show ?thesis using least[OF that] by simp
  qed
  then have p: "pending ?t u = 0" using cl by (simp add: pending_zero_iff closed_table_def)
  obtain i where i: "map_of ?t u = Some i" using u map_of_key[of u ?t] by auto
  then have "NODE_DONE \<le> npredecessors i" "0 \<le> npredecessors i \<longrightarrow> npredecessors i = 0" "npredecessors i \<noteq> NODE_DONE"
    using r(2) p u mark_done[OF i] by (auto simp: counting_def)
  then have "npredecessors i = 0 \<or> mark ?t u = Some NODE_OUT"
    using i by (auto simp: mark_def min_def)
  then show ?thesis using i r by (auto simp: counting_def)
qed

section \<open>Sequences of calls\<close>

text \<open>What happens to a prepared sorter: nodes are handed out, and nodes are marked finished, one
  after the other in a call of \<^verbatim>\<open>done\<close>.\<close>

datatype 'n sched_event = Handed "'n list" | Marked 'n

inductive sched :: "'n sorter \<Rightarrow> 'n sched_event list \<Rightarrow> 'n sorter \<Rightarrow> bool" for ts0 where
  start: "sched ts0 [] ts0"
| hand: "sched ts0 es ts \<Longrightarrow> get_ready ts = Inr (ns, ts') \<Longrightarrow> sched ts0 (es @ [Handed ns]) ts'"
| finish: "sched ts0 es ts \<Longrightarrow> done_node ts n = Inr ts' \<Longrightarrow> sched ts0 (es @ [Marked n]) ts'"

fun handed :: "'n sched_event list \<Rightarrow> 'n list" where
  "handed [] = []"
| "handed (Handed ns # es) = ns @ handed es"
| "handed (Marked n # es) = handed es"

lemma handed_append [simp]: "handed (es @ es') = handed es @ handed es'"
  by (induction es rule: handed.induct) auto

lemma sched_done: "sched ts0 es ts \<Longrightarrow> \<exists>ms. sched ts0 (es @ map Marked ms) (snd (done_loop ts ns))"
proof (induction ns arbitrary: es ts)
  case Nil
  then show ?case by (intro exI[of _ "[]"]) simp
next
  case (Cons n ns)
  show ?case
  proof (cases "done_node ts n")
    case (Inl e)
    then show ?thesis using Cons(2) by (intro exI[of _ "[]"]) simp
  next
    case (Inr ts')
    then obtain ms where "sched ts0 ((es @ [Marked n]) @ map Marked ms) (snd (done_loop ts' ns))"
      using Cons(1)[OF finish[OF Cons(2)]] by blast
    then show ?thesis using Inr by (intro exI[of _ "n # ms"]) simp
  qed
qed

text \<open>Nodes are handed out after their predecessors were finished, and finished once after they
  were handed out.\<close>

definition handed_late :: "('n \<times> 'n) set \<Rightarrow> 'n sched_event list \<Rightarrow> bool" where
  "handed_late E es \<longleftrightarrow>
     (\<forall>i ns n u. i < length es \<and> es ! i = Handed ns \<and> n \<in> set ns \<and> (u, n) \<in> E \<longrightarrow> Marked u \<in> set (take i es))"

definition marked_late :: "'n sched_event list \<Rightarrow> bool" where
  "marked_late es \<longleftrightarrow>
     (\<forall>i n. i < length es \<and> es ! i = Marked n \<longrightarrow> n \<in> set (handed (take i es)) \<and> Marked n \<notin> set (take i es))"

lemma nth_snoc_cases: "i < length (es @ [e]) \<Longrightarrow> (i < length es \<and> (es @ [e]) ! i = es ! i \<and> take i (es @ [e]) = take i es) \<or>
    (i = length es \<and> (es @ [e]) ! i = e \<and> take i (es @ [e]) = es)"
  by (cases "i < length es") (auto simp: nth_append)

lemma handed_late_snoc:
  assumes "handed_late E es" and "\<And>ns n u. e = Handed ns \<Longrightarrow> n \<in> set ns \<Longrightarrow> (u, n) \<in> E \<Longrightarrow> Marked u \<in> set es"
  shows "handed_late E (es @ [e])"
  unfolding handed_late_def
proof (intro allI impI, elim conjE)
  fix i ns n u
  assume a: "i < length (es @ [e])" "(es @ [e]) ! i = Handed ns" "n \<in> set ns" "(u, n) \<in> E"
  have "i < length es \<and> es ! i = Handed ns \<Longrightarrow> Marked u \<in> set (take i es)"
    using assms(1) a(3,4) unfolding handed_late_def by blast
  then show "Marked u \<in> set (take i (es @ [e]))"
    using nth_snoc_cases[OF a(1)] a(2) assms(2)[OF _ a(3,4)] by auto
qed

lemma marked_late_snoc:
  assumes "marked_late es" and "\<And>n. e = Marked n \<Longrightarrow> n \<in> set (handed es) \<and> Marked n \<notin> set es"
  shows "marked_late (es @ [e])"
  unfolding marked_late_def
proof (intro allI impI, elim conjE)
  fix i n
  assume a: "i < length (es @ [e])" "(es @ [e]) ! i = Marked n"
  have "i < length es \<and> es ! i = Marked n \<Longrightarrow> n \<in> set (handed (take i es)) \<and> Marked n \<notin> set (take i es)"
    using assms(1) unfolding marked_late_def by blast
  then show "n \<in> set (handed (take i (es @ [e]))) \<and> Marked n \<notin> set (take i (es @ [e]))"
    using nth_snoc_cases[OF a(1)] a(2) assms(2)[of n] by auto
qed

text \<open>The marks tell which events a node has had.\<close>

definition trace_ok :: "('n \<times> 'n) set \<Rightarrow> 'n set \<Rightarrow> 'n sched_event list \<Rightarrow> 'n sorter \<Rightarrow> bool" where
  "trace_ok E N es ts \<longleftrightarrow> sched_ok ts \<and> edges (node2info ts) = E \<and> fst ` set (node2info ts) = N \<and> set (handed es) \<subseteq> N \<and>
     distinct (handed es) \<and> handed_late E es \<and> marked_late es \<and>
     (\<forall>v \<in> N. mark (node2info ts) v = Some (if Marked v \<in> set es then NODE_DONE else if v \<in> set (handed es) then NODE_OUT else 0))"

lemma trace_mark:
  "trace_ok E N es ts \<Longrightarrow> v \<in> N \<Longrightarrow>
     mark (node2info ts) v = Some (if Marked v \<in> set es then NODE_DONE else if v \<in> set (handed es) then NODE_OUT else 0)"
  by (simp add: trace_ok_def)

lemma trace_hand:
  assumes "trace_ok E N es ts" and "get_ready ts = Inr (ns, ts')"
  shows "trace_ok E N (es @ [Handed ns]) ts'"
proof -
  let ?t = "node2info ts" and ?t' = "node2info ts'"
  have ok: "sched_ok ts" "edges ?t = E" "fst ` set ?t = N" "set (handed es) \<subseteq> N" "distinct (handed es)"
      "handed_late E es" "marked_late es"
    using assms(1) by (simp_all add: trace_ok_def)
  note mk = trace_mark[OF assms(1)]
  have r: "sched_ok ts'" "distinct ns" "set ns = {n. \<exists>i. map_of ?t n = Some i \<and> npredecessors i = 0}"
      "edges ?t' = E" "fst ` set ?t' = N" "mark ?t' = (\<lambda>v. if v \<in> set ns then Some NODE_OUT else mark ?t v)"
    using get_ready_ok[OF ok(1)] assms(2) ok(2,3) by auto
  have sub: "set ns \<subseteq> N" unfolding r(3) ok(3)[symmetric] using map_of_fst by fast
  have zero: "mark ?t n = Some 0" if "n \<in> set ns" for n using that r(3) by (auto simp: mark_def)
  have fresh: "n \<notin> set (handed es) \<and> Marked n \<notin> set es" if "n \<in> set ns" for n
    using zero[OF that] mk[of n] sub that by (auto split: if_splits)
  have preds: "Marked u \<in> set es" if "n \<in> set ns" "(u, n) \<in> E" for n u
  proof -
    have c: "counting ?t (the (ready_nodes ts)) []" using ok(1) by (auto simp: sched_ok_def)
    then have "pending ?t n = 0" using that(1) r(3) by (auto simp: counting_def)
    then have "mark ?t u = Some NODE_DONE"
      using c that(2) pending_zero_iff[of ?t n] ok(2) by (auto simp: counting_def closed_table_def)
    moreover have "u \<in> N" using that(2) map_of_fst ok(2,3) by (force simp: edges_def)
    ultimately show ?thesis using mk[of u] by (simp split: if_splits)
  qed
  have "handed_late E (es @ [Handed ns])" by (rule handed_late_snoc[OF ok(6)]) (use preds in simp)
  moreover have "marked_late (es @ [Handed ns])" by (rule marked_late_snoc[OF ok(7)]) simp
  moreover have "mark ?t' v = Some (if Marked v \<in> set (es @ [Handed ns]) then NODE_DONE
      else if v \<in> set (handed (es @ [Handed ns])) then NODE_OUT else 0)" if "v \<in> N" for v
    using mk[OF that] fresh[of v] by (simp add: r(6))
  moreover have "distinct (handed (es @ [Handed ns]))" using ok(5) r(2) fresh by auto
  ultimately show ?thesis using r(1,4,5) ok(4) sub by (simp add: trace_ok_def)
qed

lemma trace_finish:
  assumes "trace_ok E N es ts" and "done_node ts n = Inr ts'"
  shows "trace_ok E N (es @ [Marked n]) ts'"
proof -
  let ?t = "node2info ts" and ?t' = "node2info ts'"
  have ok: "sched_ok ts" "edges ?t = E" "fst ` set ?t = N" "set (handed es) \<subseteq> N" "distinct (handed es)"
      "handed_late E es" "marked_late es"
    using assms(1) by (simp_all add: trace_ok_def)
  note mk = trace_mark[OF assms(1)]
  have out: "mark ?t n = Some NODE_OUT" using done_node_refused[OF ok(1), of n] assms(2) by fastforce
  then have r: "sched_ok ts'" "edges ?t' = E" "fst ` set ?t' = N" "mark ?t' = (mark ?t)(n \<mapsto> NODE_DONE)"
    using done_node_ok[OF ok(1) out] assms(2) ok(2,3) by auto
  have "n \<in> N" using out mark_keys[of ?t n] ok(3) by auto
  then have n: "n \<in> set (handed es)" "Marked n \<notin> set es" using mk[of n] out by (auto split: if_splits)
  have "handed_late E (es @ [Marked n])" by (rule handed_late_snoc[OF ok(6)]) simp
  moreover have "marked_late (es @ [Marked n])" by (rule marked_late_snoc[OF ok(7)]) (use n in simp)
  moreover have "mark ?t' v = Some (if Marked v \<in> set (es @ [Marked n]) then NODE_DONE
      else if v \<in> set (handed (es @ [Marked n])) then NODE_OUT else 0)" if "v \<in> N" for v
    using mk[OF that] by (simp add: r(4))
  ultimately show ?thesis using r(1-3) ok(4,5) by (simp add: trace_ok_def)
qed

lemma sched_trace_ok:
  assumes "sched ts0 es ts" and "trace_ok E N [] ts0"
  shows "trace_ok E N es ts"
  using assms by (induction rule: sched.induct) (blast intro: trace_hand trace_finish)+

lemma prepared_trace_ok:
  assumes "sorter_new graph = Inr ts" and "prepare ts = Inr (c, ts0)"
  shows "trace_ok (graph_edges graph) (graph_nodes graph) [] ts0"
  using prepare_ok[OF assms] by (simp add: trace_ok_def handed_late_def marked_late_def)

text \<open>A run on the graph in which 2 depends on 1.\<close>

lemma example_run:
  "\<exists>ts c ts0 ts'. sorter_new [(2 :: int, [1])] = Inr ts \<and> prepare ts = Inr (c, ts0) \<and>
     sched ts0 [Handed [1], Marked 1] ts'"
proof -
  let ?t = "[(2, \<lparr>npredecessors = 1, successors = []\<rparr>), (1, \<lparr>npredecessors = 0, successors = [2]\<rparr>)] :: int node_table"
  let ?ts = "\<lparr>node2info = ?t, ready_nodes = None, npassedout = 0, nfinished = 0\<rparr>"
  let ?prep = "?ts\<lparr>ready_nodes := Some [1]\<rparr>"
  have ts: "sorter_new [(2 :: int, [1])] = Inr ?ts"
    by (simp add: sorter_new_def sorter_add_def get_nodeinfo_def new_node_info_def modify_def add_successor_def)
  have "find_cycle ?t = Inr None"
    by (simp add: find_cycle_def) (subst visit.simps, simp)+
  then have p: "prepare ?ts = Inr (None, ?prep)"
    by (simp add: prepare_def)
  have "sched_ok ?prep" using prepare_ok[OF ts p] by simp
  then obtain ts1 where g: "get_ready ?prep = Inr ([1], ts1)" "sched_ok ts1" "mark (node2info ts1) 1 = Some NODE_OUT"
    using get_ready_ok[of ?prep] by auto
  obtain ts2 where d: "done_node ts1 1 = Inr ts2" using done_node_ok[OF g(2,3)] by blast
  have "sched ?prep (([] @ [Handed [1]]) @ [Marked 1]) ts2"
    by (rule sched.finish[OF sched.hand[OF sched.start g(1)] d])
  then show ?thesis using ts p by auto
qed

text \<open>
  C36: Safety of the scheduling protocol.  Whatever a client of a prepared sorter does, with or
  without a cycle in the graph, a node is handed out at most once and only after every one of
  its predecessors was marked finished, a node is marked finished at most once and only after it
  was handed out, and any other mark raises \<^verbatim>\<open>ValueError\<close>.
\<close>
theorem scheduler_safe:
  assumes "sorter_new graph = Inr ts" and "prepare ts = Inr (c, ts0)" and "sched ts0 es ts'"
  shows "distinct (handed es) \<and> set (handed es) \<subseteq> graph_nodes graph \<and>
    handed_late (graph_edges graph) es \<and> marked_late es \<and>
    (\<forall>n. n \<notin> set (handed es) \<or> Marked n \<in> set es \<longrightarrow> done_node ts' n = Inl ValueError)"
proof -
  have t: "trace_ok (graph_edges graph) (graph_nodes graph) es ts'"
    by (rule sched_trace_ok[OF assms(3) prepared_trace_ok[OF assms(1,2)]])
  then have ok: "sched_ok ts'" "fst ` set (node2info ts') = graph_nodes graph"
    and mk: "\<And>v. v \<in> graph_nodes graph \<Longrightarrow> mark (node2info ts') v =
      Some (if Marked v \<in> set es then NODE_DONE else if v \<in> set (handed es) then NODE_OUT else 0)"
    by (simp_all add: trace_ok_def)
  have "mark (node2info ts') n \<noteq> Some NODE_OUT" if "n \<notin> set (handed es) \<or> Marked n \<in> set es" for n
    using that mk[of n] mark_keys[of "node2info ts'" n] ok(2) by (cases "n \<in> graph_nodes graph") auto
  then have "\<forall>n. n \<notin> set (handed es) \<or> Marked n \<in> set es \<longrightarrow> done_node ts' n = Inl ValueError"
    using done_node_refused[OF ok(1)] by blast
  then show ?thesis using t unfolding trace_ok_def by blast
qed

theorem scheduler_safe_witness:
  "\<exists>ts'. done_node ts' (1 :: int) = Inl ValueError \<and> handed_late (graph_edges [(2 :: int, [1])]) [Handed [1], Marked 1]"
proof -
  obtain ts c ts0 ts' where r: "sorter_new [(2 :: int, [1])] = Inr ts" "prepare ts = Inr (c, ts0)"
      "sched ts0 [Handed [1], Marked 1] ts'"
    using example_run by blast
  show ?thesis using scheduler_safe[OF r] by auto
qed

text \<open>
  C37: Liveness of the scheduling protocol.  On a graph without a cycle the sorter never gets
  stuck: whatever was called so far, as long as some node is not marked finished \<^verbatim>\<open>is_active\<close>
  is true, and when every node handed out is finished the next \<^verbatim>\<open>get_ready\<close> returns a new one; when
  all nodes are finished \<^verbatim>\<open>is_active\<close> is false.
\<close>
theorem scheduler_live:
  assumes "sorter_new graph = Inr ts" and "prepare ts = Inr (c, ts0)" and "sched ts0 es ts'"
    and "acyclic (graph_edges graph)"
  shows "is_active ts' = Inr (\<exists>n \<in> graph_nodes graph. Marked n \<notin> set es) \<and>
    ((\<exists>n \<in> graph_nodes graph. Marked n \<notin> set es) \<and> (\<forall>n \<in> set (handed es). Marked n \<in> set es) \<longrightarrow>
      (\<exists>ns ts''. get_ready ts' = Inr (ns, ts'') \<and> ns \<noteq> []))"
proof -
  let ?t = "node2info ts'" and ?N = "graph_nodes graph"
  have t: "trace_ok (graph_edges graph) ?N es ts'"
    by (rule sched_trace_ok[OF assms(3) prepared_trace_ok[OF assms(1,2)]])
  then have ok: "sched_ok ts'" "fst ` set ?t = ?N" "edges ?t = graph_edges graph"
    and mk: "\<And>v. v \<in> ?N \<Longrightarrow> mark ?t v = Some (if Marked v \<in> set es then NODE_DONE else if v \<in> set (handed es) then NODE_OUT else 0)"
    by (simp_all add: trace_ok_def)
  have out: "\<exists>n \<in> ?N. Marked n \<notin> set es \<and> n \<in> set (handed es)" if "mark ?t u = Some NODE_OUT" for u
  proof -
    have "u \<in> ?N" using that mark_keys[of ?t u] ok(2) by auto
    then show ?thesis using mk[of u] that by (auto split: if_splits)
  qed
  obtain ready where r: "ready_nodes ts' = Some ready" "counting ?t ready []" using ok(1) by (auto simp: sched_ok_def)
  have rd: "\<exists>n \<in> ?N. Marked n \<notin> set es" if "ready \<noteq> []"
  proof -
    obtain n where "n \<in> set ready" using \<open>ready \<noteq> []\<close> by (cases ready) auto
    then obtain i where "map_of ?t n = Some i" "npredecessors i = 0" using r(2) by (auto simp: counting_def)
    then have "n \<in> ?N" "mark ?t n = Some 0" using map_of_fst[of ?t n i] ok(2) by (auto simp: mark_def)
    then show ?thesis using mk[of n] by (auto split: if_splits)
  qed
  have stuck: "(\<exists>u. mark ?t u = Some NODE_OUT) \<or> ready \<noteq> []" if "n \<in> ?N" "Marked n \<notin> set es" for n
    using progress[OF ok(1), of n] assms(4) ok(2,3) mk[of n] that r(1) by (auto split: if_splits)
  have "(\<exists>u. mark ?t u = Some NODE_OUT) \<or> ready \<noteq> [] \<longleftrightarrow> (\<exists>n \<in> ?N. Marked n \<notin> set es)"
    using out rd stuck by meson
  then have "is_active ts' = Inr (\<exists>n \<in> ?N. Marked n \<notin> set es)"
    using active_iff[OF ok(1)] r(1) by simp
  moreover have "\<exists>ns ts''. get_ready ts' = Inr (ns, ts'') \<and> ns \<noteq> []"
    if "\<exists>n \<in> ?N. Marked n \<notin> set es" "\<forall>n \<in> set (handed es). Marked n \<in> set es"
  proof -
    have "ready \<noteq> []" using that stuck out by meson
    then show ?thesis using get_ready_ok[OF ok(1)] r(1) by auto
  qed
  ultimately show ?thesis by blast
qed

theorem scheduler_live_witness:
  "\<exists>ts'. is_active ts' = Inr True \<and> (\<exists>ns ts''. get_ready ts' = Inr (ns :: int list, ts'') \<and> ns \<noteq> [])"
proof -
  obtain ts c ts0 ts' where r: "sorter_new [(2 :: int, [1])] = Inr ts" "prepare ts = Inr (c, ts0)"
      "sched ts0 [Handed [1], Marked 1] ts'"
    using example_run by blast
  have "graph_edges [(2 :: int, [1])] = {(1, 2)}" by (auto simp: graph_edges_def)
  then have "acyclic (graph_edges [(2 :: int, [1])])" by (simp add: acyclic_insert wf_acyclic)
  then show ?thesis using scheduler_live[OF r] by (force simp: graph_nodes_def)
qed

section \<open>The static order\<close>

lemma done_loop_ok:
  "sched_ok ts \<Longrightarrow> distinct ns \<Longrightarrow> \<forall>n \<in> set ns. mark (node2info ts) n = Some NODE_OUT \<Longrightarrow>
   \<exists>ts'. done_loop ts ns = (Inr (), ts') \<and> sched_ok ts' \<and> edges (node2info ts') = edges (node2info ts) \<and>
     fst ` set (node2info ts') = fst ` set (node2info ts) \<and>
     mark (node2info ts') = (\<lambda>v. if v \<in> set ns then Some NODE_DONE else mark (node2info ts) v)"
proof (induction ns arbitrary: ts)
  case (Cons n ns)
  obtain ts1 where d: "done_node ts n = Inr ts1" "sched_ok ts1" "edges (node2info ts1) = edges (node2info ts)"
      "fst ` set (node2info ts1) = fst ` set (node2info ts)" "mark (node2info ts1) = (mark (node2info ts))(n \<mapsto> NODE_DONE)"
    using done_node_ok[OF Cons(2), of n] Cons(4) by auto
  have "\<forall>m \<in> set ns. mark (node2info ts1) m = Some NODE_OUT" using Cons(3,4) d(5) by auto
  from Cons(1)[OF d(2) _ this] show ?case using Cons(3) d by (auto simp: fun_eq_iff)
qed simp

text \<open>One round of the loop, from a state where everything handed out is finished.\<close>

lemma static_round:
  assumes "sched_ok ts" and "\<forall>v. mark (node2info ts) v \<noteq> Some NODE_OUT" and "ready_nodes ts = Some ns" and "ns \<noteq> []"
  shows "\<exists>ts'. static_loop ts = Option.bind (static_loop ts') (\<lambda>r. Some (bindE r (\<lambda>out. Inr (ns @ out)))) \<and>
    sched_ok ts' \<and> distinct ns \<and> edges (node2info ts') = edges (node2info ts) \<and> fst ` set (node2info ts') = fst ` set (node2info ts) \<and>
    (\<forall>n \<in> set ns. mark (node2info ts) n = Some 0 \<and> (\<forall>u. (u, n) \<in> edges (node2info ts) \<longrightarrow> mark (node2info ts) u = Some NODE_DONE)) \<and>
    mark (node2info ts') = (\<lambda>v. if v \<in> set ns then Some NODE_DONE else mark (node2info ts) v)"
proof -
  let ?t = "node2info ts"
  obtain ts1 where g: "get_ready ts = Inr (ns, ts1)" "sched_ok ts1" "distinct ns"
      "set ns = {n. \<exists>i. map_of ?t n = Some i \<and> npredecessors i = 0}" "edges (node2info ts1) = edges ?t"
      "fst ` set (node2info ts1) = fst ` set ?t" "mark (node2info ts1) = (\<lambda>v. if v \<in> set ns then Some NODE_OUT else mark ?t v)"
    using get_ready_ok[OF assms(1)] assms(3) by auto
  obtain ts2 where d: "done_loop ts1 ns = (Inr (), ts2)" "sched_ok ts2" "edges (node2info ts2) = edges ?t"
      "fst ` set (node2info ts2) = fst ` set ?t"
      "mark (node2info ts2) = (\<lambda>v. if v \<in> set ns then Some NODE_DONE else mark (node2info ts1) v)"
    using done_loop_ok[OF g(2,3)] g(5,6,7) by auto
  have "ready_nodes ts1 \<noteq> None" using g(2) by (auto simp: sched_ok_def)
  then have "sorter_done ts1 ns = (Inr (), ts2)" using d(1) by (simp add: sorter_done_def)
  moreover have "is_active ts = Inr True" using active_iff[OF assms(1)] assms(3,4) by simp
  ultimately have "static_loop ts = Option.bind (static_loop ts2) (\<lambda>r. Some (bindE r (\<lambda>out. Inr (ns @ out))))"
    using g(1) by (subst static_loop.simps) simp
  moreover have "mark ?t n = Some 0 \<and> (\<forall>u. (u, n) \<in> edges ?t \<longrightarrow> mark ?t u = Some NODE_DONE)" if n: "n \<in> set ns" for n
  proof -
    have c: "counting ?t ns []" using assms(1,3) by (auto simp: sched_ok_def)
    obtain i where i: "map_of ?t n = Some i" "npredecessors i = 0" using n g(4) by auto
    then have "pending ?t n = 0" using c by (auto simp: counting_def)
    then show ?thesis using i c pending_zero_iff[of ?t n] by (auto simp: mark_def counting_def closed_table_def)
  qed
  moreover have "mark (node2info ts2) = (\<lambda>v. if v \<in> set ns then Some NODE_DONE else mark ?t v)"
    using d(5) g(7) by (auto simp: fun_eq_iff)
  ultimately show ?thesis using d(2-4) g(3) by blast
qed

text \<open>Every node of the list comes after its predecessors.\<close>

definition topological :: "('n \<times> 'n) set \<Rightarrow> 'n list \<Rightarrow> bool" where
  "topological E out \<longleftrightarrow> (\<forall>i < length out. \<forall>u. (u, out ! i) \<in> E \<longrightarrow> u \<in> set (take i out))"

lemma static_loop_ok:
  assumes "sched_ok ts" and "\<forall>v. mark (node2info ts) v \<noteq> Some NODE_OUT" and "acyclic (edges (node2info ts))"
  shows "\<exists>out. static_loop ts = Some (Inr out) \<and> distinct out \<and>
    set out = {v \<in> fst ` set (node2info ts). mark (node2info ts) v \<noteq> Some NODE_DONE} \<and>
    topological (edges (node2info ts) - {(u, v). mark (node2info ts) u = Some NODE_DONE}) out"
  using assms
proof (induction "card {v \<in> fst ` set (node2info ts). mark (node2info ts) v \<noteq> Some NODE_DONE}" arbitrary: ts rule: less_induct)
  case less
  let ?t = "node2info ts"
  obtain ns where ns: "ready_nodes ts = Some ns" using less(2) by (auto simp: sched_ok_def)
  show ?case
  proof (cases "ns = []")
    case True
    then have "is_active ts = Inr False" using active_iff[OF less(2)] less(3) ns by simp
    then have "static_loop ts = Some (Inr [])" by (subst static_loop.simps) simp
    moreover have "mark ?t v = Some NODE_DONE" if "v \<in> fst ` set ?t" for v
      using progress[OF less(2,4) that] less(3) ns True by blast
    ultimately show ?thesis by (auto simp: topological_def)
  next
    case False
    obtain ts' where r: "static_loop ts = Option.bind (static_loop ts') (\<lambda>r. Some (bindE r (\<lambda>out. Inr (ns @ out))))"
        "sched_ok ts'" "distinct ns" "edges (node2info ts') = edges ?t" "fst ` set (node2info ts') = fst ` set ?t"
      and fresh: "\<forall>n \<in> set ns. mark ?t n = Some 0 \<and> (\<forall>u. (u, n) \<in> edges ?t \<longrightarrow> mark ?t u = Some NODE_DONE)"
      and mk: "mark (node2info ts') = (\<lambda>v. if v \<in> set ns then Some NODE_DONE else mark ?t v)"
      using static_round[OF less(2,3) ns False] by blast
    let ?W = "{v \<in> fst ` set ?t. mark ?t v \<noteq> Some NODE_DONE}"
    let ?W' = "{v \<in> fst ` set (node2info ts'). mark (node2info ts') v \<noteq> Some NODE_DONE}"
    have nsW: "set ns \<subseteq> ?W"
    proof
      fix n assume "n \<in> set ns"
      then have "mark ?t n = Some 0" using fresh by blast
      then show "n \<in> ?W" using mark_keys[of ?t n] by simp
    qed
    have W': "?W' = ?W - set ns" unfolding r(5) mk by auto
    obtain n where n: "n \<in> set ns" using False by (cases ns) auto
    then have "n \<in> ?W" using nsW by blast
    then have "?W' \<subset> ?W" unfolding W' using n by blast
    then have "card ?W' < card ?W" by (intro psubset_card_mono) simp_all
    moreover have "\<forall>v. mark (node2info ts') v \<noteq> Some NODE_OUT" using less(3) unfolding mk by simp
    ultimately obtain out where out: "static_loop ts' = Some (Inr out)" "distinct out" "set out = ?W'"
        "topological (edges ?t - {(u, v). mark (node2info ts') u = Some NODE_DONE}) out"
      using less(1)[of ts'] r(2,4) less(4) by auto
    have "u \<in> set (take i (ns @ out))"
      if i: "i < length (ns @ out)" and e: "(u, (ns @ out) ! i) \<in> edges ?t" "mark ?t u \<noteq> Some NODE_DONE" for i u
    proof (cases "i < length ns")
      case True
      then show ?thesis using e fresh by (auto simp: nth_append)
    next
      case False
      show ?thesis
      proof (cases "u \<in> set ns")
        case no: False
        then have "u \<in> set (take (i - length ns) out)"
          using out(4) e i False by (auto simp: topological_def nth_append mk)
        then show ?thesis using False by simp
      qed (use False in simp)
    qed
    then have "topological (edges ?t - {(u, v). mark ?t u = Some NODE_DONE}) (ns @ out)" by (simp add: topological_def)
    moreover have "set (ns @ out) = ?W" using nsW by (auto simp: out(3) W')
    moreover have "distinct (ns @ out)" using r(3) out(2,3) by (auto simp: W')
    ultimately show ?thesis using r(1) out(1) by auto
  qed
qed

text \<open>
  C38: Liveness.  For every graph \<^verbatim>\<open>static_order\<close> ends: on a graph without a cycle it yields each node
  exactly once, every node after all of its predecessors; on any other graph it raises
  \<^verbatim>\<open>CycleError\<close> with a cycle of the graph.
\<close>
theorem static_order_topological:
  "\<exists>ts. sorter_new graph = Inr ts \<and>
     (if acyclic (graph_edges graph)
      then \<exists>out. static_order ts = Some (Inr (Inr out)) \<and> distinct out \<and> set out = graph_nodes graph \<and>
        topological (graph_edges graph) out
      else \<exists>c. static_order ts = Some (Inr (Inl c)) \<and> is_cycle (graph_edges graph) c)"
proof -
  obtain t where t: "sorter_new graph = Inr \<lparr>node2info = t, ready_nodes = None, npassedout = 0, nfinished = 0\<rparr>"
      "built t" "edges t = graph_edges graph"
    using sorter_new_built[of graph] by blast
  let ?ts = "\<lparr>node2info = t, ready_nodes = None, npassedout = 0, nfinished = 0\<rparr>"
  have f: "if acyclic (graph_edges graph) then find_cycle t = Inr None
      else \<exists>c. find_cycle t = Inr (Some c) \<and> is_cycle (graph_edges graph) c"
    using find_cycle_ok[of t] t(2) unfolding t(3) built_def by blast
  show ?thesis
  proof (cases "acyclic (graph_edges graph)")
    case True
    then obtain ts0 where p: "prepare ?ts = Inr (None, ts0)" using f by (simp add: prepare_def)
    have ok: "sched_ok ts0" "edges (node2info ts0) = graph_edges graph" "fst ` set (node2info ts0) = graph_nodes graph"
        "mark (node2info ts0) = (\<lambda>v. if v \<in> graph_nodes graph then Some 0 else None)"
      using prepare_ok[OF t(1) p] by auto
    have m: "mark (node2info ts0) v \<noteq> Some NODE_OUT" "mark (node2info ts0) v \<noteq> Some NODE_DONE" for v
      by (simp_all add: ok(4))
    obtain out where "static_loop ts0 = Some (Inr out)" "distinct out" "set out = graph_nodes graph"
        "topological (graph_edges graph) out"
      using static_loop_ok[OF ok(1)] True unfolding ok(2,3) by (auto simp: m)
    then show ?thesis using t(1) p True by (auto simp: static_order_def)
  next
    case False
    then show ?thesis using f t(1) by (auto simp: static_order_def prepare_def)
  qed
qed

end
