(* ===== verification/RustCore.thy ===== *)
theory RustCore
  imports PyText
begin

text \<open>
  What the models of the kernel's Rust sources share.  A computation returns a value or fails,
  and there are three ways to fail: the error it returns, a panic, and not returning.  The
  kernel is built with overflow checks, so an index out of range, a slice out of range and a
  subtraction below zero all panic.  \<open>loopE\<close> is Rust's \<^verbatim>\<open>loop\<close>, and \<open>safe\<close> says of a computation
  that it returns without a panic.
\<close>

section \<open>Failures and checked access\<close>

datatype 'e fail = Err 'e | Panic | Diverge

definition index :: "'a list \<Rightarrow> nat \<Rightarrow> 'e fail + 'a" where
  "index xs i = (if i < length xs then Inr (xs ! i) else Inl Panic)"

definition slice :: "'a list \<Rightarrow> nat \<Rightarrow> nat \<Rightarrow> 'e fail + 'a list" where
  "slice xs a b = (if a \<le> b \<and> b \<le> length xs then Inr (py_slice xs a b) else Inl Panic)"

definition store :: "'a list \<Rightarrow> nat \<Rightarrow> 'a \<Rightarrow> 'e fail + 'a list" where
  "store xs i x = (if i < length xs then Inr (xs[i := x]) else Inl Panic)"

definition copy_from_slice :: "'a list \<Rightarrow> nat \<Rightarrow> nat \<Rightarrow> 'a list \<Rightarrow> 'e fail + 'a list" where
  "copy_from_slice xs a b src =
     (if a \<le> b \<and> b \<le> length xs \<and> length src = b - a then Inr (set_slice xs a b src) else Inl Panic)"

definition sub_checked :: "nat \<Rightarrow> nat \<Rightarrow> 'e fail + nat" where
  "sub_checked a b = (if b \<le> a then Inr (a - b) else Inl Panic)"

definition be_slice :: "bytes \<Rightarrow> nat \<Rightarrow> nat \<Rightarrow> 'e fail + nat" where
  "be_slice xs a b = bindE (slice xs a b) (\<lambda>bs. Inr (be_val bs))"

definition map_err :: "('e \<Rightarrow> 'f) \<Rightarrow> 'e fail + 'a \<Rightarrow> 'f fail + 'a" where
  "map_err f r = (case r of Inr x \<Rightarrow> Inr x | Inl (Err e) \<Rightarrow> Inl (Err (f e)) | Inl Panic \<Rightarrow> Inl Panic
     | Inl Diverge \<Rightarrow> Inl Diverge)"

definition div_ceil :: "nat \<Rightarrow> nat \<Rightarrow> nat" where
  "div_ceil a b = (a + b - 1) div b"

section \<open>Loops\<close>

text \<open>A body returns the state to go on with, or what the loop breaks with.\<close>

partial_function (option) loop_option :: "('s \<Rightarrow> 'e fail + ('s + 'r)) \<Rightarrow> 's \<Rightarrow> ('e fail + 'r) option" where
  "loop_option f s = (case f s of Inl e \<Rightarrow> Some (Inl e)
     | Inr r \<Rightarrow> (case r of Inl t \<Rightarrow> loop_option f t | Inr x \<Rightarrow> Some (Inr x)))"

definition loopE :: "('s \<Rightarrow> 'e fail + ('s + 'r)) \<Rightarrow> 's \<Rightarrow> 'e fail + 'r" where
  "loopE f s = (case loop_option f s of None \<Rightarrow> Inl Diverge | Some r \<Rightarrow> r)"

lemma loopE_unfold: "loopE f s = bindE (f s) (\<lambda>r. case r of Inl t \<Rightarrow> loopE f t | Inr x \<Rightarrow> Inr x)"
  unfolding loopE_def by (subst loop_option.simps) (auto simp: bindE_def split: sum.split)

section \<open>Computations that return\<close>

definition safe :: "'e fail + 'a \<Rightarrow> ('a \<Rightarrow> bool) \<Rightarrow> bool" where
  "safe r P \<longleftrightarrow> (case r of Inl e \<Rightarrow> e \<noteq> Panic \<and> e \<noteq> Diverge | Inr x \<Rightarrow> P x)"

lemma safe_simps [simp]: "safe (Inr x) P \<longleftrightarrow> P x" "safe (Inl e) P \<longleftrightarrow> e \<noteq> Panic \<and> e \<noteq> Diverge"
  by (simp_all add: safe_def)

lemma safe_bind: "safe r P \<Longrightarrow> (\<And>x. r = Inr x \<Longrightarrow> P x \<Longrightarrow> safe (f x) Q) \<Longrightarrow> safe (bindE r f) Q"
  by (cases r) auto

lemma safe_mono: "safe r P \<Longrightarrow> (\<And>x. r = Inr x \<Longrightarrow> P x \<Longrightarrow> Q x) \<Longrightarrow> safe r Q"
  by (cases r) auto

lemma safeD: "safe r P \<Longrightarrow> r = Inr x \<Longrightarrow> P x"
  by simp

lemma safe_fold:
  assumes "P s" and "\<And>s x. P s \<Longrightarrow> x \<in> set xs \<Longrightarrow> safe (f s x) P"
  shows "safe (foldE f s xs) P"
  using assms
proof (induction xs arbitrary: s)
  case (Cons x xs)
  then show ?case by (auto intro!: safe_bind[where P = P])
qed simp

text \<open>The invariant of a fold may depend on how many elements it has seen.\<close>

lemma safe_fold_nth:
  assumes "P 0 s" and "\<And>k s. P k s \<Longrightarrow> k < length xs \<Longrightarrow> safe (f s (xs ! k)) (P (Suc k))"
  shows "safe (foldE f s xs) (P (length xs))"
  using assms
proof (induction xs arbitrary: s P)
  case (Cons x xs)
  have "safe (f s x) (P 1)" using Cons.prems(2)[of 0 s] Cons.prems(1) by simp
  then show ?case
    using Cons.IH[of "\<lambda>k. P (Suc k)"] Cons.prems(2)[of "Suc _"] by (auto intro!: safe_bind)
qed simp

lemma safe_loop:
  assumes "I s"
    and "\<And>s. I s \<Longrightarrow> safe (f s) (\<lambda>r. case r of Inl t \<Rightarrow> I t \<and> m t < (m s :: nat) | Inr x \<Rightarrow> P x)"
  shows "safe (loopE f s) P"
  using assms(1)
proof (induction "m s" arbitrary: s rule: less_induct)
  case less
  show ?case
    by (subst loopE_unfold) (auto intro!: safe_bind[OF assms(2)[OF less.prems]] less.hyps split: sum.split)
qed

lemma safe_map_err: "safe (map_err f r) P \<longleftrightarrow> safe r P"
  by (auto simp: map_err_def safe_def split: sum.split fail.split)

lemma safe_index: "i < length xs \<Longrightarrow> safe (index xs i) (\<lambda>x. x = xs ! i)"
  by (simp add: index_def)

lemma safe_slice: "a \<le> b \<Longrightarrow> b \<le> length xs \<Longrightarrow> safe (slice xs a b) (\<lambda>ys. ys = py_slice xs a b \<and> length ys = b - a)"
  by (simp add: slice_def length_py_slice)

lemma safe_be_slice:
  assumes "a \<le> b" and "b \<le> length xs"
  shows "safe (be_slice xs a b) (\<lambda>v. v < 256 ^ (b - a))"
proof -
  have "be_val (py_slice xs a b) < 256 ^ (b - a)"
    using le_val_bound[of "rev (py_slice xs a b)"] assms by (simp add: be_val_def length_py_slice)
  then show ?thesis using assms by (simp add: be_slice_def slice_def)
qed

lemma safe_store: "i < length xs \<Longrightarrow> safe (store xs i x) (\<lambda>ys. ys = xs[i := x])"
  by (simp add: store_def)

lemma safe_copy:
  "a \<le> b \<Longrightarrow> b \<le> length xs \<Longrightarrow> length src = b - a \<Longrightarrow>
     safe (copy_from_slice xs a b src) (\<lambda>ys. ys = set_slice xs a b src \<and> length ys = length xs)"
  by (simp add: copy_from_slice_def)

lemma index_ok [simp]: "i < length xs \<Longrightarrow> index xs i = Inr (xs ! i)"
  by (simp add: index_def)

lemma store_ok [simp]: "i < length xs \<Longrightarrow> store xs i x = Inr (xs[i := x])"
  by (simp add: store_def)

lemma div_ceil_pos: "0 < b \<Longrightarrow> a \<le> b * div_ceil a b \<and> b * div_ceil a b < a + b"
proof -
  assume "0 < b"
  then have "b * ((a + b - 1) div b) + (a + b - 1) mod b = a + b - 1" "(a + b - 1) mod b < b" by auto
  then show ?thesis unfolding div_ceil_def by linarith
qed

end
