(* ===== verification/Inflate.thy ===== *)
theory Inflate
  imports RustCore
begin

text \<open>
  The decompressor of the kernel, \<^verbatim>\<open>kernel/src/inflate.rs\<close>: DEFLATE with stored, fixed and
  dynamic blocks, and the zlib wrapper.  A Huffman code has a table of counts, the symbols in
  code order and the lookup table for codes of up to nine bits; the reader keeps a 64-bit buffer
  and how many of its bits are valid.  The output buffer is an argument and a result.  Values of
  16 and 32 bits are naturals where they count symbols or bits; the subtraction from the bit
  count, which nothing but the structure of the stream keeps above zero, is checked.
\<close>

section \<open>Tables\<close>

datatype inflate_error = Corrupt | Overflow

type_synonym 'a inflated = "inflate_error fail + 'a"

definition MAX_BITS :: nat where
  "MAX_BITS = 15"

definition FAST_BITS :: nat where
  "FAST_BITS = 9"

definition LENGTH_BASE :: "nat list" where
  "LENGTH_BASE = [3, 4, 5, 6, 7, 8, 9, 10, 11, 13, 15, 17, 19, 23, 27, 31, 35, 43, 51, 59, 67, 83, 99, 115, 131,
     163, 195, 227, 258]"

definition LENGTH_EXTRA :: "nat list" where
  "LENGTH_EXTRA = [0, 0, 0, 0, 0, 0, 0, 0, 1, 1, 1, 1, 2, 2, 2, 2, 3, 3, 3, 3, 4, 4, 4, 4, 5, 5, 5, 5, 0]"

definition DISTANCE_BASE :: "nat list" where
  "DISTANCE_BASE = [1, 2, 3, 4, 5, 7, 9, 13, 17, 25, 33, 49, 65, 97, 129, 193, 257, 385, 513, 769, 1025, 1537,
     2049, 3073, 4097, 6145, 8193, 12289, 16385, 24577]"

definition DISTANCE_EXTRA :: "nat list" where
  "DISTANCE_EXTRA = [0, 0, 0, 0, 1, 1, 2, 2, 3, 3, 4, 4, 5, 5, 6, 6, 7, 7, 8, 8, 9, 9, 10, 10, 11, 11, 12, 12, 13, 13]"

definition CODE_LENGTH_ORDER :: "nat list" where
  "CODE_LENGTH_ORDER = [16, 17, 18, 0, 8, 7, 9, 6, 10, 5, 11, 4, 12, 3, 13, 2, 14, 1, 15]"

section \<open>Huffman codes\<close>

record huffman =
  count :: "nat list"
  symbol :: "nat list"
  fast :: "nat list"

definition count_lengths :: "nat list \<Rightarrow> nat list inflated" where
  "count_lengths lengths = foldE (\<lambda>cnt l. bindE (index cnt l) (\<lambda>c. store cnt l (c + 1))) (replicate (MAX_BITS + 1) 0) lengths"

definition check_subscription :: "nat list \<Rightarrow> int inflated" where
  "check_subscription cnt = foldE (\<lambda>left l. bindE (index cnt l) (\<lambda>c.
     let left = 2 * left - int c in if left < 0 then Inl (Err Corrupt) else Inr left)) 1 [1..<MAX_BITS + 1]"

definition symbol_offsets :: "nat list \<Rightarrow> nat list inflated" where
  "symbol_offsets cnt = foldE (\<lambda>offsets l. bindE (index offsets l) (\<lambda>at. bindE (index cnt l) (\<lambda>c.
     store offsets (l + 1) (at + c)))) (replicate (MAX_BITS + 2) 0) [1..<MAX_BITS + 1]"

definition place_symbol :: "nat list \<times> nat list \<Rightarrow> nat \<times> nat \<Rightarrow> (nat list \<times> nat list) inflated" where
  "place_symbol = (\<lambda>(sy, offsets) (s, l).
     if l \<noteq> 0 then bindE (index offsets l) (\<lambda>at. bindE (store sy at s) (\<lambda>sy.
       bindE (store offsets l (at + 1)) (\<lambda>offsets. Inr (sy, offsets))))
     else Inr (sy, offsets))"

text \<open>\<^verbatim>\<open>code.reverse_bits() >> (32 - length)\<close>: the low bits of the code in the opposite order.\<close>

definition bits_of :: "nat \<Rightarrow> nat \<Rightarrow> bool list" where
  "bits_of n v = map (bit v) [0..<n]"

definition bits_val :: "bool list \<Rightarrow> nat" where
  "bits_val bs = horner_sum of_bool 2 bs"

definition reverse_code :: "nat \<Rightarrow> nat \<Rightarrow> nat" where
  "reverse_code l code = bits_val (rev (bits_of l code))"

function fill_fast :: "nat \<Rightarrow> nat \<Rightarrow> nat list \<Rightarrow> nat \<Rightarrow> nat list inflated" where
  "fill_fast l entry tab fill =
     (if fill < 2 ^ FAST_BITS then bindE (store tab fill entry) (\<lambda>tab. fill_fast l entry tab (fill + 2 ^ l))
      else Inr tab)"
  by pat_completeness auto
termination
  by (relation "measure (\<lambda>(_, _, _, fill). 2 ^ FAST_BITS - fill)") (auto simp: diff_less_mono2)

declare fill_fast.simps [simp del]

definition fast_code :: "nat list \<Rightarrow> nat \<Rightarrow> nat list \<times> nat \<times> nat \<Rightarrow> nat \<Rightarrow> (nat list \<times> nat \<times> nat) inflated" where
  "fast_code sy l = (\<lambda>(tab, code, idx) _.
     bindE (index sy idx) (\<lambda>s. bindE (fill_fast l (16 * s + l) tab (reverse_code l code)) (\<lambda>tab.
       Inr (tab, code + 1, idx + 1))))"

definition fast_length :: "nat list \<Rightarrow> nat list \<Rightarrow> nat list \<times> nat \<times> nat \<Rightarrow> nat \<Rightarrow> (nat list \<times> nat \<times> nat) inflated" where
  "fast_length cnt sy st l =
     bindE (index cnt l) (\<lambda>c. bindE (foldE (fast_code sy l) st [0..<c]) (\<lambda>(tab, code, idx).
       Inr (tab, 2 * code, idx)))"

definition huffman_new :: "nat list \<Rightarrow> huffman inflated" where
  "huffman_new lengths =
     bindE (count_lengths lengths) (\<lambda>cnt. bindE (index cnt 0) (\<lambda>c0.
       if c0 = length lengths then
         Inr \<lparr>count = cnt, symbol = replicate 288 0, fast = replicate (2 ^ FAST_BITS) 0\<rparr>
       else bindE (check_subscription cnt) (\<lambda>_. bindE (symbol_offsets cnt) (\<lambda>offsets.
         bindE (foldE place_symbol (replicate 288 0, offsets) (enumerate 0 lengths)) (\<lambda>(sy, _).
         bindE (foldE (fast_length cnt sy) (replicate (2 ^ FAST_BITS) 0, 0, 0) [1..<FAST_BITS + 1]) (\<lambda>(tab, _, _).
           Inr \<lparr>count = cnt, symbol = sy, fast = tab\<rparr>))))))"

section \<open>The bit reader\<close>

record bits =
  input :: bytes
  position :: nat
  buffer :: "64 word"
  avail :: nat

definition bits_new :: "bytes \<Rightarrow> bits" where
  "bits_new data = \<lparr>input = data, position = 0, buffer = 0, avail = 0\<rparr>"

function refill :: "bits \<Rightarrow> bits" where
  "refill b =
     (if avail b \<le> 56 \<and> position b < length (input b) + 8 then
        refill (b\<lparr>position := position b + 1,
          buffer := buffer b OR push_bit (avail b)
            (ucast (if position b < length (input b) then input b ! position b else 0)),
          avail := avail b + 8\<rparr>)
      else b)"
  by pat_completeness auto
termination
  by (relation "measure (\<lambda>b. 64 - avail b)") auto

declare refill.simps [simp del]

definition bits_take :: "nat \<Rightarrow> bits \<Rightarrow> nat \<times> bits" where
  "bits_take n b =
     (if n = 0 then (0, b)
      else let b = (if avail b < n then refill b else b) in
        (unat (take_bit n (buffer b)), b\<lparr>buffer := drop_bit n (buffer b), avail := avail b - n\<rparr>))"

definition overrun :: "bits \<Rightarrow> bool" where
  "overrun b \<longleftrightarrow> length (input b) < position b - avail b div 8"

definition align_to_byte :: "bits \<Rightarrow> bits" where
  "align_to_byte b = (let d = avail b mod 8 in b\<lparr>buffer := drop_bit d (buffer b), avail := avail b - d\<rparr>)"

fun decode_slow :: "huffman \<Rightarrow> nat list \<Rightarrow> bits \<Rightarrow> int \<Rightarrow> int \<Rightarrow> int \<Rightarrow> (nat \<times> bits) inflated" where
  "decode_slow table [] b code first idx = Inl (Err Corrupt)"
| "decode_slow table (l # ls) b code first idx =
     (let code = code OR of_bool (bit (buffer b) 0);
          b = b\<lparr>buffer := drop_bit 1 (buffer b), avail := avail b - 1\<rparr> in
      bindE (index (count table) l) (\<lambda>c.
        if code - int c < first then
          (if idx + (code - first) < 0 then Inl Panic
           else bindE (index (symbol table) (nat (idx + (code - first)))) (\<lambda>s. Inr (s, b)))
        else decode_slow table ls b (2 * code) (2 * (first + int c)) (idx + int c)))"

definition bits_decode :: "huffman \<Rightarrow> bits \<Rightarrow> (nat \<times> bits) inflated" where
  "bits_decode table b =
     (let b = (if avail b < MAX_BITS then refill b else b) in
      bindE (index (fast table) (unat (take_bit FAST_BITS (buffer b)))) (\<lambda>entry.
        if entry \<noteq> 0 then
          let l = entry mod 16 in
          bindE (sub_checked (avail b) l) (\<lambda>a. Inr (entry div 16, b\<lparr>buffer := drop_bit l (buffer b), avail := a\<rparr>))
        else decode_slow table [1..<MAX_BITS + 1] b 0 0 0))"

section \<open>Blocks\<close>

definition copy_back :: "bytes \<Rightarrow> nat \<Rightarrow> nat \<Rightarrow> nat \<Rightarrow> bytes inflated" where
  "copy_back out written back len =
     (if len \<le> back then bindE (slice out (written - back) (written - back + len)) (copy_from_slice out written (written + len))
      else foldE (\<lambda>out k. bindE (index out (written - back + k)) (store out (written + k))) out [0..<len])"

text \<open>One round of the loop of \<^verbatim>\<open>inflate_block\<close>, over the reader, the output and how much of it is
  written.\<close>

definition block_next :: "bits \<Rightarrow> bytes \<Rightarrow> nat \<Rightarrow> (bits \<times> bytes \<times> nat + bits \<times> bytes \<times> nat) inflated" where
  "block_next b out written = (if overrun b then Inl (Err Corrupt) else Inr (Inl (b, out, written)))"

definition block_match :: "huffman \<Rightarrow> bytes \<Rightarrow> nat \<Rightarrow> nat \<Rightarrow> bits \<Rightarrow> (bits \<times> bytes \<times> nat + bits \<times> bytes \<times> nat) inflated" where
  "block_match dist out written len b =
     bindE (bits_decode dist b) (\<lambda>(dsy, b).
       if 30 \<le> dsy then Inl (Err Corrupt)
       else bindE (index DISTANCE_BASE dsy) (\<lambda>dbase. bindE (index DISTANCE_EXTRA dsy) (\<lambda>dextra.
         let (v, b) = bits_take dextra b; back = dbase + v in
         if written < back then Inl (Err Corrupt)
         else if length out < written + len then Inl (Err Overflow)
         else bindE (copy_back out written back len) (\<lambda>out. block_next b out (written + len)))))"

definition block_step :: "huffman \<Rightarrow> huffman \<Rightarrow> bits \<times> bytes \<times> nat \<Rightarrow> (bits \<times> bytes \<times> nat + bits \<times> bytes \<times> nat) inflated" where
  "block_step literal dist = (\<lambda>(b, out, written).
     bindE (bits_decode literal b) (\<lambda>(sy, b).
       if sy < 256 then
         (if written = length out then Inl (Err Overflow)
          else bindE (store out written (of_nat sy)) (\<lambda>out. block_next b out (written + 1)))
       else if sy = 256 then Inr (Inr (b, out, written))
       else let sy = sy - 257 in
         if 29 \<le> sy then Inl (Err Corrupt)
         else bindE (index LENGTH_BASE sy) (\<lambda>base. bindE (index LENGTH_EXTRA sy) (\<lambda>extra.
           let (v, b) = bits_take extra b in block_match dist out written (base + v) b))))"

definition inflate_block :: "bits \<Rightarrow> huffman \<Rightarrow> huffman \<Rightarrow> bytes \<Rightarrow> nat \<Rightarrow> (bits \<times> bytes \<times> nat) inflated" where
  "inflate_block b literal dist out written = loopE (block_step literal dist) (b, out, written)"

definition repeat_code :: "nat list \<Rightarrow> nat \<Rightarrow> nat \<Rightarrow> bits \<Rightarrow> (nat \<times> nat \<times> bits) inflated" where
  "repeat_code lengths idx sy b =
     (if sy = 16 then
        (if idx = 0 then Inl (Err Corrupt)
         else bindE (index lengths (idx - 1)) (\<lambda>v. let (r, b) = bits_take 2 b in Inr (v, 3 + r, b)))
      else if sy = 17 then (let (r, b) = bits_take 3 b in Inr (0, 3 + r, b))
      else (let (r, b) = bits_take 7 b in Inr (0, 11 + r, b)))"

definition put_lengths :: "nat \<Rightarrow> nat list \<Rightarrow> nat \<Rightarrow> nat \<Rightarrow> bits \<Rightarrow> (bits \<times> nat list \<times> nat) inflated" where
  "put_lengths all_count lengths idx sy b =
     (if sy < 16 then bindE (store lengths idx sy) (\<lambda>lengths. Inr (b, lengths, idx + 1))
      else bindE (repeat_code lengths idx sy b) (\<lambda>(v, rep, b).
        if all_count < idx + rep then Inl (Err Corrupt)
        else bindE (foldE (\<lambda>lengths k. store lengths (idx + k) v) lengths [0..<rep]) (\<lambda>lengths.
          Inr (b, lengths, idx + rep))))"

text \<open>One round of the loop over the code lengths, which ends when all of them are read.\<close>

definition lengths_step :: "huffman \<Rightarrow> nat \<Rightarrow> bits \<times> nat list \<times> nat \<Rightarrow> (bits \<times> nat list \<times> nat + bits \<times> nat list) inflated" where
  "lengths_step table all_count = (\<lambda>(b, lengths, idx).
     if idx < all_count then
       bindE (bits_decode table b) (\<lambda>(sy, b). bindE (put_lengths all_count lengths idx sy b) (\<lambda>(b, lengths, idx).
         if overrun b then Inl (Err Corrupt) else Inr (Inl (b, lengths, idx))))
     else Inr (Inr (b, lengths)))"

definition code_length_step :: "bits \<times> nat list \<Rightarrow> nat \<Rightarrow> (bits \<times> nat list) inflated" where
  "code_length_step = (\<lambda>(b, lengths) k. let (v, b) = bits_take 3 b in
     bindE (store lengths k v) (\<lambda>lengths. Inr (b, lengths)))"

definition two_codes :: "nat \<Rightarrow> nat \<Rightarrow> bits \<times> nat list \<Rightarrow> (huffman \<times> huffman \<times> bits) inflated" where
  "two_codes literal_count distance_count = (\<lambda>(b, lengths).
     bindE (index lengths 256) (\<lambda>eob.
       if eob = 0 then Inl (Err Corrupt)
       else bindE (slice lengths 0 literal_count) (\<lambda>ls. bindE (huffman_new ls) (\<lambda>literal.
         bindE (slice lengths literal_count (literal_count + distance_count)) (\<lambda>ds. bindE (huffman_new ds) (\<lambda>dist.
           Inr (literal, dist, b)))))))"

definition read_dynamic_tables :: "bits \<Rightarrow> (huffman \<times> huffman \<times> bits) inflated" where
  "read_dynamic_tables b =
     (let (v, b) = bits_take 5 b; literal_count = v + 257; (v, b) = bits_take 5 b; distance_count = v + 1;
          (v, b) = bits_take 4 b; code_length_count = v + 4 in
      if 286 < literal_count \<or> 30 < distance_count then Inl (Err Corrupt)
      else bindE (foldE code_length_step (b, replicate 320 0) (take code_length_count CODE_LENGTH_ORDER)) (\<lambda>(b, lengths).
        bindE (slice lengths 0 19) (\<lambda>first19. bindE (huffman_new first19) (\<lambda>code_lengths.
        bindE (loopE (lengths_step code_lengths (literal_count + distance_count)) (b, replicate 320 0, 0))
          (two_codes literal_count distance_count)))))"

definition fixed_lengths :: "nat list" where
  "fixed_lengths = replicate 144 8 @ replicate 112 9 @ replicate 24 7 @ replicate 8 8"

definition stored_step :: "bits \<times> bytes \<times> nat \<Rightarrow> nat \<Rightarrow> (bits \<times> bytes \<times> nat) inflated" where
  "stored_step = (\<lambda>(b, out, written) _. let (v, b) = bits_take 8 b in
     bindE (store out written (of_nat v)) (\<lambda>out. Inr (b, out, written + 1)))"

definition stored_block :: "bits \<Rightarrow> bytes \<Rightarrow> nat \<Rightarrow> (bits \<times> bytes \<times> nat) inflated" where
  "stored_block b out written =
     (let b = align_to_byte b; (len, b) = bits_take 16 b; (inverse, b) = bits_take 16 b in
      if len \<noteq> unat (NOT (of_nat inverse :: 16 word)) then Inl (Err Corrupt)
      else if length out < written + len then Inl (Err Overflow)
      else foldE stored_step (b, out, written) [0..<len])"

definition inflate_step :: "bits \<times> bytes \<times> nat \<Rightarrow> (bits \<times> bytes \<times> nat + bytes \<times> nat) inflated" where
  "inflate_step = (\<lambda>(b, out, written).
     let (final, b) = bits_take 1 b; (kind, b) = bits_take 2 b in
     bindE (if kind = 0 then stored_block b out written
       else if kind = 1 then
         bindE (huffman_new fixed_lengths) (\<lambda>literal. bindE (huffman_new (replicate 30 5)) (\<lambda>dist.
           inflate_block b literal dist out written))
       else if kind = 2 then
         bindE (read_dynamic_tables b) (\<lambda>(literal, dist, b). inflate_block b literal dist out written)
       else Inl (Err Corrupt))
     (\<lambda>(b, out, written).
       if overrun b then Inl (Err Corrupt)
       else if final = 1 then Inr (Inr (out, written)) else Inr (Inl (b, out, written))))"

definition inflate :: "bytes \<Rightarrow> bytes \<Rightarrow> (bytes \<times> nat) inflated" where
  "inflate data out = loopE inflate_step (bits_new data, out, 0)"

definition zlib_decompress :: "bytes \<Rightarrow> bytes \<Rightarrow> (bytes \<times> nat) inflated" where
  "zlib_decompress data out =
     (if length data < 6 then Inl (Err Corrupt)
      else bindE (index data 0) (\<lambda>cmf. bindE (index data 1) (\<lambda>flags.
        if cmf AND 0x0F \<noteq> 8 \<or> (unat cmf * 256 + unat flags) mod 31 \<noteq> 0 \<or> flags AND 0x20 \<noteq> 0 then Inl (Err Corrupt)
        else bindE (slice data 2 (length data)) (\<lambda>body. inflate body out))))"

end
