(* ===== verification/InflateStream.thy ===== *)
theory InflateStream
  imports Inflate "HOL-Library.Sublist"
begin

text \<open>
  The bit reader of the decompressor as a list of bits.  What is left to read is the valid part
  of the buffer and then the bits of the bytes that are not yet in it, with the eight zero bytes
  the reader allows itself behind the end.  Refilling does not change it, taking bits drops them
  from its front, and a Huffman code reads a prefix.
\<close>

section \<open>Bits and their values\<close>

definition byte_bits :: "byte \<Rightarrow> bool list" where
  "byte_bits x = map (bit x) [0..<8]"

definition bytes_bits :: "bytes \<Rightarrow> bool list" where
  "bytes_bits bs = concat (map byte_bits bs)"

lemma length_byte_bits [simp]: "length (byte_bits x) = 8"
  by (simp add: byte_bits_def)

lemma bytes_bits_simps [simp]:
  "bytes_bits [] = []" "bytes_bits (x # xs) = byte_bits x @ bytes_bits xs"
  "bytes_bits (xs @ ys) = bytes_bits xs @ bytes_bits ys"
  by (simp_all add: bytes_bits_def)

lemma length_bytes_bits [simp]: "length (bytes_bits bs) = 8 * length bs"
  by (induction bs) auto

lemma length_bits_of [simp]: "length (bits_of n v) = n"
  by (simp add: bits_of_def)

lemma bits_val_simps [simp]:
  "bits_val [] = 0" "bits_val (x # xs) = of_bool x + 2 * bits_val xs"
  by (simp_all add: bits_val_def)

lemma bits_val_less: "bits_val bs < 2 ^ length bs"
  by (induction bs) auto

lemma bits_val_le: "length bs \<le> n \<Longrightarrow> bits_val bs < 2 ^ n"
  using bits_val_less[of bs] power_increasing[of "length bs" n "2 :: nat"] by linarith

lemma bits_val_bits_of: "bits_val (bits_of n v) = take_bit n v"
  by (simp add: bits_val_def bits_of_def horner_sum_bit_eq_take_bit)

lemma bits_of_bits_val: "bits_of (length bs) (bits_val bs) = bs"
  by (auto simp: bits_of_def bits_val_def bit_horner_sum_bit_iff intro: nth_equalityI)

lemma bits_val_append: "bits_val (xs @ ys) = bits_val xs + 2 ^ length xs * bits_val ys"
  by (induction xs) (auto simp: algebra_simps)

lemma bits_val_zeros: "(\<forall>x \<in> set bs. \<not> x) \<Longrightarrow> bits_val bs = 0"
  by (induction bs) auto

lemma bits_val_0_iff: "bits_val bs = 0 \<longleftrightarrow> (\<forall>x \<in> set bs. \<not> x)"
  by (induction bs) auto

section \<open>What is left to read\<close>

definition stream :: "bits \<Rightarrow> bool list" where
  "stream b = map (bit (buffer b)) [0..<avail b] @ bytes_bits (drop (position b) (input b @ replicate 8 0))"

definition bits_ok :: "bits \<Rightarrow> bool" where
  "bits_ok b \<longleftrightarrow> avail b \<le> 64 \<and> position b \<le> length (input b) + 8 \<and> (\<forall>i \<ge> avail b. \<not> bit (buffer b) i) \<and>
     suffix (stream b) (bytes_bits (input b @ replicate 8 0))"

lemma length_stream: "length (stream b) = avail b + 8 * (length (input b) + 8 - position b)"
  by (simp add: stream_def del: bytes_bits_simps drop_append)

text \<open>One byte more in the buffer, for a well-formed reader.\<close>

lemma stream_word:
  fixes w :: "64 word"
  assumes "a \<le> 56" and "\<And>i. a \<le> i \<Longrightarrow> \<not> bit w i"
  shows "map (bit (w OR push_bit a (ucast (x :: byte)))) [0..<a + 8] = map (bit w) [0..<a] @ byte_bits x"
proof (rule nth_equalityI)
  fix i assume "i < length (map (bit (w OR push_bit a (ucast x))) [0..<a + 8])"
  then show "map (bit (w OR push_bit a (ucast x))) [0..<a + 8] ! i = (map (bit w) [0..<a] @ byte_bits x) ! i"
    using assms by (auto simp: nth_append byte_bits_def bit_simps)
qed simp

lemma refill_step_ok:
  assumes "bits_ok b" and "avail b \<le> 56" and "position b < length (input b) + 8"
  defines "x \<equiv> if position b < length (input b) then input b ! position b else 0"
  defines "b' \<equiv> b\<lparr>position := position b + 1, buffer := buffer b OR push_bit (avail b) (ucast x), avail := avail b + 8\<rparr>"
  shows "bits_ok b' \<and> stream b' = stream b"
proof -
  have zero: "\<And>i. avail b \<le> i \<Longrightarrow> \<not> bit (buffer b) i" using assms(1) by (simp add: bits_ok_def)
  have x: "(input b @ replicate 8 0) ! position b = x"
    using assms(3) by (auto simp: x_def nth_append)
  have "drop (position b) (input b @ replicate 8 0) = x # drop (Suc (position b)) (input b @ replicate 8 0)"
    using Cons_nth_drop_Suc[of "position b" "input b @ replicate 8 0"] assms(3) x by simp
  then have s: "stream b' = stream b"
    using stream_word[OF assms(2) zero, of x] by (simp add: stream_def b'_def del: drop_append)
  moreover have "\<not> bit (buffer b') i" if "avail b' \<le> i" for i
    using that zero[of i] bit_imp_le_length[of x "i - avail b"] by (auto simp: b'_def bit_simps)
  ultimately show ?thesis
    using assms(1-3) by (auto simp: bits_ok_def b'_def)
qed

lemma refill_ok: "bits_ok b \<Longrightarrow> bits_ok (refill b) \<and> stream (refill b) = stream b \<and> input (refill b) = input b \<and>
    (56 < avail (refill b) \<or> length (stream b) = avail (refill b))"
proof (induction b rule: refill.induct)
  case (1 b)
  show ?case
  proof (cases "avail b \<le> 56 \<and> position b < length (input b) + 8")
    case True
    then show ?thesis
      using refill_step_ok[OF 1(2)] 1(1)[OF True] by (subst (1 2 3 4 5) refill.simps) simp
  next
    case False
    then show ?thesis
      using 1(2) by (subst (1 2 3 4 5) refill.simps) (auto simp: bits_ok_def stream_def)
  qed
qed

lemma consume_ok:
  assumes "bits_ok b" and "n \<le> avail b \<or> length (stream b) = avail b"
  defines "b' \<equiv> b\<lparr>buffer := drop_bit n (buffer b), avail := avail b - n\<rparr>"
  shows "bits_ok b' \<and> stream b' = drop n (stream b)"
proof -
  have "map (bit (drop_bit n (buffer b))) [0..<avail b - n] = drop n (map (bit (buffer b)) [0..<avail b])"
    by (rule nth_equalityI) (auto simp: bit_simps add.commute)
  then have s: "stream b' = drop n (stream b)"
    using assms(2) by (auto simp: stream_def b'_def)
  have "suffix (stream b') (bytes_bits (input b @ replicate 8 0))"
    using assms(1) suffix_drop[of n "stream b"] unfolding s bits_ok_def by (meson suffix_order.trans)
  moreover have "\<not> bit (buffer b') i" if "avail b' \<le> i" for i
    using that assms(1) by (auto simp: b'_def bits_ok_def bit_simps)
  ultimately show ?thesis
    using s assms(1) by (auto simp: bits_ok_def b'_def)
qed

lemma peek_ok:
  assumes "bits_ok b" and "n \<le> avail b \<or> length (stream b) = avail b" and "n \<le> 64"
  shows "unat (take_bit n (buffer b)) = bits_val (take n (stream b))"
proof -
  have "unat (take_bit n (buffer b)) = bits_val (map (bit (buffer b)) [0..<n])"
  proof -
    have "bit (unat (buffer b)) = bit (buffer b)" by (auto simp: bit_unsigned_iff dest: bit_imp_le_length)
    then show ?thesis
      using horner_sum_bit_eq_take_bit[of "unat (buffer b)" n] by (simp add: bits_val_def unsigned_take_bit_eq)
  qed
  also have "\<dots> = bits_val (take n (stream b))"
  proof (cases "n \<le> avail b")
    case True
    then show ?thesis by (simp add: stream_def take_map)
  next
    case False
    then have "[0..<n] = [0..<avail b] @ [avail b..<n]" by (metis upt_add_eq_append le_add_diff_inverse nat_le_linear zero_le)
    moreover have "bits_val (map (bit (buffer b)) [avail b..<n]) = 0"
      using assms(1) by (intro bits_val_zeros) (auto simp: bits_ok_def)
    ultimately show ?thesis
      using False assms(2) by (auto simp: bits_val_append stream_def)
  qed
  finally show ?thesis .
qed

lemma bits_take_ok:
  assumes "bits_ok b" and "n \<le> 57"
  obtains b' where "bits_take n b = (bits_val (take n (stream b)), b')" "bits_ok b'" "stream b' = drop n (stream b)"
proof (cases "n = 0")
  case False
  define c where "c = (if avail b < n then refill b else b)"
  have c: "bits_ok c" "stream c = stream b" "n \<le> avail c \<or> length (stream c) = avail c"
    using refill_ok[OF assms(1)] assms by (auto simp: c_def)
  show ?thesis
    using that[of "c\<lparr>buffer := drop_bit n (buffer c), avail := avail c - n\<rparr>"] consume_ok[OF c(1,3)]
      peek_ok[OF c(1,3)] assms(2) c(2) False by (simp add: bits_take_def Let_def flip: c_def)
qed (use that assms in \<open>simp add: bits_take_def\<close>)

lemma overrun_iff:
  assumes "bits_ok b"
  shows "overrun b \<longleftrightarrow> length (stream b) < 64"
proof -
  have "avail b = 8 * (avail b div 8) + avail b mod 8" "avail b mod 8 < 8" by auto
  then show ?thesis
    using assms by (auto simp: overrun_def bits_ok_def length_stream)
qed

lemma align_ok:
  assumes "bits_ok b"
  shows "bits_ok (align_to_byte b) \<and> stream (align_to_byte b) = drop (length (stream b) mod 8) (stream b)"
proof -
  have "avail b mod 8 = length (stream b) mod 8"
    by (simp add: length_stream)
  moreover have "avail b mod 8 \<le> avail b" by simp
  ultimately show ?thesis
    using consume_ok[OF assms, of "avail b mod 8"] by (metis align_to_byte_def)
qed

lemma bits_new_ok: "bits_ok (bits_new data)" "stream (bits_new data) = bytes_bits data @ replicate 64 False"
proof -
  have z: "byte_bits 0 = replicate 8 False" by (simp add: byte_bits_def upt_rec numeral_eq_Suc)
  have "bytes_bits (replicate 8 0) = replicate 64 False"
    by (simp add: numeral_eq_Suc z)
  then show s: "stream (bits_new data) = bytes_bits data @ replicate 64 False"
    by (simp add: bits_new_def stream_def)
  then have "suffix (stream (bits_new data)) (bytes_bits (input (bits_new data) @ replicate 8 0))"
    using \<open>bytes_bits (replicate 8 0) = replicate 64 False\<close> by (simp add: bits_new_def)
  then show "bits_ok (bits_new data)"
    unfolding bits_ok_def by (auto simp: bits_new_def)
qed

text \<open>The last 64 bits of what is left are the zeros behind the end of the input.\<close>

lemma stream_tail:
  assumes "bits_ok b" and "i < length (stream b)" and "stream b ! i"
  shows "i + 64 < length (stream b)"
proof -
  obtain zs where "bytes_bits (input b) @ replicate 64 False = zs @ stream b"
    using assms(1) bits_new_ok(2)[of "input b"] by (auto simp: bits_ok_def suffix_def stream_def bits_new_def)
  then have "length zs + length (stream b) = 8 * length (input b) + 64"
    and "(bytes_bits (input b) @ replicate 64 False) ! (length zs + i)"
    using assms(3) by (metis length_append length_bytes_bits length_replicate, metis nth_append_length_plus)
  then show ?thesis
    using assms(2) by (auto simp: nth_append split: if_splits)
qed

end
