(* ===== verification/InflateSafe.thy ===== *)
theory InflateSafe
  imports InflateStream
begin

text \<open>
  The decompressor returns on every input, and without a panic: every index is in range, and the
  bit count is never taken below zero.  The reader allows itself 64 bits behind the end of the
  input and looks for an overrun once per symbol, and the longest symbol has 48 bits; before the
  code lengths of a dynamic block there is no such test, but there the bits behind the end are
  zeros, which make no code.
\<close>

section \<open>Decoding a symbol\<close>

definition huffman_ok :: "huffman \<Rightarrow> bool" where
  "huffman_ok t \<longleftrightarrow> length (count t) = 16 \<and> length (symbol t) = 288 \<and> length (fast t) = 512 \<and>
     sum_list (drop 1 (count t)) \<le> 288 \<and> (\<forall>e \<in> set (fast t). e \<noteq> 0 \<longrightarrow> 1 \<le> e mod 16 \<and> e mod 16 \<le> 9)"

definition reads :: "bits \<Rightarrow> nat \<Rightarrow> bits \<Rightarrow> bool" where
  "reads b n b' \<longleftrightarrow> bits_ok b' \<and> (\<exists>k. 1 \<le> k \<and> k \<le> n \<and> stream b' = drop k (stream b))"

lemma reads_after:
  assumes "reads b1 m b'" and "stream b1 = drop n (stream b)"
  shows "reads b (n + m) b'"
proof -
  obtain k where "1 \<le> k" "k \<le> m" "stream b' = drop k (drop n (stream b))" "bits_ok b'"
    using assms unfolding reads_def by auto
  then show ?thesis unfolding reads_def by (auto intro!: exI[of _ "n + k"] simp: add.commute)
qed

lemma or_bit: "even (c :: int) \<Longrightarrow> c OR of_bool x = c + of_bool x"
  by (cases x) (auto simp: or_one_eq)

lemma safe_decode_slow:
  assumes "bits_ok b" and "length ls \<le> avail b \<or> length (stream b) = avail b"
    and "length (symbol t) = 288" and "\<forall>l \<in> set ls. l < length (count t)"
    and "even code" and "first \<le> code" and "0 \<le> idx" and "idx + int (\<Sum>l\<leftarrow>ls. count t ! l) \<le> 288"
  shows "safe (decode_slow t ls b code first idx) (\<lambda>(s, b'). reads b (length ls) b')"
  using assms
proof (induction ls arbitrary: b code first idx)
  case (Cons l ls)
  define c where "c = code OR of_bool (bit (buffer b) 0)"
  define b1 where "b1 = b\<lparr>buffer := drop_bit 1 (buffer b), avail := avail b - 1\<rparr>"
  have full: "1 \<le> avail b \<or> length (stream b) = avail b" using Cons.prems(2) by auto
  have b1: "bits_ok b1" "stream b1 = drop 1 (stream b)"
    using consume_ok[OF Cons.prems(1) full] by (simp_all add: b1_def)
  have c: "first \<le> c" using Cons.prems(5,6) by (simp add: c_def or_bit)
  have l: "l < length (count t)" using Cons.prems(4) by simp
  have step: "decode_slow t (l # ls) b code first idx = (if c - int (count t ! l) < first then
      (if idx + (c - first) < 0 then Inl Panic
       else bindE (index (symbol t) (nat (idx + (c - first)))) (\<lambda>s. Inr (s, b1)))
      else decode_slow t ls b1 (2 * c) (2 * (first + int (count t ! l))) (idx + int (count t ! l)))"
    using l by (simp add: Let_def c_def b1_def)
  show ?case
  proof (cases "c - int (count t ! l) < first")
    case True
    then have "nat (idx + (c - first)) < 288" "0 \<le> idx + (c - first)" using c Cons.prems(7,8) by auto
    then show ?thesis
      using True Cons.prems(3) b1 unfolding step by (auto simp: reads_def)
  next
    case False
    have "safe (decode_slow t ls b1 (2 * c) (2 * (first + int (count t ! l))) (idx + int (count t ! l)))
        (\<lambda>(s, b'). reads b1 (length ls) b')"
      by (rule Cons.IH) (use Cons.prems False b1 in \<open>auto simp: b1_def\<close>)
    then have "safe (decode_slow t ls b1 (2 * c) (2 * (first + int (count t ! l))) (idx + int (count t ! l)))
        (\<lambda>(s, b'). reads b (length (l # ls)) b')"
      by (rule safe_mono) (auto dest: reads_after[OF _ b1(2)])
    then show ?thesis
      using False unfolding step by simp
  qed
qed simp

lemma safe_decode:
  assumes "bits_ok b" and "huffman_ok t" and "\<forall>e \<in> set (fast t). e mod 16 \<le> length (stream b)"
  shows "safe (bits_decode t b) (\<lambda>(s, b'). reads b 15 b')"
proof -
  define c where "c = (if avail b < 15 then refill b else b)"
  have c: "bits_ok c" "stream c = stream b" "15 \<le> avail c \<or> length (stream c) = avail c"
    using refill_ok[OF assms(1)] assms(1) by (auto simp: c_def)
  define e where "e = fast t ! unat (take_bit 9 (buffer c))"
  have "unat (take_bit 9 (buffer c)) < 512"
    using unsigned_take_bit_eq[of 9 "buffer c", where ?'a = nat] take_bit_nat_less_exp[of 9 "unat (buffer c)"] by simp
  then have e: "e \<in> set (fast t)" and lt: "unat (take_bit 9 (buffer c)) < length (fast t)"
    using assms(2) by (auto simp: huffman_ok_def e_def)
  have step: "bits_decode t b = (if e \<noteq> 0 then
      bindE (sub_checked (avail c) (e mod 16)) (\<lambda>a. Inr (e div 16, c\<lparr>buffer := drop_bit (e mod 16) (buffer c), avail := a\<rparr>))
      else decode_slow t [1..<16] c 0 0 0)"
    using lt by (simp add: bits_decode_def Let_def MAX_BITS_def FAST_BITS_def e_def flip: c_def)
  show ?thesis
  proof (cases "e = 0")
    case True
    have "count t = hd (count t) # drop 1 (count t)" using assms(2) by (cases "count t") (auto simp: huffman_ok_def)
    moreover have "map ((!) (count t)) [1..<16] = drop 1 (count t)"
      using assms(2) by (intro nth_equalityI) (auto simp: huffman_ok_def)
    ultimately have "safe (decode_slow t [1..<16] c 0 0 0) (\<lambda>(s, b'). reads c (length [1..<16]) b')"
      using assms(2) c by (intro safe_decode_slow) (auto simp: huffman_ok_def simp del: upt_rec_numeral)
    then show ?thesis
      using True unfolding step by (simp add: reads_def c(2) del: upt_rec_numeral)
  next
    case False
    then have l: "1 \<le> e mod 16" "e mod 16 \<le> 9" "e mod 16 \<le> length (stream b)"
      using assms(2,3) e by (auto simp: huffman_ok_def)
    then have "e mod 16 \<le> avail c" using c by auto
    then show ?thesis
      using l False consume_ok[OF c(1), of "e mod 16"] c(2) unfolding step
      by (auto simp: sub_checked_def reads_def)
  qed
qed

section \<open>Building a code\<close>

lemma count_lengths_eq:
  assumes "\<forall>l \<in> set lengths. l < 16"
  shows "count_lengths lengths = Inr (map (count_list lengths) [0..<16])"
proof -
  have "foldE (\<lambda>cnt l. bindE (index cnt l) (\<lambda>c. store cnt l (c + 1))) cnt lengths =
      (Inr (map (\<lambda>i. cnt ! i + count_list lengths i) [0..<16]) :: nat list inflated)" if "length cnt = 16" for cnt
    using that assms
  proof (induction lengths arbitrary: cnt)
    case Nil
    then show ?case by (auto intro: nth_equalityI)
  next
    case (Cons l lengths)
    then have "(\<lambda>i. cnt[l := cnt ! l + 1] ! i + count_list lengths i) i = cnt ! i + count_list (l # lengths) i"
      if "i < 16" for i using that by (auto simp: nth_list_update)
    then show ?case using Cons by simp
  qed
  then show ?thesis by (simp add: count_lengths_def MAX_BITS_def cong: map_cong)
qed

definition below :: "nat list \<Rightarrow> nat \<Rightarrow> nat" where
  "below lengths l = (\<Sum>j \<in> {1..<l}. count_list lengths j)"

lemma below_Suc: "1 \<le> l \<Longrightarrow> below lengths (Suc l) = below lengths l + count_list lengths l"
  by (simp add: below_def)

lemma below_le: "l \<le> 16 \<Longrightarrow> below lengths l \<le> length lengths"
proof -
  assume "l \<le> 16"
  have "below lengths l \<le> (\<Sum>j \<in> set lengths \<union> {1..<l}. count_list lengths j)"
    unfolding below_def by (intro sum_mono2) auto
  also have "\<dots> = length lengths" by (intro sum_count_set) auto
  finally show ?thesis .
qed

lemma symbol_offsets_eq:
  assumes "cnt = map (count_list lengths) [0..<16]"
  shows "safe (symbol_offsets cnt) (\<lambda>offsets. length offsets = 17 \<and> (\<forall>l < 17. 1 \<le> l \<longrightarrow> offsets ! l = below lengths l))"
proof -
  let ?P = "\<lambda>k offsets. length offsets = 17 \<and> (\<forall>l \<le> Suc k. 1 \<le> l \<longrightarrow> offsets ! l = below lengths l)"
  have "safe (symbol_offsets cnt) (?P (length [1..<MAX_BITS + 1]))"
    unfolding symbol_offsets_def
  proof (rule safe_fold_nth)
    show "?P 0 (replicate (MAX_BITS + 2) 0)" by (auto simp: MAX_BITS_def below_def le_Suc_eq)
    fix k and offsets :: "nat list"
    assume p: "?P k offsets" and k: "k < length [1..<MAX_BITS + 1]"
    have "offsets[Suc (Suc k) := offsets ! Suc k + count_list lengths (Suc k)] ! l = below lengths l"
      if "l \<le> Suc (Suc k)" "1 \<le> l" for l
      using that p k below_Suc[of "Suc k" lengths] by (cases "l = Suc (Suc k)") (auto simp: MAX_BITS_def)
    then show "safe (bindE (index offsets ([1..<MAX_BITS + 1] ! k)) (\<lambda>at. bindE (index cnt ([1..<MAX_BITS + 1] ! k)) (\<lambda>c.
        store offsets ([1..<MAX_BITS + 1] ! k + 1) (at + c)))) (?P (Suc k))"
      using p k assms by (simp add: MAX_BITS_def del: upt_rec_numeral upt_Suc)
  qed
  then show ?thesis by (rule safe_mono) (auto simp: MAX_BITS_def)
qed

lemma place_symbols_safe:
  assumes "\<forall>l \<in> set lengths. l < 16" and "length lengths \<le> 288"
    and "length offsets = 17" and "\<forall>l < 17. 1 \<le> l \<longrightarrow> offsets ! l = below lengths l"
  shows "safe (foldE place_symbol (replicate 288 0, offsets) (enumerate 0 lengths)) (\<lambda>(sy, _). length sy = 288)"
proof -
  let ?P = "\<lambda>k (sy :: nat list, offs :: nat list). length sy = 288 \<and> length offs = 17 \<and>
    (\<forall>l < 16. 1 \<le> l \<longrightarrow> offs ! l = below lengths l + count_list (take k lengths) l)"
  have "safe (foldE place_symbol (replicate 288 0, offsets) (enumerate 0 lengths)) (?P (length (enumerate 0 lengths)))"
  proof (rule safe_fold_nth)
    fix k and st :: "nat list \<times> nat list"
    assume p: "?P k st" and k: "k < length (enumerate 0 lengths)"
    obtain sy offs where st: "st = (sy, offs)" by force
    let ?l = "lengths ! k"
    have n: "enumerate 0 lengths ! k = (k, ?l)" using k by (simp add: nth_enumerate_eq)
    have l: "?l < 16" using assms(1) k by simp
    have snoc: "take (Suc k) lengths = take k lengths @ [?l]" using k by (simp add: take_Suc_conv_app_nth)
    have "count_list (take k lengths) ?l < count_list lengths ?l"
    proof -
      have "lengths = take k lengths @ ?l # drop (Suc k) lengths" using k by (simp add: id_take_nth_drop)
      then have "count_list lengths ?l = count_list (take k lengths) ?l + Suc (count_list (drop (Suc k) lengths) ?l)"
        by (metis count_list.simps(2) count_list_append add_Suc_right Suc_eq_plus1)
      then show ?thesis by simp
    qed
    moreover have "below lengths (Suc ?l) \<le> 288" using below_le[of "Suc ?l" lengths] l assms(2) by simp
    ultimately have "?l \<noteq> 0 \<Longrightarrow> offs ! ?l < 288" using p l by (auto simp: st below_Suc)
    then show "safe (place_symbol st (enumerate 0 lengths ! k)) (?P (Suc k))"
      using p l unfolding n by (auto simp: st place_symbol_def snoc nth_list_update)
  qed (use assms in auto)
  then show ?thesis by (rule safe_mono) auto
qed

definition entries :: "nat list \<Rightarrow> nat list \<Rightarrow> bool" where
  "entries lengths tab \<longleftrightarrow> length tab = 512 \<and> (\<forall>e \<in> set tab. e \<noteq> 0 \<longrightarrow> 1 \<le> e mod 16 \<and> e mod 16 \<le> 9 \<and> e mod 16 \<in> set lengths)"

lemma safe_fill_fast:
  assumes "entries lengths tab" and "1 \<le> e mod 16" and "e mod 16 \<le> 9" and "e mod 16 \<in> set lengths"
  shows "safe (fill_fast l e tab fill) (entries lengths)"
  using assms
proof (induction l e tab fill rule: fill_fast.induct)
  case (1 l entry tab fill)
  show ?case
  proof (cases "fill < 2 ^ FAST_BITS")
    case True
    then have lt: "fill < length tab" using 1(2) by (simp add: entries_def FAST_BITS_def)
    have "entries lengths (tab[fill := entry])"
      using 1(2-5) by (auto simp: entries_def dest!: subsetD[OF set_update_subset_insert])
    then have "safe (fill_fast l entry (tab[fill := entry]) (fill + 2 ^ l)) (entries lengths)"
      by (rule 1(1)[OF True store_ok[OF lt] _ 1(3-5)])
    then show ?thesis using True lt by (subst fill_fast.simps) simp
  qed (use 1(2) in \<open>subst fill_fast.simps, simp\<close>)
qed

lemma safe_fast_codes:
  assumes "length sy = 288" and "c = count_list lengths l" and "1 \<le> l" and "l \<le> 9"
    and "entries lengths tab" and "idx + c \<le> 288"
  shows "safe (foldE (fast_code sy l) (tab, code, idx) [0..<c])
    (\<lambda>(tab, _, i). entries lengths tab \<and> i = idx + c)"
proof -
  let ?P = "\<lambda>k (tab :: nat list, _ :: nat, i :: nat). entries lengths tab \<and> i = idx + k"
  have "safe (foldE (fast_code sy l) (tab, code, idx) [0..<c]) (?P (length [0..<c]))"
  proof (rule safe_fold_nth)
    fix k and st :: "nat list \<times> nat \<times> nat"
    assume p: "?P k st" and k: "k < length [0..<c]"
    obtain tab code i where st: "st = (tab, code, i)" by (cases st) force
    have "l \<in> set lengths" using k assms(2) by (metis count_list_0_iff length_upt not_less0 diff_zero)
    then have "safe (fill_fast l (16 * (sy ! i) + l) tab (reverse_code l code)) (entries lengths)"
      using p assms(3,4) by (intro safe_fill_fast) (auto simp: st)
    then show "safe (fast_code sy l st ([0..<c] ! k)) (?P (Suc k))"
      using p k assms(1,6) by (auto simp: st fast_code_def intro!: safe_bind)
  qed (use assms in auto)
  then show ?thesis by (rule safe_mono) auto
qed

lemma safe_fast_table:
  assumes "length sy = 288" and "cnt = map (count_list lengths) [0..<16]" and "length lengths \<le> 288"
  shows "safe (foldE (fast_length cnt sy) (replicate (2 ^ FAST_BITS) 0, 0, 0) [1..<FAST_BITS + 1])
    (\<lambda>(tab, _, _). entries lengths tab)"
proof -
  let ?P = "\<lambda>k (tab :: nat list, _ :: nat, i :: nat). entries lengths tab \<and> i = below lengths (Suc k)"
  have "safe (foldE (fast_length cnt sy) (replicate (2 ^ FAST_BITS) 0, 0, 0) [1..<FAST_BITS + 1])
      (?P (length [1..<FAST_BITS + 1]))"
  proof (rule safe_fold_nth)
    fix k and st :: "nat list \<times> nat \<times> nat"
    assume p: "?P k st" and k: "k < length [1..<FAST_BITS + 1]"
    obtain tab code i where st: "st = (tab, code, i)" by (cases st) force
    have kl: "[1..<FAST_BITS + 1] ! k = Suc k" "Suc k \<le> 9" using k by (simp_all add: FAST_BITS_def del: upt_Suc)
    have le: "i + count_list lengths (Suc k) \<le> 288"
      using p below_le[of "Suc (Suc k)" lengths] kl(2) assms(3) by (auto simp: st below_Suc)
    have e: "entries lengths tab" using p by (simp add: st)
    show "safe (fast_length cnt sy st ([1..<FAST_BITS + 1] ! k)) (?P (Suc k))"
      using safe_fast_codes[OF assms(1) refl _ kl(2) e le, of code] p kl assms(2)
      by (auto simp: st fast_length_def below_Suc simp del: upt_Suc intro!: safe_bind)
  qed (simp add: entries_def FAST_BITS_def below_def)
  then show ?thesis by (rule safe_mono) auto
qed

definition code_ok :: "nat list \<Rightarrow> huffman \<Rightarrow> bool" where
  "code_ok lengths t \<longleftrightarrow> huffman_ok t \<and> (\<forall>e \<in> set (fast t). e \<noteq> 0 \<longrightarrow> e mod 16 \<in> set lengths)"

lemma safe_huffman_new:
  assumes "\<forall>l \<in> set lengths. l < 16" and "length lengths \<le> 288"
  shows "safe (huffman_new lengths) (code_ok lengths)"
proof -
  define cnt where "cnt = map (count_list lengths) [0..<16]"
  define build :: "nat list \<Rightarrow> huffman inflated" where
    "build sy = bindE (foldE (fast_length cnt sy) (replicate (2 ^ FAST_BITS) 0, 0, 0) [1..<FAST_BITS + 1]) (\<lambda>(tab, _, _).
       Inr \<lparr>count = cnt, symbol = sy, fast = tab\<rparr>)" for sy
  have sub: "safe (check_subscription cnt) (\<lambda>_. True)"
    unfolding check_subscription_def by (rule safe_fold) (auto simp: cnt_def MAX_BITS_def Let_def)
  have "drop 1 cnt = map (count_list lengths) [1..<16]" by (simp add: cnt_def drop_map)
  then have "sum_list (drop 1 cnt) = below lengths 16"
    by (simp add: below_def interv_sum_list_conv_sum_set_nat del: upt_rec_numeral)
  then have sum: "length cnt = 16" "sum_list (drop 1 cnt) \<le> 288"
    using below_le[of 16 lengths] assms(2) by (simp_all add: cnt_def)
  have ok: "code_ok lengths \<lparr>count = cnt, symbol = sy, fast = tab\<rparr>" if "entries lengths tab" "length sy = 288" for tab sy
    using that sum by (auto simp: code_ok_def huffman_ok_def entries_def)
  have fin: "safe (build sy) (code_ok lengths)" if "length sy = 288" for sy
    unfolding build_def by (rule safe_bind[OF safe_fast_table[OF that cnt_def assms(2)]]) (auto intro!: ok that)
  have rest: "safe (bindE (symbol_offsets cnt) (\<lambda>offsets.
      bindE (foldE place_symbol (replicate 288 0, offsets) (enumerate 0 lengths)) (\<lambda>(sy, _). build sy))) (code_ok lengths)"
    by (rule safe_bind[OF symbol_offsets_eq[OF cnt_def]], rule safe_bind[OF place_symbols_safe[OF assms]])
       (auto split: prod.split intro!: fin)
  have eq: "huffman_new lengths = (if cnt ! 0 = length lengths then
      Inr \<lparr>count = cnt, symbol = replicate 288 0, fast = replicate (2 ^ FAST_BITS) 0\<rparr>
      else bindE (check_subscription cnt) (\<lambda>_. bindE (symbol_offsets cnt) (\<lambda>offsets.
        bindE (foldE place_symbol (replicate 288 0, offsets) (enumerate 0 lengths)) (\<lambda>(sy, _). build sy))))"
    using sum(1) by (simp add: huffman_new_def count_lengths_eq[OF assms(1)] build_def flip: cnt_def)
  show ?thesis
    unfolding eq using ok[of "replicate 512 0" "replicate 288 0"]
    by (auto intro!: safe_bind[OF sub] rest simp: FAST_BITS_def entries_def)
qed

section \<open>Blocks\<close>

definition left :: "bits \<Rightarrow> nat" where
  "left b = length (stream b)"

lemma reads_left:
  assumes "reads b n b'"
  shows "bits_ok b'" and "left b - n \<le> left b'" and "left b' \<le> left b" and "0 < left b \<Longrightarrow> left b' < left b"
  using assms by (auto simp: reads_def left_def)

lemma huffman_ok_entry: "huffman_ok t \<Longrightarrow> e \<in> set (fast t) \<Longrightarrow> e mod 16 \<le> 9"
  by (cases "e = 0") (auto simp: huffman_ok_def)

lemma safe_decode_symbol:
  assumes "bits_ok b" and "huffman_ok t" and "9 \<le> left b"
  shows "safe (bits_decode t b) (\<lambda>(s, b'). bits_ok b' \<and> left b - 15 \<le> left b' \<and> left b' < left b)"
proof -
  have "e mod 16 \<le> left b" if "e \<in> set (fast t)" for e
    using huffman_ok_entry[OF assms(2) that] assms(3) by simp
  then have "safe (bits_decode t b) (\<lambda>(s, b'). reads b 15 b')"
    using assms(1,2) by (intro safe_decode) (auto simp: left_def)
  then show ?thesis
    using assms(3) by (elim safe_mono) (auto dest: reads_left)
qed

lemma bits_take_left:
  assumes "bits_ok b" and "n \<le> 57"
  obtains v b' where "bits_take n b = (v, b')" "v < 2 ^ n" "bits_ok b'" "left b' = left b - n"
proof -
  obtain b' where "bits_take n b = (bits_val (take n (stream b)), b')" "bits_ok b'" "stream b' = drop n (stream b)"
    using bits_take_ok[OF assms] by blast
  then show thesis using that bits_val_le[of "take n (stream b)" n] by (simp add: left_def)
qed

lemma safe_copy_back:
  assumes "back \<le> written" and "written + len \<le> length out"
  shows "safe (copy_back out written back len) (\<lambda>out'. length out' = length out)"
proof (cases "len \<le> back")
  case True
  then have "safe (slice out (written - back) (written - back + len)) (\<lambda>ys. length ys = len)"
    using assms by (intro safe_mono[OF safe_slice]) auto
  then show ?thesis
    using True assms by (auto simp: copy_back_def intro!: safe_bind safe_mono[OF safe_copy])
next
  case False
  have "safe (foldE (\<lambda>out k. bindE (index out (written - back + k)) (store out (written + k))) out [0..<len])
      (\<lambda>out'. length out' = length out)"
    by (rule safe_fold) (use assms in auto)
  then show ?thesis using False by (simp add: copy_back_def)
qed

lemma block_tables: "sy < 29 \<Longrightarrow> LENGTH_EXTRA ! sy \<le> 5" "dsym < 30 \<Longrightarrow> DISTANCE_EXTRA ! dsym \<le> 13"
    "length LENGTH_BASE = 29" "length LENGTH_EXTRA = 29" "length DISTANCE_BASE = 30" "length DISTANCE_EXTRA = 30"
proof -
  show len: "length LENGTH_BASE = 29" "length LENGTH_EXTRA = 29" "length DISTANCE_BASE = 30" "length DISTANCE_EXTRA = 30"
    by (simp_all add: LENGTH_BASE_def LENGTH_EXTRA_def DISTANCE_BASE_def DISTANCE_EXTRA_def)
  have "\<forall>x \<in> set LENGTH_EXTRA. x \<le> 5" "\<forall>x \<in> set DISTANCE_EXTRA. x \<le> 13"
    by (simp_all add: LENGTH_EXTRA_def DISTANCE_EXTRA_def)
  then show "sy < 29 \<Longrightarrow> LENGTH_EXTRA ! sy \<le> 5" "dsym < 30 \<Longrightarrow> DISTANCE_EXTRA ! dsym \<le> 13"
    using len by (metis nth_mem)+
qed

text \<open>The state of the loop between two symbols: enough is left for the longest symbol, and the
  buffer keeps its size.\<close>

definition block_ok :: "nat \<Rightarrow> bits \<times> bytes \<times> nat \<Rightarrow> bool" where
  "block_ok n = (\<lambda>(b, out, written). bits_ok b \<and> length out = n \<and> written \<le> n)"

lemma safe_block_next:
  assumes "bits_ok b" and "length out = n" and "written \<le> n" and "left b < m"
  shows "safe (block_next b out written) (\<lambda>r. case r of Inl s \<Rightarrow> block_ok n s \<and> 61 \<le> left (fst s) \<and> left (fst s) < m | Inr s \<Rightarrow> P s)"
  using assms by (auto simp: block_next_def block_ok_def overrun_iff left_def)

lemma safe_block_match:
  assumes "bits_ok b" and "9 \<le> left b" and "left b < m" and "huffman_ok dist" and "length out = n" and "written \<le> n"
  shows "safe (block_match dist out written len b)
    (\<lambda>r. case r of Inl s \<Rightarrow> block_ok n s \<and> 61 \<le> left (fst s) \<and> left (fst s) < m | Inr s \<Rightarrow> P s)"
  unfolding block_match_def
proof (rule safe_bind[OF safe_decode_symbol[OF assms(1,4,2)]], clarify)
  fix dsy b1 assume b1: "bits_ok b1" "left b1 < left b"
  show "safe (if 30 \<le> dsy then Inl (Err Corrupt)
      else bindE (index DISTANCE_BASE dsy) (\<lambda>dbase. bindE (index DISTANCE_EXTRA dsy) (\<lambda>dextra.
        let (v, b) = bits_take dextra b1; back = dbase + v in
        if written < back then Inl (Err Corrupt)
        else if length out < written + len then Inl (Err Overflow)
        else bindE (copy_back out written back len) (\<lambda>out. block_next b out (written + len)))))
      (\<lambda>r. case r of Inl s \<Rightarrow> block_ok n s \<and> 61 \<le> left (fst s) \<and> left (fst s) < m | Inr s \<Rightarrow> P s)"
  proof (cases "30 \<le> dsy")
    case False
    then have "DISTANCE_EXTRA ! dsy \<le> 57" using block_tables(2)[of dsy] by simp
    from bits_take_left[OF b1(1) this] obtain v b2 where
      b2: "bits_take (DISTANCE_EXTRA ! dsy) b1 = (v, b2)" "bits_ok b2" "left b2 \<le> left b1" by (metis diff_le_self)
    then have m: "left b2 < m" using b1(2) assms(3) by simp
    show ?thesis
      using False b2(1) assms(5,6)
      by (auto simp: block_tables Let_def intro!: safe_bind[OF safe_copy_back] safe_block_next[OF b2(2) _ _ m])
  qed simp
qed

lemma safe_block_step:
  assumes "block_ok n s \<and> 61 \<le> left (fst s)" and "huffman_ok literal" and "huffman_ok dist"
  shows "safe (block_step literal dist s) (\<lambda>r. case r of
      Inl s' \<Rightarrow> block_ok n s' \<and> 61 \<le> left (fst s') \<and> left (fst s') < left (fst s)
    | Inr s' \<Rightarrow> block_ok n s' \<and> left (fst s') \<le> left (fst s))" (is "safe _ ?Q")
proof -
  obtain b out written where s: "s = (b, out, written)" by (cases s) auto
  have b: "bits_ok b" "length out = n" "written \<le> n" "61 \<le> left b" using assms(1) by (auto simp: s block_ok_def)
  have "safe (bits_decode literal b) (\<lambda>(s, b'). bits_ok b' \<and> left b - 15 \<le> left b' \<and> left b' < left b)"
    using b by (intro safe_decode_symbol assms(2)) auto
  then show ?thesis
    unfolding s block_step_def prod.case
  proof (rule safe_bind, clarify)
    fix sy b1 assume b1: "bits_ok b1" "left b - 15 \<le> left b1" "left b1 < left b"
    show "safe
        (if sy < 256 then (if written = length out then Inl (Err Overflow)
            else bindE (store out written (of_nat sy)) (\<lambda>out. block_next b1 out (written + 1)))
         else if sy = 256 then Inr (Inr (b1, out, written))
         else let sy = sy - 257 in if 29 \<le> sy then Inl (Err Corrupt)
           else bindE (index LENGTH_BASE sy) (\<lambda>base. bindE (index LENGTH_EXTRA sy) (\<lambda>extra.
             let (v, b) = bits_take extra b1 in block_match dist out written (base + v) b)))
        (\<lambda>r. case r of Inl s' \<Rightarrow> block_ok n s' \<and> 61 \<le> left (fst s') \<and> left (fst s') < left (fst (b, out, written))
          | Inr s' \<Rightarrow> block_ok n s' \<and> left (fst s') \<le> left (fst (b, out, written)))"
    proof (cases "257 \<le> sy \<and> sy - 257 < 29")
      case True
      then have "LENGTH_EXTRA ! (sy - 257) \<le> 57" and e: "LENGTH_EXTRA ! (sy - 257) \<le> 5" using block_tables(1)[of "sy - 257"] by auto
      from bits_take_left[OF b1(1) this(1)] obtain v b2 where
        b2: "bits_take (LENGTH_EXTRA ! (sy - 257)) b1 = (v, b2)" "bits_ok b2" "left b2 = left b1 - LENGTH_EXTRA ! (sy - 257)" by metis
      have l2: "9 \<le> left b2" "left b2 < left b" using b2(3) b1(2,3) b(4) e by auto
      show ?thesis
        using True b2(1) by (simp add: block_tables) (unfold fst_conv, rule safe_block_match[OF b2(2) l2 assms(3) b(2,3)])
    next
      case False
      have "block_ok n (b1, out, written)" using b b1 by (simp add: block_ok_def)
      then show ?thesis
        using False b b1 by (auto simp: Let_def intro!: safe_block_next)
    qed
  qed
qed

lemma safe_inflate_block:
  assumes "block_ok n (b, out, written)" and "61 \<le> left b" and "huffman_ok literal" and "huffman_ok dist"
  shows "safe (inflate_block b literal dist out written) (\<lambda>s. block_ok n s \<and> left (fst s) \<le> left b)"
  unfolding inflate_block_def
  by (rule safe_loop[where I = "\<lambda>s. (block_ok n s \<and> 61 \<le> left (fst s)) \<and> left (fst s) \<le> left b" and m = "\<lambda>s. left (fst s)"])
     (use assms in simp, rule safe_mono[OF safe_block_step[OF _ assms(3,4)]], auto split: sum.split_asm)

section \<open>Dynamic tables\<close>

text \<open>If a code length is not zero, a bit of the input was one, so all but 57 of the 64 bits behind
  the end are still there after the lengths.\<close>

lemma stream_nonzero:
  assumes "bits_ok b" and "bits_val (take n (drop k (stream b))) \<noteq> 0"
  shows "64 < left b"
proof -
  obtain i where i: "i < length (take n (drop k (stream b)))" "take n (drop k (stream b)) ! i"
    using assms(2) by (auto simp: bits_val_0_iff in_set_conv_nth)
  then have "k + i < length (stream b)" "stream b ! (k + i)" by auto
  then show ?thesis
    using stream_tail[OF assms(1), of "k + i"] by (simp add: left_def)
qed

lemma safe_code_lengths:
  assumes "bits_ok b" and "\<forall>k \<in> set order. k < 320"
  shows "safe (foldE code_length_step (b, replicate 320 0) order) (\<lambda>(b', lengths). bits_ok b' \<and>
    left b' = left b - 3 * length order \<and> length lengths = 320 \<and> (\<forall>l \<in> set lengths. l < 8 \<and> (l \<noteq> 0 \<longrightarrow> 64 < left b)))"
proof -
  let ?P = "\<lambda>k (b', lengths). bits_ok b' \<and> stream b' = drop (3 * k) (stream b) \<and> length lengths = 320 \<and>
    (\<forall>l \<in> set lengths. l < 8 \<and> (l \<noteq> 0 \<longrightarrow> 64 < left b))"
  have "safe (foldE code_length_step (b, replicate 320 0) order) (?P (length order))"
  proof (rule safe_fold_nth)
    fix k and st :: "bits \<times> nat list"
    assume p: "?P k st" and k: "k < length order"
    obtain c lengths where st: "st = (c, lengths)" by force
    have c: "bits_ok c" using p by (simp add: st)
    obtain c' where c': "bits_take 3 c = (bits_val (take 3 (stream c)), c')" "bits_ok c'" "stream c' = drop 3 (stream c)"
      using bits_take_ok[OF c, of 3] by auto
    have "bits_val (take 3 (stream c)) < 8" using bits_val_le[of "take 3 (stream c)" 3] by simp
    moreover have "bits_val (take 3 (stream c)) \<noteq> 0 \<longrightarrow> 64 < left b"
      using stream_nonzero[OF assms(1), of 3 "3 * k"] p by (simp add: st)
    ultimately show "safe (code_length_step st (order ! k)) (?P (Suc k))"
      using p c' k assms(2) by (auto simp: st code_length_step_def add.commute dest!: subsetD[OF set_update_subset_insert])
  qed (use assms in auto)
  then show ?thesis by (rule safe_mono) (auto simp: left_def)
qed

definition lengths_ok :: "huffman \<Rightarrow> nat \<Rightarrow> nat \<Rightarrow> bits \<times> nat list \<times> nat \<Rightarrow> bool" where
  "lengths_ok t n m = (\<lambda>(b, lengths, idx). bits_ok b \<and> length lengths = 320 \<and> (\<forall>l \<in> set lengths. l < 16) \<and>
     idx \<le> n \<and> left b \<le> m \<and> (\<forall>e \<in> set (fast t). e mod 16 \<le> left b) \<and> (0 < idx \<longrightarrow> 64 \<le> left b))"

lemma safe_fill_lengths:
  assumes "length lengths = 320" and "\<forall>l \<in> set lengths. l < 16" and "v < 16" and "idx + rep \<le> 320"
  shows "safe (foldE (\<lambda>lengths k. store lengths (idx + k) v) lengths [0..<rep])
    (\<lambda>lengths. length lengths = 320 \<and> (\<forall>l \<in> set lengths. l < 16))"
  by (rule safe_fold) (use assms in \<open>auto dest!: subsetD[OF set_update_subset_insert]\<close>)

lemma lengths_next:
  assumes "bits_ok b" and "length lengths = 320" and "\<forall>l \<in> set lengths. l < 16" and "idx' \<le> n" and "left b \<le> m"
    and "huffman_ok t" and "idx < idx'"
  shows "safe (if overrun b then Inl (Err Corrupt) else Inr (Inl (b, lengths, idx')))
    (\<lambda>r. case r of Inl s \<Rightarrow> lengths_ok t n m s \<and> n - snd (snd s) < n - idx | Inr s \<Rightarrow> P s)"
proof (cases "overrun b")
  case False
  then have "64 \<le> left b" using overrun_iff[OF assms(1)] by (simp add: left_def)
  moreover from this have "\<forall>e \<in> set (fast t). e mod 16 \<le> left b"
    using huffman_ok_entry[OF assms(6)] by fastforce
  ultimately show ?thesis using False assms by (auto simp: lengths_ok_def)
qed simp


lemma safe_repeat_code:
  assumes "bits_ok b" and "idx \<le> length lengths" and "\<forall>l \<in> set lengths. l < 16"
  shows "safe (repeat_code lengths idx sy b) (\<lambda>(v, rep, b'). v < 16 \<and> 0 < rep \<and> bits_ok b' \<and> left b' \<le> left b)"
proof -
  have "\<exists>v b'. bits_take n b = (v, b') \<and> bits_ok b' \<and> left b' \<le> left b" if "n \<le> 57" for n
    using bits_take_left[OF assms(1) that] by (metis diff_le_self)
  from this[of 2] this[of 3] this[of 7] show ?thesis
    using assms(2,3) by (auto simp: repeat_code_def)
qed

lemma safe_put_lengths:
  assumes "bits_ok b" and "length lengths = 320" and "\<forall>l \<in> set lengths. l < 16" and "idx < n" and "n \<le> 320"
  shows "safe (put_lengths n lengths idx sy b) (\<lambda>(b', lengths, idx'). bits_ok b' \<and> left b' \<le> left b \<and>
    length lengths = 320 \<and> (\<forall>l \<in> set lengths. l < 16) \<and> idx < idx' \<and> idx' \<le> n)"
proof (cases "sy < 16")
  case True
  then show ?thesis
    using assms by (auto simp: put_lengths_def dest!: subsetD[OF set_update_subset_insert])
next
  case False
  have rep: "safe (if n < idx + rep then Inl (Err Corrupt)
      else bindE (foldE (\<lambda>lengths k. store lengths (idx + k) v) lengths [0..<rep]) (\<lambda>lengths. Inr (c, lengths, idx + rep)))
      (\<lambda>(b', lengths, idx'). bits_ok b' \<and> left b' \<le> left b \<and>
    length lengths = 320 \<and> (\<forall>l \<in> set lengths. l < 16) \<and> idx < idx' \<and> idx' \<le> n)"
    if "bits_ok c" "left c \<le> left b" "v < 16" "0 < rep" for c v rep
    using that assms(2,3,5) by (auto intro!: safe_bind[OF safe_fill_lengths])
  have "safe (repeat_code lengths idx sy b) (\<lambda>(v, rep, b'). v < 16 \<and> 0 < rep \<and> bits_ok b' \<and> left b' \<le> left b)"
    using assms by (intro safe_repeat_code) auto
  then show ?thesis
    unfolding put_lengths_def if_not_P[OF False] by (rule safe_bind, clarify) (rule rep)
qed

lemma safe_lengths_step:
  assumes "lengths_ok t n m s" and "huffman_ok t" and "n \<le> 320"
  shows "safe (lengths_step t n s) (\<lambda>r. case r of
      Inl s' \<Rightarrow> lengths_ok t n m s' \<and> n - snd (snd s') < n - snd (snd s)
    | Inr (b, lengths) \<Rightarrow> lengths_ok t n m (b, lengths, n))"
proof -
  obtain b lengths idx where s: "s = (b, lengths, idx)" by (cases s) auto
  have b: "bits_ok b" "length lengths = 320" "\<forall>l \<in> set lengths. l < 16" "idx \<le> n" "left b \<le> m"
    "\<forall>e \<in> set (fast t). e mod 16 \<le> length (stream b)"
    using assms(1) by (auto simp: s lengths_ok_def left_def)
  show ?thesis
  proof (cases "idx < n")
    case True
    have dec: "safe (bits_decode t b) (\<lambda>(sy, c). bits_ok c \<and> left c \<le> m)"
      by (rule safe_mono[OF safe_decode[OF b(1) assms(2) b(6)]]) (use b(5) in \<open>auto dest: reads_left(1,3)\<close>)
    have put: "safe (bindE (put_lengths n lengths idx sy c) (\<lambda>(b, lengths, idx).
        if overrun b then Inl (Err Corrupt) else Inr (Inl (b, lengths, idx))))
        (\<lambda>r. case r of Inl s' \<Rightarrow> lengths_ok t n m s' \<and> n - snd (snd s') < n - idx
          | Inr (b, lengths) \<Rightarrow> lengths_ok t n m (b, lengths, n))" if "bits_ok c" "left c \<le> m" for sy c
      by (rule safe_bind[OF safe_put_lengths[OF that(1) b(2,3) True assms(3)]], clarify, rule lengths_next)
         (use that(2) assms(2) in auto)
    show ?thesis
      unfolding lengths_step_def s prod.case if_P[OF True] snd_conv
      by (rule safe_bind[OF dec], clarify, rule put)
  next
    case False
    then show ?thesis using assms(1) b(4) by (simp add: s lengths_step_def)
  qed
qed


lemma safe_two_codes:
  assumes "length lengths = 320" and "\<forall>l \<in> set lengths. l < 16" and "257 \<le> lc" and "lc \<le> 286" and "dc \<le> 30"
  shows "safe (two_codes lc dc (b, lengths)) (\<lambda>(literal, dist, b'). huffman_ok literal \<and> huffman_ok dist \<and> b' = b)"
proof -
  have new: "safe (huffman_new (py_slice lengths i j)) huffman_ok" if "i \<le> j" "j \<le> 320" "j - i \<le> 288" for i j
    using that assms(1,2)
    by (intro safe_mono[OF safe_huffman_new])
       (auto simp: length_py_slice code_ok_def py_slice_def dest!: in_set_takeD in_set_dropD)
  show ?thesis
    unfolding two_codes_def prod.case
    using assms by (auto simp: slice_def intro!: safe_bind[OF new])
qed

lemma safe_lengths_loop:
  assumes "lengths_ok t n m (b, lengths, 0)" and "huffman_ok t" and "0 < n" and "n \<le> 320"
  shows "safe (loopE (lengths_step t n) (b, lengths, 0)) (\<lambda>(b, lengths). bits_ok b \<and> length lengths = 320 \<and>
    (\<forall>l \<in> set lengths. l < 16) \<and> 64 \<le> left b \<and> left b \<le> m)"
proof -
  have "safe (loopE (lengths_step t n) (b, lengths, 0)) (\<lambda>(b, lengths). lengths_ok t n m (b, lengths, n))"
    by (rule safe_loop[where I = "lengths_ok t n m" and m = "\<lambda>s. n - snd (snd s)", OF assms(1)])
       (rule safe_mono[OF safe_lengths_step[OF _ assms(2,4)]], auto split: sum.split)
  then show ?thesis
    by (rule safe_mono) (use assms(3) in \<open>auto simp: lengths_ok_def\<close>)
qed

lemma code_lengths_start:
  assumes "code_ok first19 t" and "bits_ok b" and "\<forall>l \<in> set first19. l < 8 \<and> (l \<noteq> 0 \<longrightarrow> 8 \<le> left b)"
  shows "lengths_ok t n (left b) (b, replicate 320 0, 0)"
proof -
  have "e mod 16 \<le> left b" if e: "e \<in> set (fast t)" for e
  proof (cases "e = 0")
    case False
    then have "e mod 16 \<in> set first19" "1 \<le> e mod 16" using assms(1) e by (auto simp: code_ok_def huffman_ok_def)
    then show ?thesis using assms(3) by fastforce
  qed simp
  then show ?thesis using assms(2) by (simp add: lengths_ok_def)
qed

lemma safe_read_dynamic_tables:
  assumes "bits_ok b"
  shows "safe (read_dynamic_tables b) (\<lambda>(literal, dist, b'). huffman_ok literal \<and> huffman_ok dist \<and> bits_ok b' \<and>
    64 \<le> left b' \<and> left b' \<le> left b)"
proof -
  obtain lc b1 where b1: "bits_take 5 b = (lc, b1)" "bits_ok b1" "left b1 = left b - 5"
    by (rule bits_take_left[OF assms, of 5]) auto
  obtain dc b2 where b2: "bits_take 5 b1 = (dc, b2)" "bits_ok b2" "left b2 = left b1 - 5"
    by (rule bits_take_left[OF b1(2), of 5]) auto
  obtain cc b3 where b3: "bits_take 4 b2 = (cc, b3)" "bits_ok b3" "left b3 = left b2 - 4"
    by (rule bits_take_left[OF b2(2), of 4]) auto
  let ?Q = "\<lambda>(literal, dist, b'). huffman_ok literal \<and> huffman_ok dist \<and> bits_ok b' \<and> 64 \<le> left b' \<and> left b' \<le> left b"
  define order where "order = take (cc + 4) CODE_LENGTH_ORDER"
  have order: "\<forall>k \<in> set order. k < 320" "length order \<le> 19"
    by (auto simp: order_def CODE_LENGTH_ORDER_def dest!: in_set_takeD)
  have codes: "safe (bindE (slice lengths 0 19) (\<lambda>first19. bindE (huffman_new first19) (\<lambda>code_lengths.
      bindE (loopE (lengths_step code_lengths (lc + 257 + (dc + 1))) (c, replicate 320 0, 0)) (two_codes (lc + 257) (dc + 1))))) ?Q"
    if c: "bits_ok c" "left c = left b3 - 3 * length order" "length lengths = 320"
      "\<forall>l \<in> set lengths. l < 8 \<and> (l \<noteq> 0 \<longrightarrow> 64 < left b3)" "lc + 257 \<le> 286" "dc + 1 \<le> 30" for c lengths
  proof -
    define first19 where "first19 = py_slice lengths 0 19"
    have small: "\<forall>l \<in> set first19. l < 8 \<and> (l \<noteq> 0 \<longrightarrow> 8 \<le> left c)" "length first19 \<le> 288" "\<forall>l \<in> set first19. l < 16"
      using c(2-4) order(2) by (force simp: first19_def py_slice_def dest!: in_set_takeD)+
    have "safe (bindE (loopE (lengths_step t (lc + 257 + (dc + 1))) (c, replicate 320 0, 0)) (two_codes (lc + 257) (dc + 1))) ?Q"
      if t: "code_ok first19 t" for t
      using t c(5,6) code_lengths_start[OF t c(1) small(1)] c(2) b1(3) b2(3) b3(3)
      by (intro safe_bind[OF safe_lengths_loop[of t _ "left c"]])
         (auto simp: code_ok_def intro!: safe_mono[OF safe_two_codes])
    then have "safe (bindE (huffman_new first19) (\<lambda>code_lengths.
        bindE (loopE (lengths_step code_lengths (lc + 257 + (dc + 1))) (c, replicate 320 0, 0)) (two_codes (lc + 257) (dc + 1)))) ?Q"
      by (rule safe_bind[OF safe_huffman_new[OF small(3,2)]])
    then show ?thesis
      using c(3) by (simp add: slice_def first19_def)
  qed
  show ?thesis
    unfolding read_dynamic_tables_def b1(1) b2(1) b3(1) Let_def prod.case order_def[symmetric]
  proof (cases "286 < lc + 257 \<or> 30 < dc + 1")
    case False
    show "safe (if 286 < lc + 257 \<or> 30 < dc + 1 then Inl (Err Corrupt)
        else bindE (foldE code_length_step (b3, replicate 320 0) order) (\<lambda>(b, lengths).
          bindE (slice lengths 0 19) (\<lambda>first19. bindE (huffman_new first19) (\<lambda>code_lengths.
          bindE (loopE (lengths_step code_lengths (lc + 257 + (dc + 1))) (b, replicate 320 0, 0)) (two_codes (lc + 257) (dc + 1)))))) ?Q"
      unfolding if_not_P[OF False]
      by (rule safe_bind[OF safe_code_lengths[OF b3(2) order(1)]], clarify, rule codes) (use False in auto)
  qed simp
qed

section \<open>The whole stream\<close>

lemma safe_stored_block:
  assumes "block_ok n (b, out, written)"
  shows "safe (stored_block b out written) (\<lambda>s. block_ok n s \<and> left (fst s) \<le> left b)"
proof -
  have b: "bits_ok b" "length out = n" "written \<le> n" using assms by (auto simp: block_ok_def)
  define b0 where "b0 = align_to_byte b"
  have b0: "bits_ok b0" "left b0 \<le> left b" using align_ok[OF b(1)] by (auto simp: b0_def left_def)
  obtain len b1 where b1: "bits_take 16 b0 = (len, b1)" "bits_ok b1" "left b1 = left b0 - 16"
    by (rule bits_take_left[OF b0(1), of 16]) auto
  obtain inverse b2 where b2: "bits_take 16 b1 = (inverse, b2)" "bits_ok b2" "left b2 = left b1 - 16"
    by (rule bits_take_left[OF b1(2), of 16]) auto
  let ?P = "\<lambda>k (b', out, w). bits_ok b' \<and> left b' \<le> left b \<and> length out = n \<and> w = written + k"
  have loop: "safe (foldE stored_step (b2, out, written) [0..<len]) (\<lambda>s. block_ok n s \<and> left (fst s) \<le> left b)"
    if "written + len \<le> n"
  proof -
    have "safe (foldE stored_step (b2, out, written) [0..<len]) (?P (length [0..<len]))"
    proof (rule safe_fold_nth)
      fix k and s :: "bits \<times> bytes \<times> nat"
      assume p: "?P k s" and k: "k < length [0..<len]"
      obtain c o' w where s: "s = (c, o', w)" by (cases s) auto
      have "bits_ok c" using p by (simp add: s)
      then obtain v c' where "bits_take 8 c = (v, c')" "bits_ok c'" "left c' = left c - 8"
        by (rule bits_take_left[of c 8]) auto
      then show "safe (stored_step s ([0..<len] ! k)) (?P (Suc k))"
        using p k that by (auto simp: s stored_step_def)
    qed (use b(2,3) b2 b1(3) b0(2) in auto)
    then show ?thesis by (rule safe_mono) (use that in \<open>auto simp: block_ok_def\<close>)
  qed
  show ?thesis
    unfolding stored_block_def b0_def[symmetric] b1(1) b2(1) Let_def prod.case
    using loop b(2) by auto
qed

lemma safe_inflate_step:
  assumes "block_ok n s \<and> 64 \<le> left (fst s)"
  shows "safe (inflate_step s) (\<lambda>r. case r of
      Inl s' \<Rightarrow> (block_ok n s' \<and> 64 \<le> left (fst s')) \<and> left (fst s') < left (fst s)
    | Inr (out, written) \<Rightarrow> length out = n \<and> written \<le> n)"
proof -
  obtain b out written where s: "s = (b, out, written)" by (cases s) auto
  have b: "bits_ok b" "length out = n" "written \<le> n" "64 \<le> left b" using assms by (auto simp: s block_ok_def)
  obtain final b1 where b1: "bits_take 1 b = (final, b1)" "bits_ok b1" "left b1 = left b - 1"
    by (rule bits_take_left[OF b(1), of 1]) auto
  obtain kind b2 where b2: "bits_take 2 b1 = (kind, b2)" "bits_ok b2" "left b2 = left b1 - 2"
    by (rule bits_take_left[OF b1(2), of 2]) auto
  have ok2: "block_ok n (b2, out, written)" "61 \<le> left b2" "left b2 < left b"
    using b b2 b1(3) by (auto simp: block_ok_def)
  let ?R = "\<lambda>s. block_ok n s \<and> left (fst s) < left b"
  have fixed: "safe (huffman_new fixed_lengths) huffman_ok" "safe (huffman_new (replicate 30 5)) huffman_ok"
    by (rule safe_mono[OF safe_huffman_new], auto simp: fixed_lengths_def code_ok_def)+
  have block: "safe (inflate_block c l d out written) ?R"
    if "bits_ok c" "61 \<le> left c" "left c \<le> left b2" "huffman_ok l" "huffman_ok d" for c l d
    using that b ok2(3) by (intro safe_mono[OF safe_inflate_block]) (auto simp: block_ok_def)
  have body: "safe (if kind = 0 then stored_block b2 out written
       else if kind = 1 then
         bindE (huffman_new fixed_lengths) (\<lambda>literal. bindE (huffman_new (replicate 30 5)) (\<lambda>dist.
           inflate_block b2 literal dist out written))
       else if kind = 2 then
         bindE (read_dynamic_tables b2) (\<lambda>(literal, dist, b). inflate_block b literal dist out written)
       else Inl (Err Corrupt)) ?R"
    using safe_stored_block[OF ok2(1)] ok2 b2(2)
    by (auto intro!: safe_bind[OF fixed(1)] safe_bind[OF fixed(2)] block safe_bind[OF safe_read_dynamic_tables[OF b2(2)]]
        elim!: safe_mono)
  show ?thesis
    unfolding s inflate_step_def prod.case b1(1) b2(1) Let_def
    by (rule safe_bind[OF body]) (auto simp: block_ok_def overrun_iff left_def)
qed

lemma safe_inflate: "safe (inflate data out) (\<lambda>(out', written). length out' = length out \<and> written \<le> length out)"
  unfolding inflate_def
  by (rule safe_loop[where I = "\<lambda>s. block_ok (length out) s \<and> 64 \<le> left (fst s)" and m = "\<lambda>s. left (fst s)"])
     (simp add: block_ok_def bits_new_ok left_def, rule safe_mono[OF safe_inflate_step], auto)

lemma safe_zlib_decompress:
  "safe (zlib_decompress data out) (\<lambda>(out', written). length out' = length out \<and> written \<le> length out)"
proof (cases "length data < 6")
  case False
  then have "0 < length data" "1 < length data" "2 \<le> length data" by auto
  then show ?thesis
    using False safe_inflate[of "py_slice data 2 (length data)" out] by (simp add: zlib_decompress_def slice_def)
qed (simp add: zlib_decompress_def)

end
