(* ===== verification/PngKernel.thy ===== *)
theory PngKernel
  imports Inflate
begin

text \<open>
  The PNG decoder of the kernel, \<^verbatim>\<open>kernel/src/png.rs\<close>: the two walks over the chunks, the scanline
  filters, interlacing and the conversion to RGBA.  Every index and every slice of the source
  is checked, and a failed check is the value \<open>Panic\<close>, which is distinct from the errors the
  decoder returns.  Whether there is memory for each of the four buffers is an argument.  \<^verbatim>\<open>usize\<close> has 64 bits, and lengths of slices, 32-bit chunk lengths and
  picture sizes are far from its end, so its arithmetic is that of the naturals.
\<close>

section \<open>Header and geometry\<close>

datatype image_error = Unsupported | Corrupt | TooLarge | OutOfMemory

type_synonym 'a png = "image_error fail + 'a"

record png_header =
  width :: nat
  height :: nat
  depth :: nat
  color :: nat
  interlaced :: bool

definition MAX_EDGE :: nat where
  "MAX_EDGE = 16384"

definition MAX_PIXELS :: nat where
  "MAX_PIXELS = 64 * 1024 * 1024"

definition SIGNATURE :: bytes where
  "SIGNATURE = [0x89, 0x50, 0x4E, 0x47, 0x0D, 0x0A, 0x1A, 0x0A]"

definition channels :: "png_header \<Rightarrow> nat" where
  "channels h = (if color h = 0 \<or> color h = 3 then 1 else if color h = 2 then 3 else if color h = 4 then 2 else 4)"

definition bits_per_pixel :: "png_header \<Rightarrow> nat" where
  "bits_per_pixel h = channels h * depth h"

definition ADAM7 :: "(nat \<times> nat \<times> nat \<times> nat) list" where
  "ADAM7 = [(0, 0, 8, 8), (4, 0, 8, 8), (0, 4, 4, 8), (2, 0, 4, 4), (0, 2, 2, 4), (1, 0, 2, 2), (0, 1, 1, 2)]"

definition pass_size :: "png_header \<Rightarrow> nat \<Rightarrow> (nat \<times> nat) png" where
  "pass_size h pass =
     (if \<not> interlaced h then Inr (width h, height h)
      else bindE (index ADAM7 pass) (\<lambda>(x0, y0, dx, dy).
        Inr (div_ceil (width h - x0) dx, div_ceil (height h - y0) dy)))"

definition png_passes :: "png_header \<Rightarrow> nat" where
  "png_passes h = (if interlaced h then 7 else 1)"

definition raw_size :: "png_header \<Rightarrow> nat png" where
  "raw_size h = foldE (\<lambda>total pass. bindE (pass_size h pass) (\<lambda>(w, ht).
     Inr (if 0 < w \<and> 0 < ht then total + div_ceil (w * bits_per_pixel h) 8 * ht + ht else total))) 0 [0..<png_passes h]"

section \<open>Filters\<close>

definition paeth :: "byte \<Rightarrow> byte \<Rightarrow> byte \<Rightarrow> byte" where
  "paeth a b c =
     (let a16 = uint a; b16 = uint b; c16 = uint c; estimate = a16 + b16 - c16;
          pa = \<bar>estimate - a16\<bar>; pb = \<bar>estimate - b16\<bar>; pc = \<bar>estimate - c16\<bar> in
      if pa \<le> pb \<and> pa \<le> pc then a else if pb \<le> pc then b else c)"

definition left_of :: "bytes \<Rightarrow> nat \<Rightarrow> nat \<Rightarrow> byte png" where
  "left_of line bpp i = (if bpp \<le> i then index line (i - bpp) else Inr 0)"

definition unfilter_step :: "nat \<Rightarrow> bytes \<Rightarrow> nat \<Rightarrow> bytes \<Rightarrow> nat \<Rightarrow> bytes png" where
  "unfilter_step flt previous bpp line i =
     bindE (index line i) (\<lambda>v.
       if flt = 1 then bindE (index line (i - bpp)) (\<lambda>left. store line i (v + left))
       else if flt = 2 then bindE (index previous i) (\<lambda>up. store line i (v + up))
       else if flt = 3 then bindE (left_of line bpp i) (\<lambda>left. bindE (index previous i) (\<lambda>up.
         store line i (v + of_nat ((unat left + unat up) div 2))))
       else bindE (left_of line bpp i) (\<lambda>left. bindE (left_of previous bpp i) (\<lambda>up_left.
         bindE (index previous i) (\<lambda>up. store line i (v + paeth left up up_left)))))"

definition unfilter :: "nat \<Rightarrow> bytes \<Rightarrow> bytes \<Rightarrow> nat \<Rightarrow> bytes png" where
  "unfilter flt line previous bpp =
     (if flt = 0 then Inr line
      else if flt = 1 then foldE (unfilter_step 1 previous bpp) line [bpp..<length line]
      else if flt = 2 \<or> flt = 3 \<or> flt = 4 then
        foldE (unfilter_step flt previous bpp) line [0..<length line]
      else Inl (Err image_error.Corrupt))"

section \<open>Chunks\<close>

record png_state =
  header :: "png_header option"
  palette :: "bytes list"
  palette_len :: nat
  transparent :: "nat list option"
  idat_total :: nat

definition valid_type :: "nat \<Rightarrow> nat \<Rightarrow> bool" where
  "valid_type col dep \<longleftrightarrow>
     col = 0 \<and> dep \<in> {1, 2, 4, 8, 16} \<or> col = 2 \<and> dep \<in> {8, 16} \<or> col = 3 \<and> dep \<in> {1, 2, 4, 8} \<or>
     col = 4 \<and> dep \<in> {8, 16} \<or> col = 6 \<and> dep \<in> {8, 16}"

definition ihdr_chunk :: "bytes \<Rightarrow> png_state \<Rightarrow> png_state png" where
  "ihdr_chunk body st =
     (if length body \<noteq> 13 then Inl (Err image_error.Corrupt)
      else bindE (be_slice body 0 4) (\<lambda>w. bindE (be_slice body 4 8) (\<lambda>ht.
        if w = 0 \<or> ht = 0 \<or> MAX_EDGE < w \<or> MAX_EDGE < ht then Inl (Err TooLarge)
        else if MAX_PIXELS < w * ht then Inl (Err TooLarge)
        else bindE (index body 8) (\<lambda>dep. bindE (index body 9) (\<lambda>col. bindE (index body 10) (\<lambda>b10.
          bindE (index body 11) (\<lambda>b11. bindE (index body 12) (\<lambda>b12.
            if \<not> valid_type (unat col) (unat dep) \<or> b10 \<noteq> 0 \<or> b11 \<noteq> 0 \<or> 1 < b12 then Inl (Err Unsupported)
            else Inr (st\<lparr>header := Some \<lparr>width = w, height = ht, depth = unat dep, color = unat col,
              interlaced = (b12 = 1)\<rparr>\<rparr>)))))))))"

definition plte_chunk :: "bytes \<Rightarrow> png_state \<Rightarrow> png_state png" where
  "plte_chunk body st =
     (if length body mod 3 \<noteq> 0 \<or> 768 < length body then Inl (Err image_error.Corrupt)
      else let n = length body div 3 in
        bindE (foldE (\<lambda>pal i. bindE (slice body (i * 3) (i * 3 + 3)) (\<lambda>rgb. store pal i (rgb @ [255])))
            (palette st) [0..<n])
          (\<lambda>pal. Inr (st\<lparr>palette := pal, palette_len := n\<rparr>)))"

definition trns_chunk :: "bytes \<Rightarrow> png_state \<Rightarrow> png_state png" where
  "trns_chunk body st =
     (case header st of
        None \<Rightarrow> Inr st
      | Some h \<Rightarrow>
          if color h = 3 then
            bindE (foldE (\<lambda>pal (i, alpha). bindE (index pal i) (\<lambda>entry. bindE (store entry 3 alpha) (store pal i)))
                (palette st) (take 256 (enumerate 0 body)))
              (\<lambda>pal. Inr (st\<lparr>palette := pal\<rparr>))
          else if color h = 0 \<and> 2 \<le> length body then
            bindE (be_slice body 0 2) (\<lambda>v. Inr (st\<lparr>transparent := Some [v, 0, 0]\<rparr>))
          else if color h = 2 \<and> 6 \<le> length body then
            bindE (be_slice body 0 2) (\<lambda>r. bindE (be_slice body 2 4) (\<lambda>g. bindE (be_slice body 4 6) (\<lambda>b.
              Inr (st\<lparr>transparent := Some [r, g, b]\<rparr>))))
          else Inr st)"

definition chunk_step :: "bytes \<Rightarrow> bytes \<Rightarrow> png_state \<Rightarrow> png_state png" where
  "chunk_step kind body st =
     (if kind = ascii ''IHDR'' then ihdr_chunk body st
      else if kind = ascii ''PLTE'' then plte_chunk body st
      else if kind = ascii ''tRNS'' then trns_chunk body st
      else if kind = ascii ''IDAT'' then Inr (st\<lparr>idat_total := idat_total st + length body\<rparr>)
      else Inr st)"

function scan_chunks :: "bytes \<Rightarrow> nat \<Rightarrow> png_state \<Rightarrow> png_state png" where
  "scan_chunks data offset st =
     (if offset + 12 \<le> length data then
        bindE (be_slice data offset (offset + 4)) (\<lambda>len.
        bindE (slice data (offset + 4) (offset + 8)) (\<lambda>kind.
          let body_end = offset + 8 + len in
          if length data < body_end + 4 then Inl (Err image_error.Corrupt)
          else bindE (slice data (offset + 8) body_end) (\<lambda>body.
            bindE (chunk_step kind body st) (\<lambda>st.
              if kind = ascii ''IEND'' then Inr st else scan_chunks data (body_end + 4) st))))
      else Inr st)"
  by pat_completeness auto
termination
  by (relation "measure (\<lambda>(data, offset, _). length data - offset)") auto

declare scan_chunks.simps [simp del]

definition gather_chunk :: "bytes \<Rightarrow> nat \<Rightarrow> nat \<Rightarrow> bytes \<Rightarrow> nat \<Rightarrow> bytes \<Rightarrow> (nat \<times> bytes) png" where
  "gather_chunk data offset len kind filled target =
     (if kind = ascii ''IDAT'' then
        (if length target < filled + len then Inl (Err image_error.Corrupt)
         else bindE (slice data (offset + 8) (offset + 8 + len)) (\<lambda>body.
           bindE (copy_from_slice target filled (filled + len) body) (\<lambda>target. Inr (filled + len, target))))
      else Inr (filled, target))"

function gather_idat :: "bytes \<Rightarrow> nat \<Rightarrow> nat \<Rightarrow> bytes \<Rightarrow> bytes png" where
  "gather_idat data offset filled target =
     (if offset + 12 \<le> length data then
        bindE (be_slice data offset (offset + 4)) (\<lambda>len.
        bindE (slice data (offset + 4) (offset + 8)) (\<lambda>kind.
          let body_end = offset + 8 + len in
          if length data < body_end + 4 then Inl (Err image_error.Corrupt)
          else bindE (gather_chunk data offset len kind filled target) (\<lambda>(filled, target).
            if kind = ascii ''IEND'' then Inr target else gather_idat data (body_end + 4) filled target)))
      else Inr target)"
  by pat_completeness auto
termination
  by (relation "measure (\<lambda>(data, offset, _). length data - offset)") auto

declare gather_idat.simps [simp del]

section \<open>Pixels\<close>

definition sample_at :: "png_header \<Rightarrow> bytes \<Rightarrow> nat \<Rightarrow> nat \<Rightarrow> nat png" where
  "sample_at h line column channel =
     (let i = column * channels h + channel in
      if depth h = 8 then bindE (index line i) (\<lambda>b. Inr (unat b))
      else if depth h = 16 then be_slice line (i * 2) (i * 2 + 2)
      else let bitpos = i * depth h in
        bindE (index line (bitpos div 8)) (\<lambda>b.
          if 8 < depth h + bitpos mod 8 then Inl Panic
          else Inr (unat b div 2 ^ (8 - depth h - bitpos mod 8) mod 2 ^ depth h)))"

definition to8 :: "nat \<Rightarrow> nat \<Rightarrow> byte" where
  "to8 dep v = (if dep = 16 then of_nat (v div 256) else if dep = 8 then of_nat v
     else of_nat (v * 255 div (2 ^ dep - 1)))"

definition pixel_rgba :: "png_header \<Rightarrow> bytes \<Rightarrow> nat \<Rightarrow> bytes list \<Rightarrow> nat \<Rightarrow> nat list option \<Rightarrow> bytes png" where
  "pixel_rgba h line column pal pal_len tkey =
     (if color h = 0 then bindE (sample_at h line column 0) (\<lambda>v.
        let gray = to8 (depth h) v; alpha = (case tkey of Some t \<Rightarrow> if t ! 0 = v then 0 else 255 | None \<Rightarrow> 255) in
        Inr [gray, gray, gray, alpha])
      else if color h = 2 then bindE (sample_at h line column 0) (\<lambda>r. bindE (sample_at h line column 1) (\<lambda>g.
        bindE (sample_at h line column 2) (\<lambda>b.
          Inr [to8 (depth h) r, to8 (depth h) g, to8 (depth h) b, if tkey = Some [r, g, b] then 0 else 255])))
      else if color h = 3 then bindE (sample_at h line column 0) (\<lambda>i.
        if i < pal_len then index pal i else Inr [0, 0, 0, 255])
      else if color h = 4 then bindE (sample_at h line column 0) (\<lambda>v. bindE (sample_at h line column 1) (\<lambda>a.
        let gray = to8 (depth h) v in Inr [gray, gray, gray, to8 (depth h) a]))
      else bindE (sample_at h line column 0) (\<lambda>r. bindE (sample_at h line column 1) (\<lambda>g.
        bindE (sample_at h line column 2) (\<lambda>b. bindE (sample_at h line column 3) (\<lambda>a.
          Inr [to8 (depth h) r, to8 (depth h) g, to8 (depth h) b, to8 (depth h) a])))))"

section \<open>Decoding\<close>

definition pass_geometry :: "png_header \<Rightarrow> nat \<Rightarrow> (nat \<times> nat \<times> nat \<times> nat) png" where
  "pass_geometry h pass = (if interlaced h then index ADAM7 pass else Inr (0, 0, 1, 1))"

definition put_pixel :: "png_header \<Rightarrow> png_state \<Rightarrow> bytes \<Rightarrow> nat \<Rightarrow> nat \<Rightarrow> nat \<Rightarrow> bytes \<Rightarrow> nat \<Rightarrow> bytes png" where
  "put_pixel h st line y x0 dx output column =
     bindE (pixel_rgba h line column (palette st) (palette_len st) (transparent st)) (\<lambda>pixel.
       let at = (y * width h + (x0 + column * dx)) * 4 in copy_from_slice output at (at + 4) pixel)"

definition decode_row :: "png_header \<Rightarrow> png_state \<Rightarrow> bytes \<Rightarrow> nat \<Rightarrow> nat \<Rightarrow> nat \<times> bytes \<times> bytes \<Rightarrow> nat
    \<Rightarrow> (nat \<times> bytes \<times> bytes) png" where
  "decode_row h st raw pass pass_width = (\<lambda>(cursor, previous, output) row.
     let row_bytes = div_ceil (pass_width * bits_per_pixel h) 8; bpp = max (div_ceil (bits_per_pixel h) 8) 1;
         start = cursor + 1 in
     bindE (index raw cursor) (\<lambda>flt.
     bindE (slice raw start (start + row_bytes)) (\<lambda>line.
     bindE (slice previous 0 row_bytes) (\<lambda>above.
     bindE (unfilter (unat flt) line above bpp) (\<lambda>line.
     bindE (copy_from_slice previous 0 row_bytes line) (\<lambda>previous.
     bindE (pass_geometry h pass) (\<lambda>(x0, y0, dx, dy).
     bindE (foldE (put_pixel h st line (y0 + row * dy) x0 dx) output [0..<pass_width]) (\<lambda>output.
       Inr (start + row_bytes, previous, output)))))))))"

definition decode_pass :: "png_header \<Rightarrow> png_state \<Rightarrow> bytes \<Rightarrow> nat \<times> bytes \<times> bytes \<Rightarrow> nat
    \<Rightarrow> (nat \<times> bytes \<times> bytes) png" where
  "decode_pass h st raw = (\<lambda>(cursor, previous, output) pass.
     bindE (pass_size h pass) (\<lambda>(pass_width, pass_height).
       if pass_width = 0 \<or> pass_height = 0 then Inr (cursor, previous, output)
       else let row_bytes = div_ceil (pass_width * bits_per_pixel h) 8 in
         bindE (copy_from_slice previous 0 row_bytes (replicate row_bytes 0)) (\<lambda>previous.
           foldE (decode_row h st raw pass pass_width) (cursor, previous, output) [0..<pass_height])))"

definition image_new :: "bool \<Rightarrow> nat \<Rightarrow> nat \<Rightarrow> bytes png" where
  "image_new memory w ht =
     (if w = 0 \<or> ht = 0 \<or> MAX_EDGE < w \<or> MAX_EDGE < ht then Inl (Err image_error.Corrupt)
      else if MAX_PIXELS < w * ht then Inl (Err TooLarge)
      else if \<not> memory then Inl (Err OutOfMemory)
      else Inr (replicate (w * ht * 4) 0))"

definition initial_state :: png_state where
  "initial_state = \<lparr>header = None, palette = replicate 256 [0, 0, 0, 255], palette_len = 0,
     transparent = None, idat_total = 0\<rparr>"

text \<open>\<open>memory k n\<close> is whether the \<open>k\<close>-th allocation, of \<open>n\<close> bytes, succeeds.  The result is the size
  and the RGBA bytes of the picture.\<close>

definition png_pixels :: "(nat \<Rightarrow> nat \<Rightarrow> bool) \<Rightarrow> png_header \<Rightarrow> png_state \<Rightarrow> bytes \<Rightarrow> (nat \<times> nat \<times> bytes) png" where
  "png_pixels memory h st raw =
     bindE (image_new (memory 2 (width h * height h * 4)) (width h) (height h)) (\<lambda>output.
       if \<not> memory 3 (width h * 8 + 8) then Inl (Err OutOfMemory)
       else bindE (foldE (decode_pass h st raw) (0, replicate (width h * 8 + 8) 0, output) [0..<png_passes h])
         (\<lambda>(_, _, output). Inr (width h, height h, output)))"

definition png_image :: "(nat \<Rightarrow> nat \<Rightarrow> bool) \<Rightarrow> bytes \<Rightarrow> png_header \<Rightarrow> png_state \<Rightarrow> (nat \<times> nat \<times> bytes) png" where
  "png_image memory data h st =
     bindE (gather_idat data 8 0 (replicate (idat_total st) 0)) (\<lambda>compressed.
       bindE (raw_size h) (\<lambda>expected.
         if \<not> memory 1 expected then Inl (Err OutOfMemory)
         else bindE (map_err (\<lambda>_. image_error.Corrupt) (zlib_decompress compressed (replicate expected 0)))
           (\<lambda>(raw, produced).
             if produced \<noteq> expected then Inl (Err image_error.Corrupt) else png_pixels memory h st raw)))"

definition png_decode :: "(nat \<Rightarrow> nat \<Rightarrow> bool) \<Rightarrow> bytes \<Rightarrow> (nat \<times> nat \<times> bytes) png" where
  "png_decode memory data =
     (if take 8 data \<noteq> SIGNATURE then Inl (Err Unsupported)
      else bindE (scan_chunks data 8 initial_state) (\<lambda>st.
        case header st of
          None \<Rightarrow> Inl (Err image_error.Corrupt)
        | Some h \<Rightarrow>
            if idat_total st = 0 \<or> (color h = 3 \<and> palette_len st = 0) then Inl (Err image_error.Corrupt)
            else if \<not> memory 0 (idat_total st) then Inl (Err OutOfMemory)
            else png_image memory data h st))"

end
