(* ===== verification/PngSafe.thy ===== *)
theory PngSafe
  imports InflateSafe PngKernel
begin

text \<open>
  The PNG decoder returns on every input, and without a panic: the state the chunk walk builds is
  well formed whatever the chunks hold, the rows of all passes lie inside the decompressed data,
  and the pixels of a row inside the picture.
\<close>

section \<open>Chunks\<close>

definition header_ok :: "png_header \<Rightarrow> bool" where
  "header_ok h \<longleftrightarrow> 0 < width h \<and> width h \<le> MAX_EDGE \<and> 0 < height h \<and> height h \<le> MAX_EDGE \<and>
     width h * height h \<le> MAX_PIXELS \<and> valid_type (color h) (depth h)"

definition state_ok :: "png_state \<Rightarrow> bool" where
  "state_ok st \<longleftrightarrow> length (palette st) = 256 \<and> (\<forall>e \<in> set (palette st). length e = 4) \<and> palette_len st \<le> 256 \<and>
     (\<forall>h. header st = Some h \<longrightarrow> header_ok h)"

lemma safe_ihdr: "state_ok st \<Longrightarrow> safe (ihdr_chunk body st) state_ok"
proof (cases "length body = 13")
  case True
  assume st: "state_ok st"
  have w: "be_slice body 0 4 = Inr (be_val (py_slice body 0 4))" "be_slice body 4 8 = Inr (be_val (py_slice body 4 8))"
    using True by (simp_all add: be_slice_def slice_def)
  have b: "index body 8 = Inr (body ! 8)" "index body 9 = Inr (body ! 9)" "index body 10 = Inr (body ! 10)"
    "index body 11 = Inr (body ! 11)" "index body 12 = Inr (body ! 12)"
    using True by (simp_all add: index_def)
  show ?thesis
    using True st unfolding ihdr_chunk_def w b by (auto simp: state_ok_def header_ok_def)
qed (simp add: ihdr_chunk_def)

lemma safe_plte:
  assumes "state_ok st"
  shows "safe (plte_chunk body st) state_ok"
proof (cases "length body mod 3 \<noteq> 0 \<or> 768 < length body")
  case False
  then have n: "length body div 3 \<le> 256" "length body = length body div 3 * 3" by auto
  let ?P = "\<lambda>pal :: bytes list. length pal = 256 \<and> (\<forall>e \<in> set pal. length e = 4)"
  have "safe (foldE (\<lambda>pal i. bindE (slice body (i * 3) (i * 3 + 3)) (\<lambda>rgb. store pal i (rgb @ [255])))
      (palette st) [0..<length body div 3]) ?P"
  proof (rule safe_fold)
    fix pal :: "bytes list" and i
    assume p: "?P pal" and i: "i \<in> set [0..<length body div 3]"
    then have "i * 3 + 3 \<le> length body" "i < length pal" using n by auto
    then show "safe (bindE (slice body (i * 3) (i * 3 + 3)) (\<lambda>rgb. store pal i (rgb @ [255]))) ?P"
      using p by (intro safe_bind[OF safe_slice] safe_mono[OF safe_store]) (auto dest!: subsetD[OF set_update_subset_insert])
  qed (use assms in \<open>simp add: state_ok_def\<close>)
  then show ?thesis
    using False n assms unfolding plte_chunk_def
    by (auto simp: Let_def state_ok_def intro!: safe_bind)
qed (simp add: plte_chunk_def)

lemma safe_trns:
  assumes "state_ok st"
  shows "safe (trns_chunk body st) state_ok"
proof (cases "header st")
  case (Some h)
  let ?P = "\<lambda>pal :: bytes list. length pal = 256 \<and> (\<forall>e \<in> set pal. length e = 4)"
  have f: "safe (foldE (\<lambda>pal (i, alpha). bindE (index pal i) (\<lambda>entry. bindE (store entry 3 alpha) (store pal i)))
      (palette st) (take 256 (enumerate 0 body))) ?P"
  proof (rule safe_fold)
    fix pal :: "bytes list" and x
    assume p: "?P pal" and x: "x \<in> set (take 256 (enumerate 0 body))"
    obtain i alpha where ia: "x = (i, alpha)" by force
    have i: "i < length pal" using x p by (auto simp: ia in_set_conv_nth nth_enumerate_eq)
    then have e: "length (pal ! i) = 4" using p by simp
    show "safe (case x of (i, alpha) \<Rightarrow> bindE (index pal i) (\<lambda>entry. bindE (store entry 3 alpha) (store pal i))) ?P"
      using p i e by (auto simp: ia intro!: safe_bind[OF safe_index] safe_bind[OF safe_store] safe_mono[OF safe_store]
          dest!: subsetD[OF set_update_subset_insert])
  qed (use assms in \<open>simp add: state_ok_def\<close>)
  show ?thesis
  proof (cases "color h = 3")
    case True
    show ?thesis
      unfolding trns_chunk_def Some option.case if_P[OF True]
      by (rule safe_bind[OF f]) (use assms in \<open>simp add: state_ok_def\<close>)
  next
    case False
    have "state_ok (st\<lparr>transparent := tr\<rparr>)" for tr using assms by (simp add: state_ok_def)
    then show ?thesis
      unfolding trns_chunk_def Some option.case if_not_P[OF False]
      using assms by (auto intro!: safe_bind[OF safe_be_slice])
  qed
qed (use assms in \<open>simp add: trns_chunk_def\<close>)

lemma safe_chunk_step: "state_ok st \<Longrightarrow> safe (chunk_step kind body st) state_ok"
  using safe_ihdr safe_plte safe_trns by (auto simp: chunk_step_def) (simp add: state_ok_def)

lemma safe_scan: "state_ok st \<Longrightarrow> safe (scan_chunks data offset st) state_ok"
proof (induction data offset st rule: scan_chunks.induct)
  case (1 data offset st)
  show ?case
  proof (cases "offset + 12 \<le> length data")
    case True
    then obtain len where len: "be_slice data offset (offset + 4) = (Inr len :: nat png)"
      by (simp add: be_slice_def slice_def)
    obtain kind where kind: "slice data (offset + 4) (offset + 8) = (Inr kind :: bytes png)"
      using True by (simp add: slice_def)
    show ?thesis
    proof (cases "length data < offset + 8 + len + 4")
      case False
      then obtain body where body: "slice data (offset + 8) (offset + 8 + len) = (Inr body :: bytes png)" by (simp add: slice_def)
      show ?thesis
        using safe_chunk_step[OF 1(2), of kind body] 1(1)[OF True len kind refl False body] True False
        by (subst scan_chunks.simps) (auto simp: len kind body Let_def intro!: safe_bind[where P = state_ok])
    qed (use True in \<open>subst scan_chunks.simps, simp add: len kind\<close>)
  qed (use 1(2) in \<open>subst scan_chunks.simps, simp\<close>)
qed

section \<open>Geometry\<close>

definition pass_geo :: "png_header \<Rightarrow> nat \<Rightarrow> nat \<times> nat \<times> nat \<times> nat" where
  "pass_geo h p = (if interlaced h then ADAM7 ! p else (0, 0, 1, 1))"

definition pass_dims :: "png_header \<Rightarrow> nat \<Rightarrow> nat \<times> nat" where
  "pass_dims h p = (case pass_geo h p of (x0, y0, dx, dy) \<Rightarrow> (div_ceil (width h - x0) dx, div_ceil (height h - y0) dy))"

definition row_bytes :: "png_header \<Rightarrow> nat \<Rightarrow> nat" where
  "row_bytes h pw = div_ceil (pw * bits_per_pixel h) 8"

definition pass_bytes :: "png_header \<Rightarrow> nat \<Rightarrow> nat" where
  "pass_bytes h p = (case pass_dims h p of (pw, ph) \<Rightarrow> if pw = 0 \<or> ph = 0 then 0 else ph * (row_bytes h pw + 1))"

lemma length_ADAM7 [simp]: "length ADAM7 = 7"
  by (simp add: ADAM7_def)

lemma pass_geo_ok: "p < png_passes h \<Longrightarrow> pass_geometry h p = Inr (pass_geo h p)"
  by (auto simp: pass_geometry_def pass_geo_def png_passes_def split: if_splits)

lemma div_ceil_1 [simp]: "div_ceil a (Suc 0) = a"
  by (simp add: div_ceil_def)

lemma pass_size_ok: "p < png_passes h \<Longrightarrow> pass_size h p = Inr (pass_dims h p)"
  by (auto simp: pass_size_def pass_dims_def pass_geo_def png_passes_def split: if_splits prod.split)

lemma pass_steps:
  assumes "p < png_passes h" and "pass_geo h p = (x0, y0, dx, dy)"
  shows "0 < dx" and "0 < dy"
proof -
  have "\<forall>(x0, y0, dx, dy) \<in> set ADAM7. 0 < dx \<and> 0 < dy" by (simp add: ADAM7_def)
  moreover have "ADAM7 ! p \<in> set ADAM7" if "interlaced h" using assms(1) that by (simp add: png_passes_def)
  ultimately show "0 < dx" "0 < dy" using assms(2) by (auto simp: pass_geo_def split: if_splits)
qed

lemma raw_size_eq: "raw_size h = Inr (\<Sum>p<png_passes h. pass_bytes h p)"
proof -
  have step: "bindE (pass_size h p) (\<lambda>(w, ht). Inr (if 0 < w \<and> 0 < ht then total + div_ceil (w * bits_per_pixel h) 8 * ht + ht else total))
      = (Inr (total + pass_bytes h p) :: nat png)" if "p < png_passes h" for p total
    using that by (auto simp: pass_size_ok pass_bytes_def row_bytes_def algebra_simps split: prod.split)
  have "foldE (\<lambda>total p. bindE (pass_size h p) (\<lambda>(w, ht). Inr (if 0 < w \<and> 0 < ht then total + div_ceil (w * bits_per_pixel h) 8 * ht + ht else total)))
      0 [0..<n] = (Inr (\<Sum>p<n. pass_bytes h p) :: nat png)" if "n \<le> png_passes h" for n
    using that by (induction n) (auto simp: foldE_append step)
  then show ?thesis unfolding raw_size_def by simp
qed

lemma div_ceil_less: "0 < d \<Longrightarrow> k < div_ceil a d \<Longrightarrow> k * d < a"
proof -
  assume d: "0 < d" and k: "k < div_ceil a d"
  have "(k + 1) * d \<le> d * div_ceil a d" using k by (metis Suc_eq_plus1 Suc_leI mult.commute mult_le_mono1)
  then show "k * d < a" using div_ceil_pos[OF d, of a] by simp
qed

lemma pass_pixel:
  assumes "p < png_passes h" and "pass_geo h p = (x0, y0, dx, dy)" and "pass_dims h p = (pw, ph)"
    and "c < pw" and "r < ph"
  shows "x0 + c * dx < width h" and "y0 + r * dy < height h"
  using div_ceil_less[OF pass_steps(1)[OF assms(1,2)], of c "width h - x0"]
    div_ceil_less[OF pass_steps(2)[OF assms(1,2)], of r "height h - y0"] assms(2-5)
  by (auto simp: pass_dims_def)

lemma pass_width_le:
  assumes "p < png_passes h" and "pass_dims h p = (pw, ph)"
  shows "pw \<le> width h"
proof -
  obtain x0 y0 dx dy where g: "pass_geo h p = (x0, y0, dx, dy)" by (cases "pass_geo h p") auto
  show ?thesis
  proof (cases pw)
    case (Suc c)
    then have "c * dx < width h - x0"
      using assms g by (intro div_ceil_less[OF pass_steps(1)[OF assms(1) g]]) (simp add: pass_dims_def)
    moreover have "c \<le> c * dx" using pass_steps(1)[OF assms(1) g] by simp
    ultimately show ?thesis using Suc by linarith
  qed simp
qed

lemma valid_header: "header_ok h \<Longrightarrow> depth h \<in> {1, 2, 4} \<and> channels h = 1 \<or> depth h = 8 \<and> channels h \<in> {1, 2, 3, 4} \<or>
    depth h = 16 \<and> channels h \<in> {1, 2, 3, 4}"
  by (auto simp: header_ok_def valid_type_def channels_def)

lemma row_bytes_le:
  assumes "header_ok h" and "pw \<le> width h"
  shows "row_bytes h pw \<le> width h * 8 + 8"
proof -
  have "bits_per_pixel h \<le> 64" using valid_header[OF assms(1)] by (auto simp: bits_per_pixel_def)
  then have "pw * bits_per_pixel h \<le> width h * 64" using assms(2) by (rule mult_le_mono[rotated])
  then show ?thesis using div_ceil_pos[of 8 "pw * bits_per_pixel h"] unfolding row_bytes_def by linarith
qed

section \<open>Filters\<close>

lemma safe_unfilter:
  assumes "length previous = length line" and "1 \<le> bpp"
  shows "safe (unfilter flt line previous bpp) (\<lambda>l. length l = length line)"
proof -
  have step: "safe (unfilter_step flt previous bpp l i) (\<lambda>l. length l = length line)"
    if "length l = length line" "i < length line" for flt l i
    using that assms by (auto simp: unfilter_step_def left_of_def)
  show ?thesis
    by (auto simp: unfilter_def intro!: safe_fold step)
qed

section \<open>Pixels\<close>

lemma safe_sample_at:
  assumes "header_ok h" and "length line = row_bytes h pw" and "column < pw" and "channel < channels h"
  shows "safe (sample_at h line column channel) (\<lambda>v. True)"
proof -
  let ?i = "column * channels h + channel"
  have "(column + 1) * channels h \<le> pw * channels h" using assms(3) by (intro mult_le_mono) auto
  then have i: "?i < pw * channels h" using assms(4) by simp
  have len: "pw * channels h * depth h \<le> 8 * length line"
    using div_ceil_pos[of 8 "pw * bits_per_pixel h"] by (simp add: assms(2) row_bytes_def bits_per_pixel_def mult.assoc)
  consider "depth h \<in> {1, 2, 4}" | "depth h = 8" | "depth h = 16" using valid_header[OF assms(1)] by auto
  then show ?thesis
  proof cases
    case 1
    have "(?i + 1) * depth h \<le> pw * channels h * depth h" using i by (intro mult_le_mono) auto
    then have "?i * depth h + depth h \<le> 8 * length line" using len by simp
    moreover have "8 * (?i * depth h div 8) + ?i * depth h mod 8 = ?i * depth h" by simp
    ultimately have "?i * depth h div 8 < length line" using 1 by auto
    moreover have "depth h + ?i * depth h mod 8 \<le> 8" using 1 by (elim insertE emptyE) (simp, presburger)+
    ultimately show ?thesis using 1 by (auto simp: sample_at_def Let_def)
  next
    case 2
    then show ?thesis using i len by (auto simp: sample_at_def Let_def)
  next
    case 3
    then have "?i * 2 + 2 \<le> length line" using i len by simp
    then show ?thesis using 3 by (auto simp: sample_at_def Let_def intro!: safe_mono[OF safe_be_slice])
  qed
qed

lemma safe_pixel_rgba:
  assumes "header_ok h" and "length line = row_bytes h pw" and "column < pw" and "state_ok st"
  shows "safe (pixel_rgba h line column (palette st) (palette_len st) (transparent st)) (\<lambda>p. length p = 4)"
proof -
  have s: "safe (sample_at h line column channel) (\<lambda>v. True)" if "channel < channels h" for channel
    by (rule safe_sample_at[OF assms(1-3) that])
  have pal: "i < palette_len st \<Longrightarrow> i < length (palette st) \<and> length (palette st ! i) = 4" for i
    using assms(4) by (auto simp: state_ok_def)
  consider "color h = 0" | "color h = 2" | "color h = 3" | "color h = 4" | "color h = 6"
    using assms(1) by (auto simp: header_ok_def valid_type_def)
  then show ?thesis
    by cases (auto simp: pixel_rgba_def channels_def Let_def pal intro!: safe_bind[OF s])
qed


section \<open>Rows and passes\<close>

lemma pixel_offset:
  assumes "x < w" and "y < (ht :: nat)"
  shows "(y * w + x) * 4 + 4 \<le> w * ht * 4"
proof -
  have "(y + 1) * w \<le> ht * w" using assms(2) by (intro mult_le_mono) auto
  then have "y * w + x + 1 \<le> w * ht" using assms(1) by (simp add: mult.commute)
  then have "(y * w + x + 1) * 4 \<le> w * ht * 4" by (rule mult_le_mono1)
  then show ?thesis by (simp add: add_mult_distrib)
qed

lemma safe_row_pixels:
  assumes "header_ok h" and "state_ok st" and "p < png_passes h" and "pass_geo h p = (x0, y0, dx, dy)"
    and "pass_dims h p = (pw, ph)" and "r < ph" and "length line = row_bytes h pw" and "length out = width h * height h * 4"
  shows "safe (foldE (put_pixel h st line (y0 + r * dy) x0 dx) out [0..<pw]) (\<lambda>o'. length o' = width h * height h * 4)"
proof (rule safe_fold)
  fix o' :: bytes and c assume o': "length o' = width h * height h * 4" and "c \<in> set [0..<pw]"
  then have c: "c < pw" by simp
  define at where "at = ((y0 + r * dy) * width h + (x0 + c * dx)) * 4"
  have "at + 4 \<le> length o'"
    using pixel_offset[OF pass_pixel[OF assms(3-5) c assms(6)]] by (simp add: at_def o')
  then show "safe (put_pixel h st line (y0 + r * dy) x0 dx o' c) (\<lambda>o'. length o' = width h * height h * 4)"
    unfolding put_pixel_def Let_def at_def[symmetric]
    by (intro safe_bind[OF safe_pixel_rgba[OF assms(1,7) c assms(2)]] safe_mono[OF safe_copy]) (auto simp: o')
qed (rule assms(8))

definition row_ok :: "png_header \<Rightarrow> nat \<Rightarrow> nat \<times> bytes \<times> bytes \<Rightarrow> bool" where
  "row_ok h c = (\<lambda>(cursor, previous, out). cursor = c \<and> length previous = width h * 8 + 8 \<and>
     length out = width h * height h * 4)"

lemma safe_decode_row:
  assumes "header_ok h" and "state_ok st" and "p < png_passes h" and "pass_dims h p = (pw, ph)" and "r < ph"
    and "row_ok h c s" and "c + row_bytes h pw + 1 \<le> length raw"
  shows "safe (decode_row h st raw p pw s r) (row_ok h (c + row_bytes h pw + 1))"
proof -
  obtain previous out where s: "s = (c, previous, out)" and len: "length previous = width h * 8 + 8"
      "length out = width h * height h * 4"
    using assms(6) by (cases s) (auto simp: row_ok_def)
  obtain x0 y0 dx dy where g: "pass_geo h p = (x0, y0, dx, dy)" by (cases "pass_geo h p") auto
  have rb: "row_bytes h pw \<le> length previous"
    using row_bytes_le[OF assms(1) pass_width_le[OF assms(3,4)]] by (simp add: len)
  have bpp: "1 \<le> max (div_ceil (bits_per_pixel h) 8) 1" by simp
  show ?thesis
    unfolding s decode_row_def prod.case Let_def row_bytes_def[symmetric] pass_geo_ok[OF assms(3)] g bindE_Inr
    apply (rule safe_bind[OF safe_index])
    using assms(7) apply simp
    apply (rule safe_bind[OF safe_slice])
    apply simp
    using assms(7) apply simp
    apply (rule safe_bind[OF safe_slice])
    apply simp
    apply (rule rb)
    apply (rule safe_bind[OF safe_unfilter[OF _ bpp]])
    apply simp
    apply (rule safe_bind[OF safe_copy])
    apply simp
    apply (rule rb)
    apply simp
    apply (rule safe_bind[OF safe_row_pixels[OF assms(1-3) g assms(4,5)]])
    apply simp
    apply (rule len)
    by (simp add: row_ok_def len)
qed

lemma safe_decode_pass:
  assumes "header_ok h" and "state_ok st" and "p < png_passes h" and "row_ok h c s" and "c + pass_bytes h p \<le> length raw"
  shows "safe (decode_pass h st raw s p) (row_ok h (c + pass_bytes h p))"
proof -
  obtain previous out where s: "s = (c, previous, out)" and len: "length previous = width h * 8 + 8"
      "length out = width h * height h * 4"
    using assms(4) by (cases s) (auto simp: row_ok_def)
  obtain pw ph where d: "pass_dims h p = (pw, ph)" by force
  show ?thesis
  proof (cases "pw = 0 \<or> ph = 0")
    case False
    have rb: "row_bytes h pw \<le> length previous"
      using row_bytes_le[OF assms(1) pass_width_le[OF assms(3) d]] by (simp add: len)
    have pb: "pass_bytes h p = ph * (row_bytes h pw + 1)" using False by (simp add: pass_bytes_def d)
    have rows: "safe (foldE (decode_row h st raw p pw) (c, previous', out) [0..<ph])
        (row_ok h (c + length [0..<ph] * (row_bytes h pw + 1)))" if "length previous' = width h * 8 + 8" for previous'
    proof (rule safe_fold_nth[where P = "\<lambda>k. row_ok h (c + k * (row_bytes h pw + 1))"])
      fix k s assume k: "row_ok h (c + k * (row_bytes h pw + 1)) s" "k < length [0..<ph]"
      have "(k + 1) * (row_bytes h pw + 1) \<le> ph * (row_bytes h pw + 1)" using k(2) by (intro mult_le_mono1) simp
      then have "c + k * (row_bytes h pw + 1) + row_bytes h pw + 1 \<le> length raw" using assms(5) by (simp add: pb)
      from safe_decode_row[OF assms(1-3) d _ k(1) this, of k] k(2)
      show "safe (decode_row h st raw p pw s ([0..<ph] ! k)) (row_ok h (c + Suc k * (row_bytes h pw + 1)))"
        by (simp add: algebra_simps)
    qed (simp add: row_ok_def len that)
    show ?thesis
      unfolding s decode_pass_def prod.case pass_size_ok[OF assms(3)] d bindE_Inr if_not_P[OF False] Let_def row_bytes_def[symmetric]
      by (rule safe_bind[OF safe_copy]) (use rb rows in \<open>auto simp: pb len\<close>)
  qed (use assms(3) in \<open>auto simp: s decode_pass_def pass_size_ok d pass_bytes_def row_ok_def len\<close>)
qed

definition picture_ok :: "nat \<times> nat \<times> bytes \<Rightarrow> bool" where
  "picture_ok = (\<lambda>(w, ht, rgba). 0 < w \<and> w \<le> MAX_EDGE \<and> 0 < ht \<and> ht \<le> MAX_EDGE \<and> w * ht \<le> MAX_PIXELS \<and>
     length rgba = w * ht * 4)"

lemma safe_png_pixels:
  assumes "header_ok h" and "state_ok st" and "length raw = (\<Sum>p<png_passes h. pass_bytes h p)"
  shows "safe (png_pixels memory h st raw) picture_ok"
proof -
  have passes: "safe (foldE (decode_pass h st raw) (0, replicate (width h * 8 + 8) 0, out) [0..<png_passes h])
      (row_ok h (\<Sum>p<length [0..<png_passes h]. pass_bytes h p))" if "length out = width h * height h * 4" for out
  proof (rule safe_fold_nth[where P = "\<lambda>k. row_ok h (\<Sum>p<k. pass_bytes h p)"])
    fix k s assume k: "row_ok h (\<Sum>p<k. pass_bytes h p) s" "k < length [0..<png_passes h]"
    have "(\<Sum>p<Suc k. pass_bytes h p) \<le> length raw" unfolding assms(3) using k(2) by (intro sum_mono2) auto
    then show "safe (decode_pass h st raw s ([0..<png_passes h] ! k)) (row_ok h (\<Sum>p<Suc k. pass_bytes h p))"
      using safe_decode_pass[OF assms(1,2) _ k(1), of k raw] k(2) by simp
  qed (simp add: row_ok_def that)
  have new: "safe (image_new m (width h) (height h)) (\<lambda>out. length out = width h * height h * 4)" for m
    using assms(1) by (auto simp: image_new_def)
  show ?thesis
    unfolding png_pixels_def
    by (rule safe_bind[OF new]) (use assms(1) in \<open>auto intro!: safe_bind[OF passes] simp: row_ok_def picture_ok_def header_ok_def\<close>)
qed

section \<open>The whole file\<close>

lemma safe_gather: "filled \<le> length target \<Longrightarrow> safe (gather_idat data offset filled target) (\<lambda>t. length t = length target)"
proof (induction data offset filled target rule: gather_idat.induct)
  case (1 data offset filled target)
  show ?case
  proof (cases "offset + 12 \<le> length data")
    case True
    then obtain len where len: "be_slice data offset (offset + 4) = (Inr len :: nat png)"
      by (simp add: be_slice_def slice_def)
    obtain kind where kind: "slice data (offset + 4) (offset + 8) = (Inr kind :: bytes png)"
      using True by (simp add: slice_def)
    show ?thesis
    proof (cases "length data < offset + 8 + len + 4")
      case False
      have step: "safe (gather_chunk data offset len kind filled target) (\<lambda>(f, t). f \<le> length t \<and> length t = length target)"
        using False 1(2) by (auto simp: gather_chunk_def intro!: safe_bind[OF safe_slice] safe_bind[OF safe_copy])
      have "safe (if kind = ascii ''IEND'' then Inr t else gather_idat data (offset + 8 + len + 4) f t)
          (\<lambda>t. length t = length target)"
        if ft: "gather_chunk data offset len kind filled target = Inr (f, t)" "f \<le> length t" "length t = length target" for f t
        using 1(1)[OF True len kind refl False ft(1) refl] ft by (auto elim!: safe_mono)
      then show ?thesis
        using True False by (subst gather_idat.simps) (auto simp: len kind Let_def intro!: safe_bind[OF step])
    qed (use True in \<open>subst gather_idat.simps, simp add: len kind\<close>)
  qed (use 1(2) in \<open>subst gather_idat.simps, simp\<close>)
qed

lemma safe_png_decode: "safe (png_decode memory data) picture_ok"
proof (cases "take 8 data = SIGNATURE")
  case True
  have "state_ok initial_state" by (simp add: state_ok_def initial_state_def)
  then have scan: "safe (scan_chunks data 8 initial_state) state_ok" by (rule safe_scan)
  have main: "safe (png_image memory data h st) picture_ok"
    if st: "state_ok st" "header st = Some h" for st h
    unfolding png_image_def
  proof (rule safe_bind[OF safe_gather], simp, unfold raw_size_eq bindE_Inr)
    fix compressed
    let ?n = "\<Sum>p<png_passes h. pass_bytes h p"
    have h: "header_ok h" using st by (simp add: state_ok_def)
    have z: "safe (map_err (\<lambda>_. image_error.Corrupt) (zlib_decompress compressed (replicate ?n 0)))
        (\<lambda>(raw, produced). length raw = ?n)"
      unfolding safe_map_err by (rule safe_mono[OF safe_zlib_decompress]) auto
    show "safe (if \<not> memory 1 ?n then Inl (Err OutOfMemory)
        else bindE (map_err (\<lambda>_. image_error.Corrupt) (zlib_decompress compressed (replicate ?n 0)))
        (\<lambda>(raw, produced). if produced \<noteq> ?n then Inl (Err image_error.Corrupt) else png_pixels memory h st raw))
        picture_ok"
      by (auto intro!: safe_bind[OF z] safe_png_pixels[OF h st(1)])
  qed
  show ?thesis
    unfolding png_decode_def using True by (auto intro!: safe_bind[OF scan] main split: option.split)
qed (simp add: png_decode_def)


text \<open>
  C39: for every byte sequence offered as a picture and every outcome of the allocations, the
  kernel's PNG decoder returns: it does not loop and it does not panic, which with the kernel's
  overflow checks includes every index, slice and subtraction of the chunk walks, the inflater,
  the filters and the pixel conversion.  It returns one of its four errors, or a picture whose
  size is within the limits and whose buffer has exactly four bytes for every pixel.
\<close>

theorem png_decode_returns:
  "(\<exists>e. png_decode memory data = Inl (Err e)) \<or>
   (\<exists>w ht rgba. png_decode memory data = Inr (w, ht, rgba) \<and> 0 < w \<and> w \<le> MAX_EDGE \<and> 0 < ht \<and> ht \<le> MAX_EDGE \<and>
      w * ht \<le> MAX_PIXELS \<and> length rgba = w * ht * 4)"
proof (cases "png_decode memory data")
  case (Inl e)
  then have "safe (Inl e) picture_ok" using safe_png_decode[of memory data] by simp
  then show ?thesis using Inl by (cases e) auto
next
  case (Inr picture)
  then have "picture_ok picture" using safe_png_decode[of memory data] by simp
  then show ?thesis using Inr by (auto simp: picture_ok_def split: prod.splits)
qed

end
