(* ===== verification/Spec2Isabelle.thy ===== *)
theory Spec2Isabelle
  imports Partition Fractions Pylong Pkg IpCollapse IpClass Bisect GraphOrder PngSafe
begin

text \<open>
  AerOS is an operating system written in Rust (\<^verbatim>\<open>kernel/\<close>, \<^verbatim>\<open>userspace/\<close>, \<^verbatim>\<open>installer/\<close>) with a set
  of Python tools that build what it boots and tests it against (\<^verbatim>\<open>tools/\<close>), and with a Python
  3.13 runtime it ships to its users (\<^verbatim>\<open>assets/userspace/python/usr/lib/python3.13\<close>, below called
  the runtime).  This development models the parts of it that compute: the formats the tools
  write and the kernel reads, and the modules of the runtime that are self-contained
  algorithms.

  \<^bold>\<open>Conventions.\<close>  Python and Rust functions become functions of HOL with the same names where
  HOL allows them; exceptions are the values \<open>Inl e\<close> of a result type over \<open>py_error\<close>
  (\<open>Prelude\<close>), so that every raise and early return of the source is a branch.  Python
  integers are \<open>int\<close>, or \<open>nat\<close> where the source only holds lengths and indices; bytes and
  machine integers are words; texts are lists of characters below 256.  Generators are the
  list of what they yield; code that mutates an object takes and returns its record.
  What is not in the repository (SHA-256 and Ed25519, the block device, the directory walk,
  zlib's compressor) is an argument of the definitions that use it.

  \<^bold>\<open>Shared theories.\<close>  \<open>Prelude\<close>: results, sequencing, slices and slice assignment.
  \<open>PyStruct\<close>: integers as bytes, \<^verbatim>\<open>struct.pack_into\<close> and \<^verbatim>\<open>unpack_from\<close>, lists of non-overlapping
  writes to a buffer.  \<open>PyText\<close>: numbers printed and read in a base, split and join.
  \<open>PyInt\<close>: \<^verbatim>\<open>int.bit_length\<close>, shifts and masks as arithmetic, floor division.

  \<^bold>\<open>Disk images.\<close>  \<open>GptDisk\<close> models \<^verbatim>\<open>tools/make-gpt-disk.py\<close> (\<open>gpt_make\<close>, \<open>gpt_verify\<close> and
  their parts) over \<open>Uuid\<close>, the \<^verbatim>\<open>UUID\<close> class of \<^verbatim>\<open>uuid.py\<close>; \<open>Partition\<close> models
  \<^verbatim>\<open>kernel/src/partition.rs\<close> as a whole over a block device that is a function.  The lemmas
  show the layout of an image, that the kernel's CRC is zlib's, that a verified report is safe
  whatever the disk holds, and in this theory that the kernel accepts every image the tool
  makes with a partition that leaves room for the backup table; one that does not is written
  over it.  UUIDs round trip through their four encodings.

  \<^bold>\<open>Packages.\<close>  \<open>Pkg\<close> models the builder \<^verbatim>\<open>tools/aeros-pkg.py\<close>, the vectors of
  \<^verbatim>\<open>tools/make-pkg-vectors.py\<close> and the header parser of \<^verbatim>\<open>kernel/src/pkg.rs\<close>: which built packages
  the kernel can install, and that an accepted header names only safe paths.

  \<^bold>\<open>Numbers.\<close>  \<open>Fractions\<close> models \<^verbatim>\<open>fractions.py\<close> against the rationals, \<open>Pylong\<close> the
  recursive division of \<^verbatim>\<open>_pylong.py\<close> against floor division.  The recursion of \<open>div2n1n\<close> has
  fuel, and the number of bits of the divisor is enough; the loop that raises a remainder is a
  partial function that is shown to return.

  \<^bold>\<open>IP addresses.\<close>  \<open>IpText\<close>, \<open>IpNet\<close>, \<open>IpCollapse\<close> and \<open>IpClass\<close> model \<^verbatim>\<open>ipaddress.py\<close>:
  the notations of addresses and their round trips; networks as intervals, subnets, supernets,
  exclusion (fuel: one turn more than the version has bits, shown to suffice) and ranges;
  collapsing; the special-purpose blocks and interfaces.  The derived comparisons are those of
  \<^verbatim>\<open>functools.total_ordering\<close>.  Ranges and collapsing are characterised for addresses and networks
  without scopes; exclusion and subnets for all of them, and what a scope does to exclusion
  and collapsing is shown.

  \<^bold>\<open>Heaps, selection, bisection.\<close>  \<open>Heapq\<close> models the heap functions of \<^verbatim>\<open>heapq.py\<close> over a
  comparison.  The locale \<open>weak_order\<close> states what they need of it and carries the heap
  invariant; the locale \<open>heap_queue\<close> is what the clients of a heap rely on, and every weak order
  gives one.  They are interpreted for min-heaps and max-heaps, and in \<open>HeapqSelect\<close> for the
  keyed items of \<^verbatim>\<open>merge\<close>, \<^verbatim>\<open>nsmallest\<close> and \<^verbatim>\<open>nlargest\<close>, which are shown equal to stable sorting.
  \<open>Bisect\<close> models \<^verbatim>\<open>bisect.py\<close> and reuses the stable sort as its reference.

  \<^bold>\<open>Topological sorting.\<close>  \<open>Graphlib\<close> models \<^verbatim>\<open>graphlib.py\<close>: the table built from a graph, and the
  depth-first search, which finds a cycle exactly when there is one.  \<open>GraphOrder\<close> has the
  counters' invariant, the step relation \<open>sched\<close> of a client's calls with its safety and
  liveness, and the static order; its loop is a partial function shown to return.

  \<^bold>\<open>Pictures.\<close>  \<open>RustCore\<close> has what the Rust models share: errors, panics and divergence as
  values, checked indexing, slicing and subtraction (the kernel is built with overflow checks),
  loops, and the predicate \<open>safe\<close> with its rules.  \<open>Inflate\<close> models \<^verbatim>\<open>kernel/src/inflate.rs\<close> and
  \<open>PngKernel\<close> the decoder of \<^verbatim>\<open>kernel/src/png.rs\<close>.  \<open>InflateStream\<close> shows that the 64-bit reader
  is a list of bits; \<open>InflateSafe\<close> and \<open>PngSafe\<close> that both return on every input without a
  panic, the loops with the number of bits left as their measure.

  \<^bold>\<open>Not modelled.\<close>  The rest of the kernel (drivers, memory, scheduling, file systems, network
  stack, desktop), the installer and the userspace programs work on hardware or on the
  kernel's own state and are outside this library; so are the tools that drive OpenSSL
  (\<^verbatim>\<open>make-tls-*.py\<close>, \<^verbatim>\<open>tlspki.py\<close>, key handling and signing), the one-off source patches
  (\<^verbatim>\<open>uni_patch.py\<close>), the icon writer, and the modules of the runtime that wrap the interpreter,
  the operating system or a C extension.  In the modelled modules the parts left out are
  hashing, pickling, \<^verbatim>\<open>__repr__\<close>, format mini-languages and operators on foreign types; each
  component's entry in the manifest says which.
\<close>

section \<open>Properties that span components\<close>

text \<open>
  C1: every image the disk tool makes of at most 2 TiB (\<open>2^21\<close> MiB) with a non-empty partition that
  leaves a mebibyte free at each end is accepted by the kernel: the discovery over a device
  with the image's sectors reports a verified GPT behind a protective MBR, with exactly the one
  partition the tool laid out.
\<close>

theorem kernel_accepts_tool_image:
  assumes "0 < p" and "p + 2 \<le> s" and "s \<le> 2 ^ 21"
  shows "\<exists>img digest. gpt_make sha (int s) (int p) = Inr (img, digest) \<and>
    inspect (image_device img) (s * 2048) = gpt_image_report p"
proof -
  obtain img m entry where "gpt_make sha (int s) (int p) =
      Inr (img, sha (py_slice img (2048 * SECTOR) ((2048 + p * 2048) * SECTOR)))"
    and "gpt_layout s p img m entry"
    by (rule gpt_make_layout[OF assms(2,3)])
  with inspect_gpt_image[OF _ assms] show ?thesis by blast
qed

theorem kernel_accepts_tool_image_witness:
  "\<exists>img digest. gpt_make (\<lambda>_. ''d'') 4 1 = Inr (img, digest) \<and>
     inspect (image_device img) 8192 = gpt_image_report 1"
  using kernel_accepts_tool_image[of 1 4 "\<lambda>_. ''d''"] by simp

end
